(* ===== verification/Prelude.thy ===== *)
theory Prelude
  imports Main "HOL-Library.Multiset"
begin

text \<open>
  Shared vocabulary of the development.

  Go values that can fail at run time are results: \<open>Inl\<close> carries the run-time panic or the
  \<^verbatim>\<open>log.Fatal\<close> that stops the process, \<open>Inr\<close> the value. Indexing a slice, writing through an index
  and taking a sub-slice are the three partial operations of the language that the repository
  uses; they are written out here with their bounds checks (\<open>go_index\<close>, \<open>go_update\<close>,
  \<open>go_slice\<close>). A sub-slice is checked against the length; Go checks against the capacity, which differs
  only where a slice is taken with bounds that were computed before the slice was shortened. Go's
  \<^verbatim>\<open>int\<close> is 64 bits wide; terms, indices and counters are modelled by \<open>int\<close>.

  The lemmas are the ones the components share: how the partial operations evaluate, prefix
  agreement of two lists, and the intersection of majorities as a locale.
\<close>

named_theorems go_simps \<open>evaluation of the partial operations of Go\<close>

section \<open>Results\<close>

datatype fault =
    IndexOutOfRange int
  | SliceBounds int int
  | NilDereference
  | DivideByZero
  | MakeSlice int
  | CloseClosed
  | Panic string
  | Fatal string

type_synonym 'a result = "fault + 'a"

fun bindE :: "'a result \<Rightarrow> ('a \<Rightarrow> 'b result) \<Rightarrow> 'b result" where
  "bindE (Inl e) f = Inl e"
| "bindE (Inr x) f = f x"

lemma bindE_Inr_iff [go_simps]: "bindE r f = Inr y \<longleftrightarrow> (\<exists>x. r = Inr x \<and> f x = Inr y)"
  by (cases r) auto

lemma bindE_Inl_iff:
  "bindE r f = Inl e \<longleftrightarrow> r = Inl e \<or> (\<exists>x. r = Inr x \<and> f x = Inl e)"
  by (cases r) auto

text \<open>How the outcome of an evaluated computation is used.\<close>

lemma case_Some_ex: "(case x of None \<Rightarrow> False | Some y \<Rightarrow> P y) \<Longrightarrow> \<exists>y. x = Some y \<and> P y"
  by (cases x) auto

section \<open>Slices\<close>

abbreviation len :: "'a list \<Rightarrow> int" where
  "len xs \<equiv> int (length xs)"

definition go_index :: "'a list \<Rightarrow> int \<Rightarrow> 'a result" where
  "go_index xs i = (if 0 \<le> i \<and> i < len xs then Inr (xs ! nat i) else Inl (IndexOutOfRange i))"

definition go_update :: "'a list \<Rightarrow> int \<Rightarrow> 'a \<Rightarrow> 'a list result" where
  "go_update xs i v =
     (if 0 \<le> i \<and> i < len xs then Inr (xs[nat i := v]) else Inl (IndexOutOfRange i))"

definition go_slice :: "'a list \<Rightarrow> int \<Rightarrow> int \<Rightarrow> 'a list result" where
  "go_slice xs lo hi =
     (if 0 \<le> lo \<and> lo \<le> hi \<and> hi \<le> len xs
      then Inr (take (nat (hi - lo)) (drop (nat lo) xs)) else Inl (SliceBounds lo hi))"

lemma go_index_Inr [go_simps]:
  "go_index xs i = Inr x \<longleftrightarrow> 0 \<le> i \<and> i < len xs \<and> x = xs ! nat i"
  by (auto simp: go_index_def)

lemma go_index_in_range [simp]:
  "0 \<le> i \<Longrightarrow> i < len xs \<Longrightarrow> go_index xs i = Inr (xs ! nat i)"
  by (simp add: go_index_def)

lemma go_index_nat [simp]: "k < length xs \<Longrightarrow> go_index xs (int k) = Inr (xs ! k)"
  by (simp add: go_index_def)

lemma go_index_last: "xs \<noteq> [] \<Longrightarrow> go_index xs (len xs - 1) = Inr (last xs)"
proof -
  assume "xs \<noteq> []"
  moreover have "nat (len xs - 1) = length xs - 1" by linarith
  ultimately show ?thesis by (simp add: go_index_def last_conv_nth)
qed

lemma go_update_Inr [go_simps]:
  "go_update xs i v = Inr ys \<longleftrightarrow> 0 \<le> i \<and> i < len xs \<and> ys = xs[nat i := v]"
  by (auto simp: go_update_def)

lemma go_slice_Inr [go_simps]:
  "go_slice xs lo hi = Inr ys \<longleftrightarrow>
     0 \<le> lo \<and> lo \<le> hi \<and> hi \<le> len xs \<and> ys = take (nat (hi - lo)) (drop (nat lo) xs)"
  by (auto simp: go_slice_def)

lemma go_slice_prefix: "0 \<le> k \<Longrightarrow> k \<le> len xs \<Longrightarrow> go_slice xs 0 k = Inr (take (nat k) xs)"
  by (simp add: go_slice_def)

section \<open>Prefixes\<close>

lemma take_eq_nth:
  assumes "take k xs = take k ys" and "i < k" and "i < length xs"
  shows "i < length ys \<and> xs ! i = ys ! i"
proof -
  have "i < length (take k ys)" using assms by (metis length_take min_less_iff_conj)
  then show ?thesis using assms by (metis length_take min_less_iff_conj nth_take)
qed

lemma take_eq_le: "take k xs = take k ys \<Longrightarrow> j \<le> k \<Longrightarrow> take j xs = take j ys"
  by (metis min.absorb1 take_take)

lemma take_append_drop_take:
  "p \<le> q \<Longrightarrow> take p xs @ take (q - p) (drop p xs) = take q xs"
  by (metis le_add_diff_inverse take_add)

lemma take_eqI:
  assumes "k \<le> length xs" and "k \<le> length ys" and "\<And>i. i < k \<Longrightarrow> xs ! i = ys ! i"
  shows "take k xs = take k ys"
  using assms by (intro nth_equalityI) auto

lemma dropWhile_shorter [termination_simp]: "length (dropWhile P xs) < Suc (length xs)"
  by (simp add: length_dropWhile_le less_Suc_eq_le)

section \<open>Majorities\<close>

text \<open>
  The two agreement decisions of Raft (winning an election, advancing the commit index) both wait
  for \<^verbatim>\<open>len(rf.peers)/2 + 1\<close> peers. What they rely on is that two such sets share a peer.
\<close>

locale quorums =
  fixes members :: "'a set" and is_quorum :: "'a set \<Rightarrow> bool"
  assumes quorum_members: "is_quorum Q \<Longrightarrow> Q \<subseteq> members"
    and quorum_meet: "is_quorum Q \<Longrightarrow> is_quorum Q' \<Longrightarrow> Q \<inter> Q' \<noteq> {}"
begin

lemma quorum_nonempty: "is_quorum Q \<Longrightarrow> Q \<noteq> {}"
  using quorum_meet [of Q Q] by auto

lemma unique_choice:
  assumes fst_q: "is_quorum Q" and snd_q: "is_quorum Q'"
    and votes: "\<And>v. v \<in> Q \<Longrightarrow> vote v = Some a" "\<And>v. v \<in> Q' \<Longrightarrow> vote v = Some b"
  shows "a = b"
proof -
  obtain v where "v \<in> Q" "v \<in> Q'" using quorum_meet [OF fst_q snd_q] by auto
  then show ?thesis using votes by fastforce
qed

end

definition majority_of :: "nat \<Rightarrow> nat set \<Rightarrow> bool" where
  "majority_of n Q \<longleftrightarrow> Q \<subseteq> {..<n} \<and> n div 2 + 1 \<le> card Q"

lemma majority_meet:
  assumes "majority_of n Q" and "majority_of n Q'"
  shows "Q \<inter> Q' \<noteq> {}"
proof
  assume "Q \<inter> Q' = {}"
  have fin: "finite Q" "finite Q'"
    using assms by (auto simp: majority_of_def intro: finite_subset)
  with \<open>Q \<inter> Q' = {}\<close> have "card Q + card Q' = card (Q \<union> Q')"
    by (simp add: card_Un_disjoint)
  also have "\<dots> \<le> n"
    using assms card_mono [of "{..<n}" "Q \<union> Q'"] by (auto simp: majority_of_def)
  finally show False using assms by (auto simp: majority_of_def)
qed

interpretation maj: quorums "{..<n}" "majority_of n" for n
proof unfold_locales
  show "Q \<subseteq> {..<n}" if "majority_of n Q" for Q
    using that by (simp add: majority_of_def)
  show "Q \<inter> Q' \<noteq> {}" if "majority_of n Q" "majority_of n Q'" for Q Q'
    using that by (rule majority_meet)
qed

end
