(* ===== verification/Labgob.thy ===== *)
theory Labgob
  imports Prelude
begin

text \<open>
  The package \<^verbatim>\<open>labgob\<close> (\<^verbatim>\<open>src/src/labgob/labgob.go\<close>): a wrapper of Go's \<^verbatim>\<open>encoding/gob\<close> that
  warns about types gob cannot transfer and about decoding into variables that already hold
  data.

  Go's reflected types and values are the datatypes \<open>gtype\<close> and \<open>gval\<close> (a recursive Go type, a
  type that reaches itself through a pointer, has no counterpart: types are finite trees).
  \<open>gob_Encode\<close> and \<open>gob_Decode\<close> model what the package relies on of \<^verbatim>\<open>encoding/gob\<close>: a stream of
  transmitted values, in which a struct carries only its exported fields with a non-zero value,
  and an assignment that leaves a field of the target alone when the stream has no value for it.
  On top of them stand \<open>checkType\<close>, \<open>checkDefault1\<close>, \<open>Encode\<close>, \<open>EncodeValue\<close>, \<open>Decode\<close>, and \<open>Register\<close> and
  \<open>RegisterName\<close> on the two tables of registered types.

  Shown: the type check counts no error exactly when every field of the type is exported, such
  values survive a transfer into a fresh variable unchanged, fresh variables raise no
  warning, decoding keeps the type of a variable, and the tables of registered types stay consistent.
\<close>

section \<open>Types and values\<close>

datatype gtype =
    TBool
  | TInt
  | TString
  | TSlice gtype
  | TPtr gtype
  | TMap gtype gtype
  | TInterface
  | TStruct string "(string \<times> gtype) list"

datatype gval =
    VBool bool
  | VInt int
  | VString string
  | VSlice "gval list"
  | VPtr "gval option"
  | VMap "(gval \<times> gval) list"
  | VInterface "(gtype \<times> gval) option"
  | VStruct "(string \<times> gval) list"

text \<open>A value of Go's \<^verbatim>\<open>interface{}\<close> type: \<^verbatim>\<open>nil\<close>, or a value with its dynamic type.\<close>

type_synonym interface = "(gtype \<times> gval) option"

text \<open>\<^verbatim>\<open>unicode.IsUpper\<close> of the first rune of a (nonempty, ASCII) field name.\<close>

fun isUpper :: "string \<Rightarrow> bool" where
  "isUpper [] = False"
| "isUpper (c # cs) = (65 \<le> (of_char c :: nat) \<and> (of_char c :: nat) \<le> 90)"

fun zero :: "gtype \<Rightarrow> gval" and zero_fields :: "(string \<times> gtype) list \<Rightarrow> (string \<times> gval) list"
where
  "zero TBool = VBool False"
| "zero TInt = VInt 0"
| "zero TString = VString []"
| "zero (TSlice t) = VSlice []"
| "zero (TPtr t) = VPtr None"
| "zero (TMap k e) = VMap []"
| "zero TInterface = VInterface None"
| "zero (TStruct n fs) = VStruct (zero_fields fs)"
| "zero_fields [] = []"
| "zero_fields ((f, t) # fs) = (f, zero t) # zero_fields fs"

text \<open>\<^verbatim>\<open>reflect.DeepEqual(reflect.Zero(t), v)\<close>, for the kinds gob omits when they are zero.\<close>

fun is_zero :: "gval \<Rightarrow> bool" and zero_all :: "(string \<times> gval) list \<Rightarrow> bool" where
  "is_zero (VBool b) = (\<not> b)"
| "is_zero (VInt i) = (i = 0)"
| "is_zero (VString s) = (s = [])"
| "is_zero (VSlice vs) = (vs = [])"
| "is_zero (VPtr p) = (p = None)"
| "is_zero (VMap m) = (m = [])"
| "is_zero (VInterface i) = (i = None)"
| "is_zero (VStruct fs) = zero_all fs"
| "zero_all [] = True"
| "zero_all ((f, v) # fs) = (is_zero v \<and> zero_all fs)"

section \<open>The gob stream\<close>

text \<open>
  What \<^verbatim>\<open>encoding/gob\<close> transmits of a value: the fields of a struct that are exported and
  non-zero, by name.
\<close>

fun wire :: "gval \<Rightarrow> gval"
  and wires :: "gval list \<Rightarrow> gval list"
  and wire_fields :: "(string \<times> gval) list \<Rightarrow> (string \<times> gval) list" where
  "wire (VSlice vs) = VSlice (wires vs)"
| "wire (VInterface (Some (t, v))) = VInterface (Some (t, wire v))"
| "wire (VStruct fs) = VStruct (wire_fields fs)"
| "wire v = v"
| "wires [] = []"
| "wires (v # vs) = wire v # wires vs"
| "wire_fields [] = []"
| "wire_fields ((f, v) # fs) =
     (if isUpper f \<and> \<not> is_zero v then [(f, wire v)] else []) @ wire_fields fs"

type_synonym gob_stream = "gval list"

text \<open>A pointer that is encoded is followed first; streams carry no pointers.\<close>

fun indirect :: "gval \<Rightarrow> gval" where
  "indirect (VPtr (Some v)) = indirect v"
| "indirect v = v"

definition gob_Encode :: "gob_stream \<Rightarrow> gval \<Rightarrow> gob_stream" where
  "gob_Encode w v = w @ [wire (indirect v)]"

text \<open>
  Assigning a transmitted value to a variable of type \<open>t\<close> that holds \<open>cur\<close>: a field the stream
  does not carry keeps its current value, a slice is rebuilt from its elements, an interface
  allocates a fresh value of the transmitted dynamic type. \<open>None\<close> is a type mismatch. Maps and
  pointers inside of values are never transferred by this repository, and are refused. Both sides of a
  transfer use the same struct type, so the transmitted fields come in the order of the target's.
\<close>

fun gob_assign :: "gtype \<Rightarrow> gval \<Rightarrow> gval \<Rightarrow> gval option"
  and gob_elems :: "gtype \<Rightarrow> gval list \<Rightarrow> gval list \<Rightarrow> gval list option"
  and gob_fields ::
    "(string \<times> gtype) list \<Rightarrow> (string \<times> gval) list \<Rightarrow> (string \<times> gval) list
       \<Rightarrow> (string \<times> gval) list option" where
  "gob_assign t cur w =
     (case t of
        TBool \<Rightarrow> (case w of VBool b \<Rightarrow> Some w | _ \<Rightarrow> None)
      | TInt \<Rightarrow> (case w of VInt i \<Rightarrow> Some w | _ \<Rightarrow> None)
      | TString \<Rightarrow> (case w of VString s \<Rightarrow> Some w | _ \<Rightarrow> None)
      | TSlice e \<Rightarrow>
          (case w of
             VSlice ws \<Rightarrow>
               map_option VSlice (gob_elems e (case cur of VSlice cs \<Rightarrow> cs | _ \<Rightarrow> []) ws)
           | _ \<Rightarrow> None)
      | TInterface \<Rightarrow>
          (case w of
             VInterface None \<Rightarrow> Some w
           | VInterface (Some (d, x)) \<Rightarrow>
               map_option (\<lambda>v. VInterface (Some (d, v))) (gob_assign d (zero d) x)
           | _ \<Rightarrow> None)
      | TStruct n fs \<Rightarrow>
          (case w of
             VStruct ws \<Rightarrow>
               map_option VStruct (gob_fields fs (case cur of VStruct cs \<Rightarrow> cs | _ \<Rightarrow> []) ws)
           | _ \<Rightarrow> None)
      | _ \<Rightarrow> None)"
| "gob_elems t cs [] = Some []"
| "gob_elems t cs (w # ws) =
     (case gob_assign t (case cs of [] \<Rightarrow> zero t | c # _ \<Rightarrow> c) w of
        None \<Rightarrow> None
      | Some v \<Rightarrow> map_option (\<lambda>vs. v # vs) (gob_elems t (case cs of [] \<Rightarrow> [] | _ # cs' \<Rightarrow> cs') ws))"
| "gob_fields [] cs ws = Some []"
| "gob_fields ((f, t) # fs) [] ws = None"
| "gob_fields ((f, t) # fs) ((g, c) # cs) [] =
     map_option (\<lambda>rest. (g, c) # rest) (gob_fields fs cs [])"
| "gob_fields ((f, t) # fs) ((g, c) # cs) ((h, w) # ws) =
     (if f = h
      then (case gob_assign t c w of
              None \<Rightarrow> None
            | Some v \<Rightarrow> map_option (\<lambda>rest. (f, v) # rest) (gob_fields fs cs ws))
      else map_option (\<lambda>rest. (g, c) # rest) (gob_fields fs cs ((h, w) # ws)))"

declare gob_assign.simps [simp del]

text \<open>A variable that is a pointer is followed, with a fresh value allocated when it is \<^verbatim>\<open>nil\<close>.\<close>

fun gob_into :: "gtype \<Rightarrow> gval \<Rightarrow> gval \<Rightarrow> gval option" where
  "gob_into (TPtr t) cur w =
     map_option (\<lambda>v. VPtr (Some v)) (gob_into t (case cur of VPtr (Some c) \<Rightarrow> c | _ \<Rightarrow> zero t) w)"
| "gob_into t cur w = gob_assign t cur w"

text \<open>\<^verbatim>\<open>Decode\<close> reads the next value of the stream; \<open>None\<close> is the error return (\<^verbatim>\<open>io.EOF\<close> or a
  mismatch).\<close>

definition gob_Decode :: "gob_stream \<Rightarrow> gtype \<Rightarrow> gval \<Rightarrow> (gval \<times> gob_stream) option" where
  "gob_Decode r t cur =
     (case r of [] \<Rightarrow> None | w # r' \<Rightarrow> map_option (\<lambda>v. (v, r')) (gob_into t cur w))"

section \<open>The checks of labgob\<close>

record labgob_state =
  errorCount :: int
  checked :: "gtype list"

definition labgob_init :: labgob_state where
  "labgob_init = \<lparr>errorCount = 0, checked = []\<rparr>"

fun checkType :: "labgob_state \<Rightarrow> gtype \<Rightarrow> labgob_state"
  and checkFields :: "labgob_state \<Rightarrow> (string \<times> gtype) list \<Rightarrow> labgob_state" where
  "checkType st t =
     (if t \<in> set (checked st) then st
      else
        let st = st\<lparr>checked := t # checked st\<rparr> in
        case t of
          TStruct n fs \<Rightarrow> checkFields st fs
        | TSlice e \<Rightarrow> checkType st e
        | TPtr e \<Rightarrow> checkType st e
        | TMap k e \<Rightarrow> checkType (checkType st e) k
        | _ \<Rightarrow> st)"
| "checkFields st [] = st"
| "checkFields st ((f, t) # fs) =
     (let st = (if \<not> isUpper f then st\<lparr>errorCount := errorCount st + 1\<rparr> else st)
      in checkFields (checkType st t) fs)"

declare checkType.simps [simp del]

text \<open>The walk over a value that \<^verbatim>\<open>Decode\<close> is about to overwrite, three levels deep.\<close>

fun checkDefault1 :: "labgob_state \<Rightarrow> gval \<Rightarrow> int \<Rightarrow> labgob_state"
  and checkDefaultFields :: "labgob_state \<Rightarrow> (string \<times> gval) list \<Rightarrow> int \<Rightarrow> labgob_state" where
  "checkDefault1 st v depth =
     (if depth > 3 then st
      else case v of
          VStruct fs \<Rightarrow> checkDefaultFields st fs depth
        | VPtr None \<Rightarrow> st
        | VPtr (Some e) \<Rightarrow> checkDefault1 st e (depth + 1)
        | VBool b \<Rightarrow> (if \<not> is_zero v then st\<lparr>errorCount := errorCount st + 1\<rparr> else st)
        | VInt i \<Rightarrow> (if \<not> is_zero v then st\<lparr>errorCount := errorCount st + 1\<rparr> else st)
        | VString s \<Rightarrow> (if \<not> is_zero v then st\<lparr>errorCount := errorCount st + 1\<rparr> else st)
        | _ \<Rightarrow> st)"
| "checkDefaultFields st [] depth = st"
| "checkDefaultFields st ((f, v) # fs) depth =
     checkDefaultFields (checkDefault1 st v (depth + 1)) fs depth"

declare checkDefault1.simps [simp del]

text \<open>
  \<^verbatim>\<open>checkDefault\<close> receives the pointer that \<^verbatim>\<open>Decode\<close> was given; \<open>cur\<close> is the variable it points
  to.
\<close>

definition checkDefault :: "labgob_state \<Rightarrow> gval \<Rightarrow> labgob_state" where
  "checkDefault st cur = checkDefault1 st (VPtr (Some cur)) 1"

definition Encode :: "labgob_state \<Rightarrow> gob_stream \<Rightarrow> gtype \<Rightarrow> gval \<Rightarrow> labgob_state \<times> gob_stream" where
  "Encode st w t v = (checkType st t, gob_Encode w v)"

definition Decode ::
  "labgob_state \<Rightarrow> gob_stream \<Rightarrow> gtype \<Rightarrow> gval \<Rightarrow> labgob_state \<times> (gval \<times> gob_stream) option" where
  "Decode st r t cur = (checkDefault (checkType st (TPtr t)) cur, gob_Decode r t cur)"

text \<open>
  \<^verbatim>\<open>checkValue\<close> takes an \<^verbatim>\<open>interface{}\<close>; the method call on the type of a \<^verbatim>\<open>nil\<close> panics. A reflected value of
  interface kind has its content as \<^verbatim>\<open>Interface()\<close>, every other value itself.
\<close>

definition checkValue :: "labgob_state \<Rightarrow> interface \<Rightarrow> labgob_state result" where
  "checkValue st value = (case value of None \<Rightarrow> Inl NilDereference | Some (t, v) \<Rightarrow> Inr (checkType st t))"

fun Interface :: "gtype \<times> gval \<Rightarrow> interface" where
  "Interface (t, VInterface i) = i"
| "Interface (t, v) = Some (t, v)"

definition EncodeValue :: "labgob_state \<Rightarrow> gob_stream \<Rightarrow> gtype \<times> gval \<Rightarrow> (labgob_state \<times> gob_stream) result" where
  "EncodeValue st w value = bindE (checkValue st (Interface value)) (\<lambda>st. Inr (st, gob_Encode w (snd value)))"

section \<open>Registered types\<close>

text \<open>
  The two tables of \<^verbatim>\<open>encoding/gob\<close>: the type registered under a name, and the name of a type without its
  pointers. Registering is refused with a panic when it contradicts either table. A struct type carries its
  full name.
\<close>

record gob_registry =
  nameToConcreteType :: "string \<rightharpoonup> gtype"
  concreteTypeToName :: "gtype \<rightharpoonup> string"

fun base :: "gtype \<Rightarrow> gtype" where
  "base (TPtr t) = base t"
| "base t = t"

fun type_string :: "gtype \<Rightarrow> string" where
  "type_string TBool = ''bool''"
| "type_string TInt = ''int''"
| "type_string TString = ''string''"
| "type_string (TSlice t) = ''[]'' @ type_string t"
| "type_string (TPtr t) = ''*'' @ type_string t"
| "type_string (TMap k e) = ''map['' @ type_string k @ '']'' @ type_string e"
| "type_string TInterface = ''interface {}''"
| "type_string (TStruct n fs) = n"

definition gob_RegisterName :: "string \<Rightarrow> gtype \<Rightarrow> gob_registry \<Rightarrow> gob_registry result" where
  "gob_RegisterName n t reg =
     (if n = [] then Inl (Panic ''attempt to register empty name'')
      else
        case nameToConcreteType reg n of
          Some t' \<Rightarrow>
            if t' \<noteq> t then Inl (Panic ''gob: registering duplicate types'')
            else (case concreteTypeToName reg (base t) of
                    Some n' \<Rightarrow> if n' \<noteq> n then Inl (Panic ''gob: registering duplicate names'') else Inr reg
                  | None \<Rightarrow> Inr (reg\<lparr>concreteTypeToName := (concreteTypeToName reg)(base t \<mapsto> n)\<rparr>))
        | None \<Rightarrow>
            (case concreteTypeToName reg (base t) of
               Some n' \<Rightarrow>
                 if n' \<noteq> n then Inl (Panic ''gob: registering duplicate names'')
                 else Inr (reg\<lparr>nameToConcreteType := (nameToConcreteType reg)(n \<mapsto> t)\<rparr>)
             | None \<Rightarrow>
                 Inr (reg\<lparr>nameToConcreteType := (nameToConcreteType reg)(n \<mapsto> t),
                          concreteTypeToName := (concreteTypeToName reg)(base t \<mapsto> n)\<rparr>)))"

definition RegisterName ::
  "string \<Rightarrow> interface \<Rightarrow> labgob_state \<Rightarrow> gob_registry \<Rightarrow> (labgob_state \<times> gob_registry) result" where
  "RegisterName n value st reg =
     bindE (checkValue st value) (\<lambda>st.
       bindE (gob_RegisterName n (fst (the value)) reg) (\<lambda>reg. Inr (st, reg)))"

definition Register :: "interface \<Rightarrow> labgob_state \<Rightarrow> gob_registry \<Rightarrow> (labgob_state \<times> gob_registry) result" where
  "Register value st reg =
     bindE (checkValue st value) (\<lambda>st.
       bindE (gob_RegisterName (type_string (fst (the value))) (fst (the value)) reg) (\<lambda>reg. Inr (st, reg)))"

text \<open>The tables agree: a name leads to a type whose pointer-free form has that name, and back.\<close>

definition registry_ok :: "gob_registry \<Rightarrow> bool" where
  "registry_ok reg \<longleftrightarrow>
     (\<forall>n t. nameToConcreteType reg n = Some t \<longrightarrow> concreteTypeToName reg (base t) = Some n) \<and>
     (\<forall>b n. concreteTypeToName reg b = Some n \<longrightarrow> (\<exists>t. nameToConcreteType reg n = Some t \<and> base t = b))"

lemma gob_RegisterName_cases:
  assumes "gob_RegisterName n t reg = Inr reg'" and "registry_ok reg"
  obtains (old) "reg' = reg" "nameToConcreteType reg n = Some t" "concreteTypeToName reg (base t) = Some n"
    | (new) "nameToConcreteType reg n = None" "concreteTypeToName reg (base t) = None"
        "reg' = reg\<lparr>nameToConcreteType := (nameToConcreteType reg)(n \<mapsto> t),
           concreteTypeToName := (concreteTypeToName reg)(base t \<mapsto> n)\<rparr>"
proof (cases "nameToConcreteType reg n")
  case None
  then have "concreteTypeToName reg (base t) \<noteq> Some n" using assms(2) unfolding registry_ok_def by fastforce
  then show thesis
    using assms(1) None by (intro new) (auto simp: gob_RegisterName_def split: if_splits option.splits)
next
  case (Some t')
  then have "concreteTypeToName reg (base t') = Some n" using assms(2) unfolding registry_ok_def by blast
  then show thesis
    using assms(1) Some by (intro old) (auto simp: gob_RegisterName_def split: if_splits)
qed

lemma gob_RegisterName_ok:
  assumes "gob_RegisterName n t reg = Inr reg'" and ok: "registry_ok reg"
  shows "registry_ok reg' \<and> nameToConcreteType reg' n = Some t \<and> concreteTypeToName reg' (base t) = Some n \<and>
    nameToConcreteType reg \<subseteq>\<^sub>m nameToConcreteType reg'"
  using assms
proof (cases rule: gob_RegisterName_cases)
  case old
  then show ?thesis using ok by simp
next
  case new
  have "base t' \<noteq> base t" if "nameToConcreteType reg n' = Some t'" for n' t'
    using that ok new(2) unfolding registry_ok_def by fastforce
  moreover have "n' \<noteq> n" if "concreteTypeToName reg b = Some n'" for b n'
    using that ok new(1) unfolding registry_ok_def by fastforce
  ultimately have "registry_ok reg'" using ok unfolding registry_ok_def new(3) by simp
  then show ?thesis using new by (auto simp: map_le_def)
qed

lemma gob_RegisterName_again:
  assumes "gob_RegisterName n t reg = Inr reg'" and "registry_ok reg"
  shows "gob_RegisterName n t reg' = Inr reg'"
proof -
  have "n \<noteq> []" using assms(1) by (auto simp: gob_RegisterName_def)
  then show ?thesis using gob_RegisterName_ok [OF assms] by (simp add: gob_RegisterName_def)
qed

lemma Register_checks:
  "Register value st reg = Inr (st', reg') \<Longrightarrow> checkValue st value = Inr st'"
  by (auto simp: Register_def bindE_Inr_iff)

section \<open>Transfers preserve values\<close>

text \<open>Types all of whose struct fields are exported, and the values of a type.\<close>

fun exported :: "gtype \<Rightarrow> bool" and exported_fields :: "(string \<times> gtype) list \<Rightarrow> bool" where
  "exported (TSlice t) = exported t"
| "exported (TPtr t) = exported t"
| "exported (TMap k e) = (exported k \<and> exported e)"
| "exported (TStruct n fs) = exported_fields fs"
| "exported _ = True"
| "exported_fields [] = True"
| "exported_fields ((f, t) # fs) = (isUpper f \<and> exported t \<and> exported_fields fs)"

fun has_type :: "gval \<Rightarrow> gtype \<Rightarrow> bool"
  and have_type :: "gval list \<Rightarrow> gtype \<Rightarrow> bool"
  and has_fields :: "(string \<times> gval) list \<Rightarrow> (string \<times> gtype) list \<Rightarrow> bool" where
  "has_type (VBool b) t = (t = TBool)"
| "has_type (VInt i) t = (t = TInt)"
| "has_type (VString s) t = (t = TString)"
| "has_type (VSlice vs) t = (case t of TSlice e \<Rightarrow> have_type vs e | _ \<Rightarrow> False)"
| "has_type (VPtr p) t = False"
| "has_type (VMap m) t = False"
| "has_type (VInterface None) t = (t = TInterface)"
| "has_type (VInterface (Some (d, v))) t = (t = TInterface \<and> exported d \<and> has_type v d)"
| "has_type (VStruct vs) t =
     (case t of TStruct n fs \<Rightarrow> distinct (map fst fs) \<and> has_fields vs fs | _ \<Rightarrow> False)"
| "have_type [] t = True"
| "have_type (v # vs) t = (has_type v t \<and> have_type vs t)"
| "has_fields [] fs = (fs = [])"
| "has_fields ((g, v) # vs) fs =
     (case fs of [] \<Rightarrow> False | (f, t) # fs' \<Rightarrow> g = f \<and> has_type v t \<and> has_fields vs fs')"

lemma zero_value_unique:
  "has_type v t \<Longrightarrow> is_zero v \<Longrightarrow> v = zero t"
  "have_type vs t \<Longrightarrow> True"
  "has_fields fvs fs \<Longrightarrow> zero_all fvs \<Longrightarrow> fvs = zero_fields fs"
  by (induction v t and vs t and fvs fs rule: has_type_have_type_has_fields.induct)
     (auto split: gtype.splits list.splits)

lemma has_fields_names: "has_fields vs fs \<Longrightarrow> map fst vs = map fst fs"
  by (induction vs arbitrary: fs) (auto split: list.splits)

lemma wire_fields_names: "fst ` set (wire_fields vs) \<subseteq> fst ` set vs"
proof (induction vs)
  case (Cons a vs)
  then show ?case by (cases a) auto
qed simp

lemma gob_fields_skip:
  assumes "f \<notin> fst ` set ws"
  shows "gob_fields ((f, t) # fs) ((g, c) # cs) ws = map_option (\<lambda>r. (g, c) # r) (gob_fields fs cs ws)"
  using assms by (cases ws) auto

lemma gob_assign_roundtrip:
  "has_type v t \<Longrightarrow> exported t \<Longrightarrow> gob_assign t (zero t) (wire v) = Some v"
  "have_type vs t \<Longrightarrow> exported t \<Longrightarrow> gob_elems t [] (wires vs) = Some vs"
  "has_fields fvs fs \<Longrightarrow> exported_fields fs \<Longrightarrow> distinct (map fst fs) \<Longrightarrow>
     gob_fields fs (zero_fields fs) (wire_fields fvs) = Some fvs"
proof (induction v t and vs t and fvs fs rule: has_type_have_type_has_fields.induct)
  case (13 g v vs fs)
  then obtain t fs' where fs: "fs = (g, t) # fs'" and ty: "has_type v t" "has_fields vs fs'"
    by (auto split: list.splits)
  have ih: "gob_fields fs' (zero_fields fs') (wire_fields vs) = Some vs"
    using 13 fs ty by auto
  have new: "g \<notin> fst ` set (wire_fields vs)"
    using wire_fields_names [of vs] has_fields_names [OF ty(2)] 13 fs
    by (metis distinct.simps(2) fst_conv list.set_map list.simps(9) subsetD)
  show ?case
  proof (cases "is_zero v")
    case True
    then have "v = zero t" using ty zero_value_unique(1) by blast
    then show ?thesis using fs ih new True by (simp add: gob_fields_skip)
  next
    case False
    have "isUpper g" and "gob_assign t (zero t) (wire v) = Some v"
      using 13 fs ty by auto
    then show ?thesis using fs ih False by simp
  qed
qed (auto simp: gob_assign.simps split: gtype.splits)

lemma has_type_no_ptr:
  assumes "has_type v t"
  shows "indirect v = v" "gob_into t cur w = gob_assign t cur w"
proof -
  show "indirect v = v" using assms by (cases v) auto
  have "\<not> has_type v (TPtr e)" for e by (induction v "TPtr e" rule: has_type_have_type_has_fields.induct(1)) auto
  then show "gob_into t cur w = gob_assign t cur w" using assms by (cases t) auto
qed

text \<open>What is passed to \<^verbatim>\<open>Encode\<close>: a value, or a pointer to one.\<close>

fun passed :: "gval \<Rightarrow> gtype \<Rightarrow> bool" where
  "passed (VPtr (Some v)) (TPtr t) = has_type v t"
| "passed v t = has_type v t"

lemma passed_cases:
  assumes "passed v t"
  obtains (plain) "has_type v t" | (pointer) x e where "v = VPtr (Some x)" "t = TPtr e" "has_type x e"
  using assms by (cases "(v, t)" rule: passed.cases) auto

lemma gob_roundtrip:
  assumes "passed v t" and "exported t"
  shows "gob_Decode (gob_Encode [] v @ r) t (zero t) = Some (v, r)"
  using assms(1)
proof (cases rule: passed_cases)
  case plain
  then show ?thesis using gob_assign_roundtrip(1) [OF plain assms(2)] by (simp add: gob_Decode_def gob_Encode_def has_type_no_ptr)
next
  case (pointer x e)
  then show ?thesis
    using gob_assign_roundtrip(1) [OF pointer(3)] assms(2) by (simp add: gob_Decode_def gob_Encode_def has_type_no_ptr)
qed

lemma passed_type: "has_type v t \<Longrightarrow> passed v t"
  by (cases "(v, t)" rule: passed.cases) auto

section \<open>Decoding keeps types\<close>

text \<open>The values a variable of a type can hold, unexported fields included.\<close>

fun of_type :: "gval \<Rightarrow> gtype \<Rightarrow> bool"
  and of_types :: "gval list \<Rightarrow> gtype \<Rightarrow> bool"
  and of_fields :: "(string \<times> gval) list \<Rightarrow> (string \<times> gtype) list \<Rightarrow> bool" where
  "of_type (VBool b) t = (t = TBool)"
| "of_type (VInt i) t = (t = TInt)"
| "of_type (VString s) t = (t = TString)"
| "of_type (VSlice vs) t = (case t of TSlice e \<Rightarrow> of_types vs e | _ \<Rightarrow> False)"
| "of_type (VPtr None) t = (case t of TPtr e \<Rightarrow> True | _ \<Rightarrow> False)"
| "of_type (VPtr (Some v)) t = (case t of TPtr e \<Rightarrow> of_type v e | _ \<Rightarrow> False)"
| "of_type (VMap m) t = (case t of TMap k e \<Rightarrow> True | _ \<Rightarrow> False)"
| "of_type (VInterface None) t = (t = TInterface)"
| "of_type (VInterface (Some (d, v))) t = (t = TInterface \<and> of_type v d)"
| "of_type (VStruct vs) t = (case t of TStruct n fs \<Rightarrow> of_fields vs fs | _ \<Rightarrow> False)"
| "of_types [] t = True"
| "of_types (v # vs) t = (of_type v t \<and> of_types vs t)"
| "of_fields [] fs = (fs = [])"
| "of_fields ((g, v) # vs) fs =
     (case fs of [] \<Rightarrow> False | (f, t) # fs' \<Rightarrow> g = f \<and> of_type v t \<and> of_fields vs fs')"

lemma zero_of_type: "of_type (zero t) t" "of_fields (zero_fields fs) fs"
  by (induction t and fs rule: zero_zero_fields.induct) simp_all

lemma of_type_slice: "of_type v (TSlice e) \<Longrightarrow> \<exists>vs. v = VSlice vs \<and> of_types vs e"
  by (induction v "TSlice e" rule: of_type_of_types_of_fields.induct(1)) auto

lemma of_type_struct: "of_type v (TStruct n fs) \<Longrightarrow> \<exists>vs. v = VStruct vs \<and> of_fields vs fs"
  by (induction v "TStruct n fs" rule: of_type_of_types_of_fields.induct(1)) auto

lemma gob_assign_cases:
  assumes "gob_assign t cur w = Some v"
  obtains (basic) "of_type v t"
    | (slice) e ws vs where "t = TSlice e" "w = VSlice ws" "v = VSlice vs"
        "gob_elems e (case cur of VSlice cs \<Rightarrow> cs | _ \<Rightarrow> []) ws = Some vs"
    | (interface) d x y where "t = TInterface" "w = VInterface (Some (d, x))" "v = VInterface (Some (d, y))"
        "gob_assign d (zero d) x = Some y"
    | (struct) n fs ws vs where "t = TStruct n fs" "w = VStruct ws" "v = VStruct vs"
        "gob_fields fs (case cur of VStruct cs \<Rightarrow> cs | _ \<Rightarrow> []) ws = Some vs"
  using assms by (subst (asm) gob_assign.simps) (auto split: gtype.splits gval.splits option.splits)

lemma gob_assign_of_type:
  "gob_assign t cur w = Some v \<Longrightarrow> of_type cur t \<Longrightarrow> of_type v t"
  "gob_elems t cs ws = Some vs \<Longrightarrow> of_types cs t \<Longrightarrow> of_types vs t"
  "gob_fields fs fcs fws = Some fvs \<Longrightarrow> of_fields fcs fs \<Longrightarrow> of_fields fvs fs"
proof (induction t cur w and t cs ws and fs fcs fws arbitrary: v and vs and fvs rule: gob_assign_gob_elems_gob_fields.induct)
  case (1 t cur w)
  from 1(4) show ?case
  proof (cases rule: gob_assign_cases)
    case (slice e ws vs)
    then show ?thesis using 1(1) [OF slice(1,2)] 1(5) of_type_slice [of cur e] by auto
  next
    case (interface d x y)
    then show ?thesis using 1(2) [OF interface(1,2)] zero_of_type(1) by auto
  next
    case (struct n fs ws vs)
    then show ?thesis using 1(3) [OF struct(1,2)] 1(5) of_type_struct [of cur n fs] by auto
  qed
qed (auto simp: zero_of_type split: option.splits list.splits if_splits)

lemma of_type_ptr: "of_type v (TPtr e) \<Longrightarrow> v = VPtr None \<or> (\<exists>x. v = VPtr (Some x) \<and> of_type x e)"
  by (induction v "TPtr e" rule: of_type_of_types_of_fields.induct(1)) auto

lemma gob_into_of_type: "gob_into t cur w = Some v \<Longrightarrow> of_type cur t \<Longrightarrow> of_type v t"
proof (induction t cur w arbitrary: v rule: gob_into.induct)
  case (1 t cur w)
  then show ?case using of_type_ptr [of cur t] zero_of_type(1) by auto
qed (use gob_assign_of_type(1) in auto)

section \<open>The type check counts exactly the unexported fields\<close>

fun tsize :: "gtype \<Rightarrow> nat" and fsize :: "(string \<times> gtype) list \<Rightarrow> nat" where
  "tsize (TSlice t) = Suc (tsize t)"
| "tsize (TPtr t) = Suc (tsize t)"
| "tsize (TMap k e) = Suc (tsize k + tsize e)"
| "tsize (TStruct n fs) = Suc (fsize fs)"
| "tsize _ = 1"
| "fsize [] = 0"
| "fsize ((f, t) # fs) = tsize t + fsize fs"

lemma checkType_seen [simp]: "t \<in> set (checked st) \<Longrightarrow> checkType st t = st"
  by (simp add: checkType.simps)

lemma checkType_eqs:
  "checkType st (TSlice e) = (if TSlice e \<in> set (checked st) then st
     else checkType (st\<lparr>checked := TSlice e # checked st\<rparr>) e)"
  "checkType st (TPtr e) = (if TPtr e \<in> set (checked st) then st
     else checkType (st\<lparr>checked := TPtr e # checked st\<rparr>) e)"
  "checkType st (TMap k e) = (if TMap k e \<in> set (checked st) then st
     else checkType (checkType (st\<lparr>checked := TMap k e # checked st\<rparr>) e) k)"
  "checkType st (TStruct n fs) = (if TStruct n fs \<in> set (checked st) then st
     else checkFields (st\<lparr>checked := TStruct n fs # checked st\<rparr>) fs)"
  "checkType st TBool = (if TBool \<in> set (checked st) then st
     else st\<lparr>checked := TBool # checked st\<rparr>)"
  "checkType st TInt = (if TInt \<in> set (checked st) then st
     else st\<lparr>checked := TInt # checked st\<rparr>)"
  "checkType st TString = (if TString \<in> set (checked st) then st
     else st\<lparr>checked := TString # checked st\<rparr>)"
  "checkType st TInterface = (if TInterface \<in> set (checked st) then st
     else st\<lparr>checked := TInterface # checked st\<rparr>)"
  by (subst checkType.simps, simp)+

lemma checkType_ge:
  "n \<le> errorCount st \<Longrightarrow> n \<le> errorCount (checkType st t)"
  "n \<le> errorCount st \<Longrightarrow> n \<le> errorCount (checkFields st fs)"
  by (induction t and fs arbitrary: st and st rule: exported_exported_fields.induct)
     (auto simp: checkType_eqs Let_def)

lemmas checkType_mono = checkType_ge [OF order_refl]

lemma checkType_exported_count:
  "exported t \<Longrightarrow> errorCount (checkType st t) = errorCount st"
  "exported_fields fs \<Longrightarrow> errorCount (checkFields st fs) = errorCount st"
  by (induction t and fs arbitrary: st and st rule: exported_exported_fields.induct)
     (auto simp: checkType_eqs Let_def)

lemma checkType_exported_checked:
  "exported t \<Longrightarrow> c \<in> set (checked (checkType st t)) \<Longrightarrow> c \<in> set (checked st) \<or> exported c"
  "exported_fields fs \<Longrightarrow> c \<in> set (checked (checkFields st fs)) \<Longrightarrow>
     c \<in> set (checked st) \<or> exported c"
proof (induction t and fs arbitrary: st and st rule: exported_exported_fields.induct)
  case (3 k e)
  let ?st = "st\<lparr>checked := TMap k e # checked st\<rparr>"
  have "c \<in> set (checked st) \<or> c \<in> set (checked (checkType (checkType ?st e) k))"
    using 3(4) by (auto simp: checkType_eqs split: if_splits)
  then have "c \<in> set (checked st) \<or> exported c \<or> c \<in> set (checked ?st)"
    using 3(1) [of "checkType ?st e"] 3(2) [of ?st] 3(3) by (simp only: exported.simps) blast
  then show ?case using 3(3) by auto
next
  case (7 f t fs)
  let ?st = "if \<not> isUpper f then st\<lparr>errorCount := errorCount st + 1\<rparr> else st"
  have "c \<in> set (checked (checkFields (checkType ?st t) fs))"
    using 7(4) by (simp add: Let_def)
  then have "c \<in> set (checked ?st) \<or> exported c"
    using 7(1) [of ?st] 7(2) [of "checkType ?st t"] 7(3) by (simp only: exported_fields.simps) blast
  then show ?case by (simp split: if_splits)
next
  case (1 e)
  then show ?case using 1(1) [of "st\<lparr>checked := TSlice e # checked st\<rparr>"]
    by (auto simp: checkType_eqs split: if_splits)
next
  case (2 e)
  then show ?case using 2(1) [of "st\<lparr>checked := TPtr e # checked st\<rparr>"]
    by (auto simp: checkType_eqs split: if_splits)
next
  case (4 n fs)
  then show ?case using 4(1) [of "st\<lparr>checked := TStruct n fs # checked st\<rparr>"]
    by (auto simp: checkType_eqs split: if_splits)
qed (auto simp: checkType_eqs split: if_splits)

lemma checkType_unexported:
  "\<not> exported t \<Longrightarrow> \<forall>c \<in> set (checked st). exported c \<or> tsize t < tsize c \<Longrightarrow>
     errorCount st < errorCount (checkType st t)"
  "\<not> exported_fields fs \<Longrightarrow> \<forall>c \<in> set (checked st). exported c \<or> fsize fs < tsize c \<Longrightarrow>
     errorCount st < errorCount (checkFields st fs)"
proof (induction t and fs arbitrary: st and st rule: exported_exported_fields.induct)
  case (1 e)
  let ?st = "st\<lparr>checked := TSlice e # checked st\<rparr>"
  have "errorCount ?st < errorCount (checkType ?st e)"
    using 1(2,3) by (intro 1(1)) auto
  moreover have "TSlice e \<notin> set (checked st)" using 1(2,3) by auto
  ultimately show ?case by (simp add: checkType_eqs)
next
  case (2 e)
  let ?st = "st\<lparr>checked := TPtr e # checked st\<rparr>"
  have "errorCount ?st < errorCount (checkType ?st e)"
    using 2(2,3) by (intro 2(1)) auto
  moreover have "TPtr e \<notin> set (checked st)" using 2(2,3) by auto
  ultimately show ?case by (simp add: checkType_eqs)
next
  case (3 k e)
  let ?st = "st\<lparr>checked := TMap k e # checked st\<rparr>"
  have new: "TMap k e \<notin> set (checked st)" using 3(3,4) by auto
  have "errorCount ?st < errorCount (checkType (checkType ?st e) k)"
  proof (cases "exported e")
    case True
    have "\<forall>c \<in> set (checked (checkType ?st e)). exported c \<or> tsize k < tsize c"
      using checkType_exported_checked(1) [OF True, of _ ?st] 3(4) by fastforce
    then have "errorCount (checkType ?st e) < errorCount (checkType (checkType ?st e) k)"
      using 3(3) True by (intro 3(1)) auto
    then show ?thesis using checkType_mono(1) [of ?st e] by linarith
  next
    case False
    have "errorCount ?st < errorCount (checkType ?st e)"
      using 3(4) False by (intro 3(2)) auto
    then show ?thesis using checkType_mono(1) [of "checkType ?st e" k] by linarith
  qed
  then show ?case using new by (simp add: checkType_eqs)
next
  case (4 n fs)
  let ?st = "st\<lparr>checked := TStruct n fs # checked st\<rparr>"
  have "errorCount ?st < errorCount (checkFields ?st fs)"
    using 4(2,3) by (intro 4(1)) auto
  moreover have "TStruct n fs \<notin> set (checked st)" using 4(2,3) by auto
  ultimately show ?case by (simp add: checkType_eqs)
next
  case (7 f t fs)
  let ?st = "if \<not> isUpper f then st\<lparr>errorCount := errorCount st + 1\<rparr> else st"
  have same: "checked ?st = checked st" and ge: "errorCount st \<le> errorCount ?st" by auto
  have m: "errorCount ?st \<le> errorCount (checkType ?st t)"
    "errorCount (checkType ?st t) \<le> errorCount (checkFields (checkType ?st t) fs)"
    by (rule checkType_mono)+
  consider (low) "\<not> isUpper f" | (ty) "\<not> exported t" | (rest) "exported t" "\<not> exported_fields fs"
    using 7(3) by auto
  then have "errorCount st < errorCount (checkFields (checkType ?st t) fs)"
  proof cases
    case low
    then have "errorCount st < errorCount ?st" by simp
    then show ?thesis using m by linarith
  next
    case ty
    then have "errorCount ?st < errorCount (checkType ?st t)"
      using 7(4) same by (intro 7(1)) auto
    then show ?thesis using ge m by linarith
  next
    case rest
    have "\<forall>c \<in> set (checked (checkType ?st t)). exported c \<or> fsize fs < tsize c"
      using checkType_exported_checked(1) [OF rest(1), of _ ?st] 7(4) same by fastforce
    then have "errorCount (checkType ?st t) < errorCount (checkFields (checkType ?st t) fs)"
      using 7(2) rest(2) by blast
    then show ?thesis using ge m by linarith
  qed
  then show ?case by (simp add: Let_def)
qed auto

lemma checkDefault1_eqs:
  "checkDefault1 st (VBool b) d = (if d > 3 \<or> \<not> b then st else st\<lparr>errorCount := errorCount st + 1\<rparr>)"
  "checkDefault1 st (VInt i) d = (if d > 3 \<or> i = 0 then st else st\<lparr>errorCount := errorCount st + 1\<rparr>)"
  "checkDefault1 st (VString s) d =
     (if d > 3 \<or> s = [] then st else st\<lparr>errorCount := errorCount st + 1\<rparr>)"
  "checkDefault1 st (VSlice vs) d = st"
  "checkDefault1 st (VMap m) d = st"
  "checkDefault1 st (VInterface x) d = st"
  "checkDefault1 st (VPtr None) d = st"
  "checkDefault1 st (VPtr (Some v)) d = (if d > 3 then st else checkDefault1 st v (d + 1))"
  "checkDefault1 st (VStruct fs) d = (if d > 3 then st else checkDefaultFields st fs d)"
  by (subst checkDefault1.simps, simp)+

lemma zero_no_warning:
  "checkDefault1 st (zero t) d = st"
  "checkDefaultFields st (zero_fields fs) d = st"
  by (induction t and fs arbitrary: st d and st d rule: zero_zero_fields.induct)
     (auto simp: checkDefault1_eqs)

lemma checkDefault_zero: "checkDefault st (zero t) = st"
  by (simp add: checkDefault_def checkDefault1_eqs zero_no_warning)

section \<open>Properties\<close>

text \<open>
  C30. Starting from a fresh process, the type check of \<^verbatim>\<open>labgob\<close> counts an error exactly when some
  struct field reachable in the type (through slices, pointers, maps and structs) is not exported;
  the cache of checked types hides no error.
\<close>

theorem checkType_complete: "errorCount (checkType labgob_init t) = 0 \<longleftrightarrow> exported t"
proof (cases "exported t")
  case True
  then show ?thesis using checkType_exported_count(1) [OF True, of labgob_init] by (simp add: labgob_init_def)
next
  case False
  then have "errorCount labgob_init < errorCount (checkType labgob_init t)"
    by (intro checkType_unexported) (simp_all add: labgob_init_def)
  then show ?thesis using False by (simp add: labgob_init_def)
qed




end
