(* ===== verification/Persister.thy ===== *)
theory Persister
  imports Prelude
begin

text \<open>
  Stable storage (\<^verbatim>\<open>src/src/raft/persister.go\<close>): the saved Raft state and the saved snapshot, as
  byte slices. The type of the bytes is a parameter, since the persister never looks at them.
  Every method runs under the persister's own mutex, so each is one atomic operation.

  The locale \<open>stable_storage\<close> is what Raft and the test harness expect of such a store: a read
  returns the last write, and a copy is independent of the original.
\<close>

record 'b Persister =
  raftstate :: "'b list"
  snapshot :: "'b list"

definition MakePersister :: "'b Persister" where
  "MakePersister = \<lparr>raftstate = [], snapshot = []\<rparr>"

definition Copy :: "'b Persister \<Rightarrow> 'b Persister" where
  "Copy ps = MakePersister\<lparr>raftstate := raftstate ps, snapshot := snapshot ps\<rparr>"

definition SaveRaftState :: "'b Persister \<Rightarrow> 'b list \<Rightarrow> 'b Persister" where
  "SaveRaftState ps st = ps\<lparr>raftstate := st\<rparr>"

definition ReadRaftState :: "'b Persister \<Rightarrow> 'b list" where
  "ReadRaftState ps = raftstate ps"

definition RaftStateSize :: "'b Persister \<Rightarrow> int" where
  "RaftStateSize ps = len (raftstate ps)"

definition SaveStateAndSnapshot :: "'b Persister \<Rightarrow> 'b list \<Rightarrow> 'b list \<Rightarrow> 'b Persister" where
  "SaveStateAndSnapshot ps st sn = ps\<lparr>raftstate := st, snapshot := sn\<rparr>"

definition ReadSnapshot :: "'b Persister \<Rightarrow> 'b list" where
  "ReadSnapshot ps = snapshot ps"

definition SnapshotSize :: "'b Persister \<Rightarrow> int" where
  "SnapshotSize ps = len (snapshot ps)"

lemmas persister_defs =
  MakePersister_def Copy_def SaveRaftState_def ReadRaftState_def RaftStateSize_def
  SaveStateAndSnapshot_def ReadSnapshot_def SnapshotSize_def

locale stable_storage =
  fixes fresh :: 's and copy :: "'s \<Rightarrow> 's" and save :: "'s \<Rightarrow> 'd \<Rightarrow> 's" and read :: "'s \<Rightarrow> 'd"
    and blank :: 'd
  assumes read_fresh: "read fresh = blank"
    and read_save: "read (save s d) = d"
    and read_copy: "read (copy s) = read s"
begin

text \<open>What survives a sequence of writes, across any number of copies, is the last write.\<close>

lemma read_foldl_save: "read (foldl save s (ds @ [d])) = d"
  by (simp add: read_save)

lemma read_copy_save: "read (copy (save (copy s) d)) = d"
  by (simp add: read_save read_copy)

end

interpretation raft_store: stable_storage MakePersister Copy SaveRaftState ReadRaftState "[]"
  by unfold_locales (simp_all add: persister_defs)

text \<open>The snapshot is not touched by saving the Raft state, and both are saved together.\<close>

lemma persister_laws [simp]:
  "ReadRaftState (SaveRaftState ps d) = d"
  "ReadRaftState (Copy ps) = ReadRaftState ps"
  "ReadSnapshot (Copy ps) = ReadSnapshot ps"
  "ReadSnapshot (SaveRaftState ps d) = ReadSnapshot ps"
  "ReadRaftState (SaveStateAndSnapshot ps d sn) = d"
  "ReadSnapshot (SaveStateAndSnapshot ps d sn) = sn"
  "ReadRaftState MakePersister = []"
  by (simp_all add: persister_defs)

end
