(* ===== verification/Raft_State.thy ===== *)
theory Raft_State
  imports Labgob Persister
begin

text \<open>
  The state of one Raft peer (\<^verbatim>\<open>src/src/raft/raft.go\<close>) and the operations every handler uses:
  \<open>GetState\<close>, \<open>switchTo\<close>, \<open>resetElectionTimer\<close>, \<open>persist\<close>, \<open>readPersist\<close> and \<open>Make\<close>.

  The record \<open>Raft\<close> has the fields of the struct. Its mutex has none: the code of a handler
  between a \<^verbatim>\<open>Lock\<close> and the matching \<^verbatim>\<open>Unlock\<close> is one function here. A condition variable is the
  number of broadcasts it has received (a waiter is woken when the number grows), the apply
  channel the list of messages sent on it, the RPC end points are represented by their names.
  The clock and the random source are inputs: a \<open>tick\<close> is the pair of the value
  \<^verbatim>\<open>time.Now().UnixNano()\<close> returns and the raw number \<^verbatim>\<open>rand.Intn\<close> draws from.

  The locale \<open>durable\<close> is the contract between the handlers and the crash-recovery code: every
  handler leaves the saved state equal to the fields it saves. \<open>Make\<close> then restores them.
\<close>

named_theorems raft_defs \<open>the definitions of the Raft operations\<close>

section \<open>Data\<close>

record LogEntry =
  Command :: interface
  Term :: int

record ApplyMsg =
  CommandValid :: bool
  Command_msg :: interface
  CommandIndex :: int

datatype server_state = Follower | Candidate | Leader

type_synonym tick = "int \<times> int"

record Raft =
  peers :: "string list"
  persister :: "gval Persister"
  me :: int
  applyCh :: "ApplyMsg list"
  state :: server_state
  leaderId :: int
  applyCond :: nat
  leaderCond :: nat
  nonLeaderCond :: nat
  electionTimeout :: int
  heartbeatPeriod :: int
  latestIssueTime :: int
  latestHeardTime :: int
  CurrentTerm :: int
  VoteFor :: int
  Log :: "LogEntry list"
  commitIndex :: int
  lastApplied :: int
  nextIndex :: "int list"
  matchIndex :: "int list"

record AppendEntriesArgs =
  ae_Term :: int
  LeaderId :: int
  PrevLogIndex :: int
  PrevLogTerm :: int
  Entries :: "LogEntry list"
  LeaderCommit :: int

record AppendEntriesReply =
  aer_Term :: int
  ConflictTerm :: int
  ConflictFirstIndex :: int
  Success :: bool

record RequestVoteArgs =
  rv_Term :: int
  CandidateId :: int
  LastLogIndex :: int
  LastLogTerm :: int

record RequestVoteReply =
  rvr_Term :: int
  VoteGranted :: bool

section \<open>Operations\<close>

definition GetState :: "Raft \<Rightarrow> int \<times> bool" where
  "GetState rf = (CurrentTerm rf, state rf = Leader)"

fun state2name :: "server_state \<Rightarrow> string" where
  "state2name Follower = ''Follower''"
| "state2name Candidate = ''Candidate''"
| "state2name Leader = ''Leader''"

definition switchTo :: "server_state \<Rightarrow> Raft \<Rightarrow> Raft" where
  "switchTo newState rf =
     (let oldState = state rf; rf = rf\<lparr>state := newState\<rparr> in
      if oldState = Leader \<and> newState = Follower then rf\<lparr>nonLeaderCond := nonLeaderCond rf + 1\<rparr>
      else if oldState = Candidate \<and> newState = Leader then rf\<lparr>leaderCond := leaderCond rf + 1\<rparr>
      else rf)"

definition Intn :: "int \<Rightarrow> int \<Rightarrow> int" where
  "Intn raw n = raw mod n"

definition resetElectionTimer :: "tick \<Rightarrow> Raft \<Rightarrow> Raft" where
  "resetElectionTimer t rf =
     rf\<lparr>electionTimeout := heartbeatPeriod rf * 5 + Intn (snd t) (300 - 150),
        latestHeardTime := fst t\<rparr>"

subsection \<open>Persistence\<close>

definition LogEntry_type :: gtype where
  "LogEntry_type = TStruct ''LogEntry'' [(''Command'', TInterface), (''Term'', TInt)]"

definition entry_val :: "LogEntry \<Rightarrow> gval" where
  "entry_val e = VStruct [(''Command'', VInterface (Command e)), (''Term'', VInt (Term e))]"

fun val_entry :: "gval \<Rightarrow> LogEntry option" where
  "val_entry (VStruct [(_, VInterface c), (_, VInt t)]) = Some \<lparr>Command = c, Term = t\<rparr>"
| "val_entry _ = None"

definition persistData :: "Raft \<Rightarrow> gob_stream" where
  "persistData rf =
     (let w = [];
          w = gob_Encode w (VInt (CurrentTerm rf));
          w = gob_Encode w (VInt (VoteFor rf));
          w = gob_Encode w (VSlice (map entry_val (Log rf)))
      in w)"

definition persist :: "Raft \<Rightarrow> Raft" where
  "persist rf = rf\<lparr>persister := SaveRaftState (persister rf) (persistData rf)\<rparr>"

text \<open>The three decoded variables are fresh, so they hold the zero value of their type.\<close>

definition decode_int :: "gob_stream \<Rightarrow> (int \<times> gob_stream) option" where
  "decode_int r =
     (case gob_Decode r TInt (zero TInt) of
        Some (VInt i, r') \<Rightarrow> Some (i, r') | _ \<Rightarrow> None)"

definition decode_log :: "gob_stream \<Rightarrow> (LogEntry list \<times> gob_stream) option" where
  "decode_log r =
     (case gob_Decode r (TSlice LogEntry_type) (zero (TSlice LogEntry_type)) of
        Some (VSlice vs, r') \<Rightarrow> map_option (\<lambda>es. (es, r')) (those (map val_entry vs))
      | _ \<Rightarrow> None)"

definition readPersist :: "gob_stream \<Rightarrow> Raft \<Rightarrow> Raft result" where
  "readPersist data rf =
     (if data = [] then Inr rf
      else
        (case decode_int data of
           None \<Rightarrow> Inl (Fatal ''[readPersist]: decode error!'')
         | Some (currentTerm, r) \<Rightarrow>
             (case decode_int r of
                None \<Rightarrow> Inl (Fatal ''[readPersist]: decode error!'')
              | Some (voteFor, r) \<Rightarrow>
                  (case decode_log r of
                     None \<Rightarrow> Inl (Fatal ''[readPersist]: decode error!'')
                   | Some (logs, r) \<Rightarrow>
                       Inr (rf\<lparr>CurrentTerm := currentTerm, VoteFor := voteFor, Log := logs\<rparr>)))))"

definition Make :: "string list \<Rightarrow> int \<Rightarrow> gval Persister \<Rightarrow> tick \<Rightarrow> Raft result" where
  "Make ps self pers t =
     (let rf = \<lparr>peers = ps, persister = pers, me = self, applyCh = [], state = Follower,
                leaderId = -1, applyCond = 0, leaderCond = 0, nonLeaderCond = 0,
                electionTimeout = 0, heartbeatPeriod = 120, latestIssueTime = 0,
                latestHeardTime = 0, CurrentTerm = 0, VoteFor = -1, Log = [],
                commitIndex = 0, lastApplied = 0, nextIndex = [], matchIndex = []\<rparr>;
          rf = resetElectionTimer t rf;
          rf = rf\<lparr>Log := Log rf @ [\<lparr>Command = None, Term = 0\<rparr>]\<rparr>;
          size = length (peers rf);
          rf = rf\<lparr>nextIndex := replicate size 0, matchIndex := replicate size 0\<rparr>
      in readPersist (ReadRaftState pers) rf)"

definition Kill :: "Raft \<Rightarrow> Raft" where
  "Kill rf = rf"

lemmas [raft_defs] = GetState_def switchTo_def resetElectionTimer_def persist_def

section \<open>Frame of the shared operations\<close>

lemma switchTo_sel [simp]:
  "state (switchTo s rf) = s"
  "CurrentTerm (switchTo s rf) = CurrentTerm rf" "VoteFor (switchTo s rf) = VoteFor rf"
  "Log (switchTo s rf) = Log rf" "persister (switchTo s rf) = persister rf"
  "me (switchTo s rf) = me rf" "peers (switchTo s rf) = peers rf"
  "commitIndex (switchTo s rf) = commitIndex rf" "lastApplied (switchTo s rf) = lastApplied rf"
  "nextIndex (switchTo s rf) = nextIndex rf" "matchIndex (switchTo s rf) = matchIndex rf"
  "applyCh (switchTo s rf) = applyCh rf" "applyCond (switchTo s rf) = applyCond rf"
  "heartbeatPeriod (switchTo s rf) = heartbeatPeriod rf" "leaderId (switchTo s rf) = leaderId rf"
  "electionTimeout (switchTo s rf) = electionTimeout rf"
  "latestHeardTime (switchTo s rf) = latestHeardTime rf"
  "latestIssueTime (switchTo s rf) = latestIssueTime rf"
  by (simp_all add: switchTo_def Let_def)

lemma resetElectionTimer_sel [simp]:
  "state (resetElectionTimer t rf) = state rf"
  "CurrentTerm (resetElectionTimer t rf) = CurrentTerm rf"
  "VoteFor (resetElectionTimer t rf) = VoteFor rf"
  "Log (resetElectionTimer t rf) = Log rf" "persister (resetElectionTimer t rf) = persister rf"
  "me (resetElectionTimer t rf) = me rf" "peers (resetElectionTimer t rf) = peers rf"
  "commitIndex (resetElectionTimer t rf) = commitIndex rf"
  "lastApplied (resetElectionTimer t rf) = lastApplied rf"
  "nextIndex (resetElectionTimer t rf) = nextIndex rf"
  "matchIndex (resetElectionTimer t rf) = matchIndex rf"
  "applyCh (resetElectionTimer t rf) = applyCh rf"
  "applyCond (resetElectionTimer t rf) = applyCond rf"
  "leaderCond (resetElectionTimer t rf) = leaderCond rf"
  "nonLeaderCond (resetElectionTimer t rf) = nonLeaderCond rf"
  "heartbeatPeriod (resetElectionTimer t rf) = heartbeatPeriod rf"
  "leaderId (resetElectionTimer t rf) = leaderId rf"
  "latestIssueTime (resetElectionTimer t rf) = latestIssueTime rf"
  by (simp_all add: resetElectionTimer_def)

lemma persist_sel [simp]:
  "state (persist rf) = state rf" "CurrentTerm (persist rf) = CurrentTerm rf"
  "VoteFor (persist rf) = VoteFor rf" "Log (persist rf) = Log rf"
  "me (persist rf) = me rf" "peers (persist rf) = peers rf"
  "commitIndex (persist rf) = commitIndex rf" "lastApplied (persist rf) = lastApplied rf"
  "nextIndex (persist rf) = nextIndex rf" "matchIndex (persist rf) = matchIndex rf"
  "applyCh (persist rf) = applyCh rf" "applyCond (persist rf) = applyCond rf"
  "leaderCond (persist rf) = leaderCond rf" "nonLeaderCond (persist rf) = nonLeaderCond rf"
  "heartbeatPeriod (persist rf) = heartbeatPeriod rf" "leaderId (persist rf) = leaderId rf"
  "electionTimeout (persist rf) = electionTimeout rf"
  "latestHeardTime (persist rf) = latestHeardTime rf"
  "latestIssueTime (persist rf) = latestIssueTime rf"
  by (simp_all add: persist_def)

section \<open>What is on stable storage\<close>

text \<open>
  Commands that gob can transfer. The three persistent fields are \<^emph>\<open>saved\<close> when the persister
  holds their encoding, or holds nothing yet and the fields are those of a first boot.
\<close>

definition sendable :: "interface \<Rightarrow> bool" where
  "sendable c \<longleftrightarrow> has_type (VInterface c) TInterface"

definition sendable_log :: "LogEntry list \<Rightarrow> bool" where
  "sendable_log es \<longleftrightarrow> (\<forall>e \<in> set es. sendable (Command e))"

definition saved :: "Raft \<Rightarrow> bool" where
  "saved rf \<longleftrightarrow>
     ReadRaftState (persister rf) = persistData rf \<or>
     ReadRaftState (persister rf) = [] \<and> CurrentTerm rf = 0 \<and> VoteFor rf = -1 \<and>
       Log rf = [\<lparr>Command = None, Term = 0\<rparr>]"

lemma sendable_None [simp]: "sendable None"
  by (simp add: sendable_def)

lemma sendable_int [simp]: "sendable (Some (TInt, VInt i))"
  by (simp add: sendable_def)

lemma sendable_log_simps [simp]:
  "sendable_log []" "sendable_log (e # es) \<longleftrightarrow> sendable (Command e) \<and> sendable_log es"
  "sendable_log (xs @ ys) \<longleftrightarrow> sendable_log xs \<and> sendable_log ys"
  by (auto simp: sendable_log_def)

lemma sendable_log_take: "sendable_log es \<Longrightarrow> sendable_log (take n es)"
  by (auto simp: sendable_log_def dest: in_set_takeD)

lemma sendable_log_drop: "sendable_log es \<Longrightarrow> sendable_log (drop n es)"
  by (auto simp: sendable_log_def dest: in_set_dropD)

lemma saved_persist [simp]: "saved (persist rf)"
  by (simp add: saved_def persist_def persistData_def)

lemma saved_cong:
  "persister rf' = persister rf \<Longrightarrow> CurrentTerm rf' = CurrentTerm rf \<Longrightarrow>
   VoteFor rf' = VoteFor rf \<Longrightarrow> Log rf' = Log rf \<Longrightarrow> saved rf' = saved rf"
  by (simp add: saved_def persistData_def)

lemma saved_frame [simp]:
  "saved (switchTo s rf) = saved rf" "saved (resetElectionTimer t rf) = saved rf"
  "saved (rf\<lparr>commitIndex := c\<rparr>) = saved rf" "saved (rf\<lparr>applyCond := ac\<rparr>) = saved rf"
  "saved (rf\<lparr>leaderId := l\<rparr>) = saved rf" "saved (rf\<lparr>nextIndex := ni\<rparr>) = saved rf"
  "saved (rf\<lparr>matchIndex := mi\<rparr>) = saved rf" "saved (rf\<lparr>lastApplied := la\<rparr>) = saved rf"
  "saved (rf\<lparr>applyCh := ch\<rparr>) = saved rf" "saved (rf\<lparr>latestIssueTime := li\<rparr>) = saved rf"
  by (rule saved_cong; simp)+

lemma decode_int_gob: "decode_int (wire (VInt i) # r) = Some (i, r)"
  using gob_roundtrip [of "VInt i" TInt r]
  by (simp add: decode_int_def gob_Encode_def)

lemma entry_val_type: "sendable (Command e) \<Longrightarrow> has_type (entry_val e) LogEntry_type"
  by (simp add: sendable_def entry_val_def LogEntry_type_def)

lemma log_val_type: "sendable_log es \<Longrightarrow> have_type (map entry_val es) LogEntry_type"
  by (induction es) (auto simp: entry_val_type)

lemma those_val_entry: "those (map val_entry (map entry_val es)) = Some es"
  by (induction es) (auto simp: entry_val_def)

lemma decode_log_gob:
  assumes "sendable_log es"
  shows "decode_log (wire (VSlice (map entry_val es)) # r) = Some (es, r)"
proof -
  have "has_type (VSlice (map entry_val es)) (TSlice LogEntry_type)"
    using log_val_type [OF assms] by simp
  moreover have "exported (TSlice LogEntry_type)" by (simp add: LogEntry_type_def)
  ultimately have "gob_Decode (wire (VSlice (map entry_val es)) # r) (TSlice LogEntry_type)
      (zero (TSlice LogEntry_type)) = Some (VSlice (map entry_val es), r)"
    using gob_roundtrip [of "VSlice (map entry_val es)" "TSlice LogEntry_type" r]
    by (simp add: gob_Encode_def)
  then show ?thesis using those_val_entry [of es] by (simp add: decode_log_def)
qed

lemma readPersist_persistData:
  assumes "sendable_log (Log rf)"
  shows "readPersist (persistData rf) rf0 =
    Inr (rf0\<lparr>CurrentTerm := CurrentTerm rf, VoteFor := VoteFor rf, Log := Log rf\<rparr>)"
  using assms
  by (simp add: readPersist_def persistData_def gob_Encode_def decode_int_gob decode_log_gob
      del: wire.simps)

section \<open>The contract of an operation on a peer\<close>

text \<open>
  Every critical section of a peer keeps its persistent state on stable storage, never goes back
  to an earlier term and never changes a vote cast in the current term. A sequence of such
  operations, in any order, then has the same properties.
\<close>

definition peer_step :: "Raft \<Rightarrow> Raft \<Rightarrow> bool" where
  "peer_step rf rf' \<longleftrightarrow>
     (saved rf \<longrightarrow> saved rf') \<and> CurrentTerm rf \<le> CurrentTerm rf' \<and>
     (CurrentTerm rf' = CurrentTerm rf \<longrightarrow> VoteFor rf \<noteq> -1 \<longrightarrow> VoteFor rf' = VoteFor rf) \<and>
     me rf' = me rf \<and> length (peers rf') = length (peers rf)"

lemma peer_step_refl [simp]: "peer_step rf rf"
  by (simp add: peer_step_def)

lemma peer_step_trans: "peer_step a b \<Longrightarrow> peer_step b c \<Longrightarrow> peer_step a c"
  unfolding peer_step_def by (metis order_antisym order_trans)

fun run_ops :: "('i \<Rightarrow> Raft \<Rightarrow> (Raft \<times> 'o) result) \<Rightarrow> 'i list \<Rightarrow> Raft \<Rightarrow> (Raft \<times> 'o list) result" where
  "run_ops f [] rf = Inr (rf, [])"
| "run_ops f (i # is) rf =
     bindE (f i rf) (\<lambda>(rf, x). bindE (run_ops f is rf) (\<lambda>(rf, xs). Inr (rf, x # xs)))"

locale raft_op =
  fixes f :: "'i \<Rightarrow> Raft \<Rightarrow> (Raft \<times> 'o) result"
  assumes op_step: "f i rf = Inr (rf', x) \<Longrightarrow> peer_step rf rf'"
begin

lemma run_step: "run_ops f is rf = Inr (rf', xs) \<Longrightarrow> peer_step rf rf'"
proof (induction "is" arbitrary: rf xs)
  case (Cons i "is")
  then show ?case by (auto simp: go_simps split: prod.splits dest!: op_step intro: peer_step_trans)
qed simp

lemma run_saved: "run_ops f is rf = Inr (rf', xs) \<Longrightarrow> saved rf \<Longrightarrow> saved rf'"
  using run_step unfolding peer_step_def by blast

lemma run_term: "run_ops f is rf = Inr (rf', xs) \<Longrightarrow> CurrentTerm rf \<le> CurrentTerm rf'"
  using run_step unfolding peer_step_def by blast

lemma run_vote:
  "run_ops f is rf = Inr (rf', xs) \<Longrightarrow> CurrentTerm rf' = CurrentTerm rf \<Longrightarrow> VoteFor rf \<noteq> -1 \<Longrightarrow>
   VoteFor rf' = VoteFor rf"
  using run_step unfolding peer_step_def by blast

end

end
