(* ===== verification/Raft_Append.thy ===== *)
theory Raft_Append
  imports Raft_State
begin

text \<open>
  The \<^verbatim>\<open>AppendEntries\<close> RPC handler of \<^verbatim>\<open>src/src/raft/raft.go\<close>: term check, consistency check at
  \<^verbatim>\<open>PrevLogIndex\<close>, replication of the entries, advance of the commit index, and the conflict
  report that drives the accelerated backtracking of the leader.

  The handler is written in the pieces its source has: the branch for a newer term, the test of
  the consistency check, the loop that looks for a mismatch, the accepting branch and the two
  rejecting branches. Shown: every branch of its behaviour, its effect on the log as one splice,
  that the conflict report is exact, that it cannot panic on a sane request, and that it is a
  \<open>raft_op\<close>.
\<close>

type_synonym log = "LogEntry list"

definition ae_newer_term :: "tick \<Rightarrow> AppendEntriesArgs \<Rightarrow> Raft \<Rightarrow> Raft" where
  "ae_newer_term t args rf =
     (let rf = rf\<lparr>CurrentTerm := ae_Term args\<rparr>;
          rf = resetElectionTimer t rf;
          rf = rf\<lparr>VoteFor := -1\<rparr>;
          rf = switchTo Follower rf
      in persist rf)"

definition consistency_check :: "AppendEntriesArgs \<Rightarrow> log \<Rightarrow> bool result" where
  "consistency_check args log =
     (if len log > PrevLogIndex args
      then bindE (go_index log (PrevLogIndex args)) (\<lambda>e. Inr (Term e = PrevLogTerm args))
      else Inr False)"

text \<open>
  The loop over \<^verbatim>\<open>args.Entries\<close>; \<open>pos\<close> is \<^verbatim>\<open>nextIndex+i\<close>, and the loop stops at the first
  mismatch.
\<close>

fun match_loop :: "log \<Rightarrow> int \<Rightarrow> log \<Rightarrow> bool result" where
  "match_loop log pos [] = Inr True"
| "match_loop log pos (e # es) =
     (if len log - 1 < pos then Inr False
      else bindE (go_index log pos)
             (\<lambda>l. if Term l \<noteq> Term e then Inr False else match_loop log (pos + 1) es))"

definition replicate_entries :: "AppendEntriesArgs \<Rightarrow> log \<Rightarrow> log result" where
  "replicate_entries args log =
     (let next = PrevLogIndex args + 1 in
      bindE (match_loop log next (Entries args))
        (\<lambda>isMatch. if isMatch then Inr log
           else bindE (go_slice log 0 next) (\<lambda>prefix. Inr (prefix @ Entries args))))"

definition advance_commit :: "AppendEntriesArgs \<Rightarrow> Raft \<Rightarrow> Raft" where
  "advance_commit args rf =
     (let indexOfLastOfNewEntry = PrevLogIndex args + len (Entries args) in
      if LeaderCommit args > commitIndex rf
      then rf\<lparr>commitIndex := (if LeaderCommit args > indexOfLastOfNewEntry
                              then indexOfLastOfNewEntry else LeaderCommit args),
              applyCond := applyCond rf + 1\<rparr>
      else rf)"

definition ae_accept ::
  "tick \<Rightarrow> AppendEntriesArgs \<Rightarrow> Raft \<Rightarrow> (Raft \<times> AppendEntriesReply) result" where
  "ae_accept t args rf =
     (let rf = switchTo Follower rf in
      bindE (replicate_entries args (Log rf)) (\<lambda>log.
        let rf = rf\<lparr>Log := log\<rparr>;
            rf = advance_commit args rf;
            rf = resetElectionTimer t rf;
            rf = rf\<lparr>leaderId := LeaderId args\<rparr>;
            rf = persist rf
        in Inr (rf, \<lparr>aer_Term = CurrentTerm rf, ConflictTerm = 0, ConflictFirstIndex = 0,
                     Success = True\<rparr>)))"

text \<open>
  The loop that moves \<^verbatim>\<open>reply.ConflictFirstIndex\<close> back to the first entry of the conflicting term.
\<close>

function conflict_loop :: "log \<Rightarrow> int \<Rightarrow> int \<Rightarrow> int \<Rightarrow> int result" where
  "conflict_loop log conflictTerm i first =
     (if i \<ge> 0
      then bindE (go_index log i)
             (\<lambda>e. if Term e \<noteq> conflictTerm then Inr first
                  else conflict_loop log conflictTerm (i - 1) (first - 1))
      else Inr first)"
  by pat_completeness auto
termination
  by (relation "measure (\<lambda>(log, ct, i, first). nat (i + 1))") auto

declare conflict_loop.simps [simp del]

definition ae_conflict :: "AppendEntriesArgs \<Rightarrow> log \<Rightarrow> (int \<times> int) result" where
  "ae_conflict args log =
     (let next = PrevLogIndex args + 1 in
      if len log < next then Inr (0, len log)
      else bindE (go_index log (PrevLogIndex args)) (\<lambda>e.
             bindE (conflict_loop log (Term e) (PrevLogIndex args - 1) (PrevLogIndex args))
               (\<lambda>first. Inr (Term e, first))))"

definition AppendEntries ::
  "tick \<Rightarrow> tick \<Rightarrow> AppendEntriesArgs \<Rightarrow> Raft \<Rightarrow> (Raft \<times> AppendEntriesReply) result" where
  "AppendEntries t1 t2 args rf =
     (if CurrentTerm rf \<le> ae_Term args
      then
        let rf = (if CurrentTerm rf < ae_Term args then ae_newer_term t1 args rf else rf) in
        bindE (consistency_check args (Log rf)) (\<lambda>pass.
          if pass then ae_accept t2 args rf
          else bindE (ae_conflict args (Log rf)) (\<lambda>(conflictTerm, conflictFirst).
                 Inr (rf, \<lparr>aer_Term = CurrentTerm rf, ConflictTerm = conflictTerm,
                           ConflictFirstIndex = conflictFirst, Success = False\<rparr>)))
      else Inr (rf, \<lparr>aer_Term = CurrentTerm rf, ConflictTerm = 0, ConflictFirstIndex = 0,
                     Success = False\<rparr>))"

section \<open>The loops\<close>

text \<open>What the matching loop decides: the log already has the terms of the entries.\<close>

definition has_entries :: "log \<Rightarrow> int \<Rightarrow> log \<Rightarrow> bool" where
  "has_entries log pos es \<longleftrightarrow>
     pos + len es \<le> len log \<and> (\<forall>k < length es. Term (log ! (nat pos + k)) = Term (es ! k))"

lemma match_loop_spec:
  "0 \<le> pos \<Longrightarrow> pos \<le> len log \<Longrightarrow> match_loop log pos es = Inr (has_entries log pos es)"
proof (induction es arbitrary: pos)
  case Nil
  then show ?case by (simp add: has_entries_def)
next
  case (Cons e es)
  show ?case
  proof (cases "pos < len log")
    case True
    have step: "has_entries log pos (e # es) \<longleftrightarrow>
        Term (log ! nat pos) = Term e \<and> has_entries log (pos + 1) es"
      using Cons.prems True
      by (auto simp: has_entries_def nat_add_distrib All_less_Suc2)
    show ?thesis using Cons.prems True Cons.IH [of "pos + 1"] by (simp add: step)
  next
    case False
    then show ?thesis using Cons.prems by (simp add: has_entries_def)
  qed
qed

definition starts_run :: "log \<Rightarrow> int \<Rightarrow> int \<Rightarrow> bool" where
  "starts_run log i j \<longleftrightarrow>
     0 \<le> j \<and> j \<le> i \<and> (\<forall>k. j \<le> int k \<and> int k \<le> i \<longrightarrow> Term (log ! k) = Term (log ! nat i)) \<and>
     (0 < j \<longrightarrow> Term (log ! nat (j - 1)) \<noteq> Term (log ! nat i))"

lemma conflict_loop_spec:
  assumes "-1 \<le> i" and "i < len log"
  shows "\<exists>j. conflict_loop log ct i (i + 1) = Inr j \<and> 0 \<le> j \<and> j \<le> i + 1 \<and>
     (\<forall>k. j \<le> int k \<and> int k \<le> i \<longrightarrow> Term (log ! k) = ct) \<and>
     (0 < j \<longrightarrow> Term (log ! nat (j - 1)) \<noteq> ct)"
  using assms
proof (induction "nat (i + 1)" arbitrary: i)
  case 0
  then show ?case by (simp add: conflict_loop.simps [of log ct i])
next
  case (Suc n)
  then have i: "0 \<le> i" and n: "n = nat (i - 1 + 1)" by auto
  show ?case
  proof (cases "Term (log ! nat i) = ct")
    case True
    obtain j where j: "conflict_loop log ct (i - 1) (i - 1 + 1) = Inr j" "0 \<le> j" "j \<le> i"
      "\<forall>k. j \<le> int k \<and> int k \<le> i - 1 \<longrightarrow> Term (log ! k) = ct"
      "0 < j \<longrightarrow> Term (log ! nat (j - 1)) \<noteq> ct"
      using Suc.hyps(1) [of "i - 1"] n Suc.prems i by auto
    have "\<forall>k. j \<le> int k \<and> int k \<le> i \<longrightarrow> Term (log ! k) = ct"
    proof (intro allI impI)
      fix k assume k: "j \<le> int k \<and> int k \<le> i"
      show "Term (log ! k) = ct"
      proof (cases "int k = i")
        case True
        then show ?thesis using \<open>Term (log ! nat i) = ct\<close> by auto
      next
        case False
        then show ?thesis using j(4) k by auto
      qed
    qed
    moreover have "conflict_loop log ct i (i + 1) = Inr j"
      using j(1) True i Suc.prems by (subst conflict_loop.simps) simp
    ultimately show ?thesis using j by auto
  next
    case False
    then have "conflict_loop log ct i (i + 1) = Inr (i + 1)"
      using i Suc.prems by (subst conflict_loop.simps) simp
    then show ?thesis using False i by auto
  qed
qed

section \<open>Behaviour of the handler, branch by branch\<close>

text \<open>
  The effect of an accepted request on the log. Entries the peer already has (same terms) leave
  it alone, however long it is; otherwise the log is cut after \<^verbatim>\<open>PrevLogIndex\<close> and the entries are
  appended.
\<close>

definition splice :: "log \<Rightarrow> int \<Rightarrow> log \<Rightarrow> log" where
  "splice log prev es =
     (if has_entries log (prev + 1) es then log else take (nat (prev + 1)) log @ es)"

lemma replicate_entries_spec:
  assumes "0 \<le> PrevLogIndex args" and "PrevLogIndex args < len log"
  shows "replicate_entries args log = Inr (splice log (PrevLogIndex args) (Entries args))"
  using assms
  by (simp add: replicate_entries_def match_loop_spec splice_def go_slice_prefix)

lemma consistency_check_spec:
  assumes "0 \<le> PrevLogIndex args"
  shows "consistency_check args log =
    Inr (PrevLogIndex args < len log \<and> Term (log ! nat (PrevLogIndex args)) = PrevLogTerm args)"
  using assms by (simp add: consistency_check_def)

lemma ae_conflict_short:
  "len log \<le> PrevLogIndex args \<Longrightarrow> ae_conflict args log = Inr (0, len log)"
  by (simp add: ae_conflict_def)

lemma ae_conflict_mismatch:
  assumes "0 \<le> PrevLogIndex args" and "PrevLogIndex args < len log"
  shows "\<exists>j. ae_conflict args log = Inr (Term (log ! nat (PrevLogIndex args)), j) \<and>
    starts_run log (PrevLogIndex args) j"
proof -
  let ?p = "PrevLogIndex args" and ?ct = "Term (log ! nat (PrevLogIndex args))"
  obtain j where j: "conflict_loop log ?ct (?p - 1) (?p - 1 + 1) = Inr j" "0 \<le> j" "j \<le> ?p"
      "\<forall>k. j \<le> int k \<and> int k \<le> ?p - 1 \<longrightarrow> Term (log ! k) = ?ct"
      "0 < j \<longrightarrow> Term (log ! nat (j - 1)) \<noteq> ?ct"
    using conflict_loop_spec [of "?p - 1" log ?ct] assms by auto
  have "Term (log ! k) = ?ct" if "j \<le> int k" "int k \<le> ?p" for k
  proof (cases "int k = ?p")
    case True
    then have "nat ?p = k" by simp
    then show ?thesis by simp
  next
    case False
    then show ?thesis using j(4) that by auto
  qed
  then have "starts_run log ?p j" using j(2,3,5) unfolding starts_run_def by blast
  moreover have "ae_conflict args log = Inr (?ct, j)" using j(1) assms by (simp add: ae_conflict_def)
  ultimately show ?thesis by blast
qed

definition ae_term_updated :: "tick \<Rightarrow> AppendEntriesArgs \<Rightarrow> Raft \<Rightarrow> Raft" where
  "ae_term_updated t args rf =
     (if CurrentTerm rf < ae_Term args then ae_newer_term t args rf else rf)"

lemma ae_term_updated_sel [simp]:
  "Log (ae_term_updated t args rf) = Log rf" "me (ae_term_updated t args rf) = me rf"
  "peers (ae_term_updated t args rf) = peers rf"
  "commitIndex (ae_term_updated t args rf) = commitIndex rf"
  "lastApplied (ae_term_updated t args rf) = lastApplied rf"
  "nextIndex (ae_term_updated t args rf) = nextIndex rf"
  "matchIndex (ae_term_updated t args rf) = matchIndex rf"
  "applyCh (ae_term_updated t args rf) = applyCh rf"
  "CurrentTerm rf \<le> ae_Term args \<Longrightarrow> CurrentTerm (ae_term_updated t args rf) = ae_Term args"
  "VoteFor (ae_term_updated t args rf) = (if CurrentTerm rf < ae_Term args then -1 else VoteFor rf)"
  "state (ae_term_updated t args rf) = (if CurrentTerm rf < ae_Term args then Follower else state rf)"
  by (simp_all add: ae_term_updated_def ae_newer_term_def Let_def)

lemma ae_term_updated_step: "peer_step rf (ae_term_updated t args rf)"
  by (auto simp: peer_step_def ae_term_updated_def ae_newer_term_def Let_def)

text \<open>The three outcomes of the handler on a request with a sane \<^verbatim>\<open>PrevLogIndex\<close>.\<close>

lemma AppendEntries_stale:
  "ae_Term args < CurrentTerm rf \<Longrightarrow>
   AppendEntries t1 t2 args rf =
     Inr (rf, \<lparr>aer_Term = CurrentTerm rf, ConflictTerm = 0, ConflictFirstIndex = 0, Success = False\<rparr>)"
  by (simp add: AppendEntries_def)

definition ae_accepted :: "tick \<Rightarrow> tick \<Rightarrow> AppendEntriesArgs \<Rightarrow> Raft \<Rightarrow> Raft" where
  "ae_accepted t1 t2 args rf =
     persist ((resetElectionTimer t2 (advance_commit args
       ((switchTo Follower (ae_term_updated t1 args rf))
          \<lparr>Log := splice (Log rf) (PrevLogIndex args) (Entries args)\<rparr>)))
       \<lparr>leaderId := LeaderId args\<rparr>)"

lemma advance_commit_sel [simp]:
  "Log (advance_commit args rf) = Log rf" "CurrentTerm (advance_commit args rf) = CurrentTerm rf"
  "VoteFor (advance_commit args rf) = VoteFor rf" "state (advance_commit args rf) = state rf"
  "persister (advance_commit args rf) = persister rf" "me (advance_commit args rf) = me rf"
  "peers (advance_commit args rf) = peers rf" "lastApplied (advance_commit args rf) = lastApplied rf"
  "nextIndex (advance_commit args rf) = nextIndex rf"
  "matchIndex (advance_commit args rf) = matchIndex rf"
  "applyCh (advance_commit args rf) = applyCh rf"
  by (auto simp: advance_commit_def Let_def)

lemma AppendEntries_accept:
  assumes "CurrentTerm rf \<le> ae_Term args" and "0 \<le> PrevLogIndex args"
    and "PrevLogIndex args < len (Log rf)"
    and "Term (Log rf ! nat (PrevLogIndex args)) = PrevLogTerm args"
  shows "AppendEntries t1 t2 args rf =
    Inr (ae_accepted t1 t2 args rf,
      \<lparr>aer_Term = ae_Term args, ConflictTerm = 0, ConflictFirstIndex = 0, Success = True\<rparr>)"
proof -
  have "AppendEntries t1 t2 args rf = ae_accept t2 args (ae_term_updated t1 args rf)"
    using assms by (simp add: AppendEntries_def consistency_check_spec Let_def
        flip: ae_term_updated_def)
  also have "\<dots> = Inr (ae_accepted t1 t2 args rf,
      \<lparr>aer_Term = ae_Term args, ConflictTerm = 0, ConflictFirstIndex = 0, Success = True\<rparr>)"
    using assms by (simp add: ae_accept_def replicate_entries_spec ae_accepted_def Let_def)
  finally show ?thesis .
qed

lemma AppendEntries_reject:
  assumes "CurrentTerm rf \<le> ae_Term args" and "0 \<le> PrevLogIndex args"
    and "\<not> (PrevLogIndex args < len (Log rf) \<and>
            Term (Log rf ! nat (PrevLogIndex args)) = PrevLogTerm args)"
  shows "\<exists>ct j. AppendEntries t1 t2 args rf =
      Inr (ae_term_updated t1 args rf,
        \<lparr>aer_Term = ae_Term args, ConflictTerm = ct, ConflictFirstIndex = j, Success = False\<rparr>) \<and>
    (if PrevLogIndex args < len (Log rf)
     then ct = Term (Log rf ! nat (PrevLogIndex args)) \<and> ct \<noteq> PrevLogTerm args \<and>
       starts_run (Log rf) (PrevLogIndex args) j
     else ct = 0 \<and> j = len (Log rf))"
proof -
  have "AppendEntries t1 t2 args rf =
      bindE (ae_conflict args (Log rf)) (\<lambda>(ct, j). Inr (ae_term_updated t1 args rf,
        \<lparr>aer_Term = ae_Term args, ConflictTerm = ct, ConflictFirstIndex = j, Success = False\<rparr>))"
    using assms by (auto simp: AppendEntries_def consistency_check_spec Let_def
        simp flip: ae_term_updated_def)
  then show ?thesis
    using assms ae_conflict_short [of "Log rf" args] ae_conflict_mismatch [of args "Log rf"]
    by (cases "PrevLogIndex args < len (Log rf)") auto
qed

text \<open>A request never panics when its \<^verbatim>\<open>PrevLogIndex\<close> is not negative.\<close>

lemma AppendEntries_total:
  assumes "0 \<le> PrevLogIndex args"
  shows "\<exists>rf' reply. AppendEntries t1 t2 args rf = Inr (rf', reply)"
  using AppendEntries_stale AppendEntries_accept AppendEntries_reject assms
  by (metis not_le_imp_less)

lemma ae_accepted_sel [simp]:
  "Log (ae_accepted t1 t2 args rf) = splice (Log rf) (PrevLogIndex args) (Entries args)"
  "me (ae_accepted t1 t2 args rf) = me rf" "peers (ae_accepted t1 t2 args rf) = peers rf"
  "lastApplied (ae_accepted t1 t2 args rf) = lastApplied rf"
  "nextIndex (ae_accepted t1 t2 args rf) = nextIndex rf"
  "matchIndex (ae_accepted t1 t2 args rf) = matchIndex rf"
  "applyCh (ae_accepted t1 t2 args rf) = applyCh rf"
  "CurrentTerm rf \<le> ae_Term args \<Longrightarrow> CurrentTerm (ae_accepted t1 t2 args rf) = ae_Term args"
  "VoteFor (ae_accepted t1 t2 args rf) = (if CurrentTerm rf < ae_Term args then -1 else VoteFor rf)"
  "state (ae_accepted t1 t2 args rf) = Follower"
  "commitIndex (ae_accepted t1 t2 args rf) =
     (if LeaderCommit args > commitIndex rf
      then min (LeaderCommit args) (PrevLogIndex args + len (Entries args)) else commitIndex rf)"
  by (simp_all add: ae_accepted_def advance_commit_def Let_def)

text \<open>Which of the three outcomes produced a result: the rule later proofs split on.\<close>

lemma AppendEntries_negative:
  "CurrentTerm rf \<le> ae_Term args \<Longrightarrow> PrevLogIndex args < 0 \<Longrightarrow>
   AppendEntries t1 t2 args rf = Inl (IndexOutOfRange (PrevLogIndex args))"
  by (simp add: AppendEntries_def consistency_check_def go_index_def Let_def)

lemma AppendEntries_cases:
  assumes "AppendEntries t1 t2 args rf = Inr (rf', r)"
  obtains (stale) "ae_Term args < CurrentTerm rf" "rf' = rf" "\<not> Success r" "aer_Term r = CurrentTerm rf"
    | (accept) "CurrentTerm rf \<le> ae_Term args" "0 \<le> PrevLogIndex args"
        "PrevLogIndex args < len (Log rf)"
        "Term (Log rf ! nat (PrevLogIndex args)) = PrevLogTerm args"
        "rf' = ae_accepted t1 t2 args rf" "Success r" "aer_Term r = ae_Term args"
    | (reject) "CurrentTerm rf \<le> ae_Term args" "0 \<le> PrevLogIndex args"
        "rf' = ae_term_updated t1 args rf" "\<not> Success r" "aer_Term r = ae_Term args"
proof -
  consider (a) "ae_Term args < CurrentTerm rf" | (n) "CurrentTerm rf \<le> ae_Term args" "PrevLogIndex args < 0"
    | (b) "CurrentTerm rf \<le> ae_Term args" "0 \<le> PrevLogIndex args"
        "PrevLogIndex args < len (Log rf) \<and> Term (Log rf ! nat (PrevLogIndex args)) = PrevLogTerm args"
    | (c) "CurrentTerm rf \<le> ae_Term args" "0 \<le> PrevLogIndex args"
        "\<not> (PrevLogIndex args < len (Log rf) \<and>
            Term (Log rf ! nat (PrevLogIndex args)) = PrevLogTerm args)"
    by linarith
  then show thesis
  proof cases
    case a
    then show ?thesis using stale assms by (auto simp: AppendEntries_stale)
  next
    case n
    then show ?thesis using assms by (simp add: AppendEntries_negative)
  next
    case b
    then show ?thesis using accept assms by (auto simp: AppendEntries_accept)
  next
    case c
    then show ?thesis using reject AppendEntries_reject [OF c, of t1 t2] assms by auto
  qed
qed

lemma ae_accepted_step:
  "CurrentTerm rf \<le> ae_Term args \<Longrightarrow> peer_step rf (ae_accepted t1 t2 args rf)"
  by (auto simp: peer_step_def) (simp add: ae_accepted_def)

interpretation append_op: raft_op "\<lambda>(t1, t2, args). AppendEntries t1 t2 args"
  by unfold_locales
     (auto elim!: AppendEntries_cases intro: ae_accepted_step ae_term_updated_step)

section \<open>Agreement with the leader's log\<close>

text \<open>
  Log matching, the invariant the protocol maintains between any two logs: equal terms at an index
  mean equal prefixes up to it. Under it a successful request makes the follower's log agree with
  the leader's through the last entry sent.
\<close>

definition log_matching :: "log \<Rightarrow> log \<Rightarrow> bool" where
  "log_matching F L \<longleftrightarrow>
     (\<forall>k < min (length F) (length L). Term (F ! k) = Term (L ! k) \<longrightarrow>
        take (Suc k) F = take (Suc k) L)"

lemma log_matchingD:
  "log_matching F L \<Longrightarrow> k < length F \<Longrightarrow> k < length L \<Longrightarrow> Term (F ! k) = Term (L ! k) \<Longrightarrow>
   take (Suc k) F = take (Suc k) L"
  by (simp add: log_matching_def)

lemma log_matching_sym: "log_matching F L \<Longrightarrow> log_matching L F"
  unfolding log_matching_def by (metis min.commute)

lemma splice_agree:
  assumes lm: "log_matching F L" and prev: "p < length F" "p < length L"
    and same: "Term (F ! p) = Term (L ! p)"
    and es: "es = take n (drop (Suc p) L)" "Suc p + n \<le> length L"
  shows "take (Suc p + n) (splice F (int p) es) = take (Suc p + n) L"
proof -
  have pre: "take (Suc p) F = take (Suc p) L" using log_matchingD [OF lm prev same] .
  have n: "length es = n" using es by simp
  show ?thesis
  proof (cases "has_entries F (int p + 1) es")
    case True
    show ?thesis
    proof (cases n)
      case 0
      then show ?thesis using pre True es by (simp add: splice_def)
    next
      case (Suc m)
      have long: "p + n < length F" using True n by (simp add: has_entries_def)
      have "Term (F ! (p + n)) = Term (es ! m)"
        using True n Suc by (auto simp: has_entries_def nat_add_distrib)
      also have "es ! m = L ! (p + n)" using es Suc by simp
      finally have "take (Suc (p + n)) F = take (Suc (p + n)) L"
        using log_matchingD [OF lm long] es by simp
      then show ?thesis using True by (simp add: splice_def)
    qed
  next
    case False
    have "take (Suc p) F @ es = take (Suc p + n) L"
      using pre es(1) take_add [of "Suc p" n L] by simp
    moreover have "length (take (Suc p) F @ es) = Suc p + n" using prev n by simp
    ultimately show ?thesis using False by (simp add: splice_def nat_add_distrib)
  qed
qed

lemma splice_keeps_prefix:
  assumes "p < length F"
  shows "take (Suc p) (splice F (int p) es) = take (Suc p) F"
  using assms by (simp add: splice_def nat_add_distrib)

lemma has_entries_splice:
  assumes "p < length F"
  shows "has_entries (splice F (int p) es) (int p + 1) es"
proof (cases "has_entries F (int p + 1) es")
  case True
  then show ?thesis by (simp add: splice_def)
next
  case False
  then show ?thesis using assms by (auto simp: splice_def has_entries_def nat_add_distrib nth_append)
qed

section \<open>Properties\<close>

text \<open>
  C13. A peer whose log matches the leader's (equal terms at an index mean equal prefixes) accepts a
  request for the leader's entries \<open>p + 1, \<dots>, p + n\<close>, built in a current term, exactly when it has the
  leader's entry \<open>p\<close>; its log then agrees with the leader's through index \<open>p + n\<close>, what it held up to \<open>p\<close> is
  untouched, it follows in the leader's term, and its commit index has not decreased.
\<close>

theorem AppendEntries_agreement:
  assumes "log_matching (Log rf) L" and "p < length L" and "Suc p + n \<le> length L"
    and "PrevLogIndex args = int p" and "PrevLogTerm args = Term (L ! p)"
    and "Entries args = take n (drop (Suc p) L)" and "CurrentTerm rf \<le> ae_Term args"
    and "LeaderCommit args \<le> int p + int n" and "AppendEntries t1 t2 args rf = Inr (rf', reply)"
  shows "(Success reply \<longleftrightarrow> p < length (Log rf) \<and> take (Suc p) (Log rf) = take (Suc p) L) \<and>
    (Success reply \<longrightarrow>
       take (Suc p + n) (Log rf') = take (Suc p + n) L \<and> take (Suc p) (Log rf') = take (Suc p) (Log rf) \<and>
       state rf' = Follower \<and> CurrentTerm rf' = ae_Term args \<and>
       commitIndex rf' = max (commitIndex rf) (LeaderCommit args))"
proof -
  have iff: "p < length (Log rf) \<and> Term (Log rf ! p) = Term (L ! p) \<longleftrightarrow>
      p < length (Log rf) \<and> take (Suc p) (Log rf) = take (Suc p) L"
    using log_matchingD [OF assms(1) _ assms(2)] assms(2)
    by (metis lessI nth_take)
  show ?thesis
    using assms(9)
  proof (cases rule: AppendEntries_cases)
    case accept
    then have p: "p < length (Log rf)" "Term (Log rf ! p) = Term (L ! p)" using assms by auto
    have "Suc p + n = length (take (Suc p) L) + length (Entries args)" using assms by simp
    then show ?thesis
      using accept assms p iff splice_agree [OF assms(1) p(1) assms(2) p(2) assms(6,3)]
        splice_keeps_prefix [OF p(1), of "Entries args"]
      by (auto simp: max_def)
  next
    case reject
    then have "\<not> (p < length (Log rf) \<and> Term (Log rf ! p) = Term (L ! p))"
      using AppendEntries_accept [of rf args t1 t2] assms by auto
    then show ?thesis using reject iff by simp
  qed (use assms in auto)
qed

definition sample_follower :: Raft where
  "sample_follower = projr (Make [''a'', ''b'', ''c''] 1 MakePersister (0, 0))"

definition sample_leader_log :: log where
  "sample_leader_log = [\<lparr>Command = None, Term = 0\<rparr>, \<lparr>Command = Some (TInt, VInt 7), Term = 1\<rparr>]"

definition sample_append :: AppendEntriesArgs where
  "sample_append = \<lparr>ae_Term = 1, LeaderId = 0, PrevLogIndex = 0, PrevLogTerm = 0,
     Entries = drop 1 sample_leader_log, LeaderCommit = 1\<rparr>"

theorem AppendEntries_agreement_witness:
  "\<exists>rf'. AppendEntries (5, 5) (6, 6) sample_append sample_follower =
      Inr (rf', \<lparr>aer_Term = 1, ConflictTerm = 0, ConflictFirstIndex = 0, Success = True\<rparr>) \<and>
    take 2 (Log rf') = sample_leader_log \<and> commitIndex rf' = 1"
proof -
  have lg: "Log sample_follower = [\<lparr>Command = None, Term = 0\<rparr>]" "CurrentTerm sample_follower = 0"
    "commitIndex sample_follower = 0"
    by code_simp+
  have ok: "AppendEntries (5, 5) (6, 6) sample_append sample_follower =
      Inr (ae_accepted (5, 5) (6, 6) sample_append sample_follower,
        \<lparr>aer_Term = 1, ConflictTerm = 0, ConflictFirstIndex = 0, Success = True\<rparr>)"
    using AppendEntries_accept [of sample_follower sample_append "(5, 5)" "(6, 6)"] lg
    by (simp add: sample_append_def)
  have lm: "log_matching (Log sample_follower) sample_leader_log"
    by (simp add: log_matching_def lg sample_leader_log_def)
  show ?thesis
    using AppendEntries_agreement [OF lm, of 0 1 sample_append "(5, 5)" "(6, 6)"] ok lg
    by (simp add: sample_append_def sample_leader_log_def numeral_2_eq_2)
qed

text \<open>
  A request that a peer has accepted changes nothing of its log, term, vote or role when it is
  delivered a second time: duplicated and delayed requests never truncate the log.
\<close>

theorem AppendEntries_duplicate:
  assumes "AppendEntries t1 t2 args rf = Inr (rf', reply)" and "Success reply"
  shows "\<exists>rf''. AppendEntries t3 t4 args rf' = Inr (rf'', reply) \<and> Log rf'' = Log rf' \<and>
    CurrentTerm rf'' = CurrentTerm rf' \<and> VoteFor rf'' = VoteFor rf' \<and> state rf'' = Follower \<and>
    commitIndex rf'' = commitIndex rf'"
  using assms(1)
proof (cases rule: AppendEntries_cases)
  case accept
  let ?p = "nat (PrevLogIndex args)"
  have p: "PrevLogIndex args = int ?p" "?p < length (Log rf)" using accept by auto
  have he: "has_entries (Log rf') (PrevLogIndex args + 1) (Entries args)"
    using has_entries_splice [OF p(2), of "Entries args"] accept p(1) by simp
  have keep: "take (Suc ?p) (Log rf') = take (Suc ?p) (Log rf)"
    using splice_keeps_prefix [OF p(2), of "Entries args"] accept p(1) by simp
  then have "?p < length (Log rf')" using p(2) by (metis length_take lessI min_less_iff_conj)
  moreover have "Log rf' ! ?p = Log rf ! ?p" using keep by (metis lessI nth_take)
  moreover have ct: "CurrentTerm rf' = ae_Term args" using accept by simp
  ultimately have a: "AppendEntries t3 t4 args rf' = Inr (ae_accepted t3 t4 args rf',
      \<lparr>aer_Term = ae_Term args, ConflictTerm = 0, ConflictFirstIndex = 0, Success = True\<rparr>)"
    using accept p(2) by (intro AppendEntries_accept) auto
  have r: "reply = \<lparr>aer_Term = ae_Term args, ConflictTerm = 0, ConflictFirstIndex = 0, Success = True\<rparr>"
    using AppendEntries_accept [OF accept(1-4), of t1 t2] assms(1) by simp
  have "Log (ae_accepted t3 t4 args rf') = Log rf'" using he by (simp add: splice_def)
  moreover have "commitIndex (ae_accepted t3 t4 args rf') = commitIndex rf'"
    using accept by (simp add: min_def)
  ultimately show ?thesis using a r ct by auto
qed (use assms in auto)

theorem AppendEntries_duplicate_witness:
  "\<exists>rf' rf'' reply. AppendEntries (5, 5) (6, 6) sample_append sample_follower = Inr (rf', reply) \<and>
    AppendEntries (7, 7) (8, 8) sample_append rf' = Inr (rf'', reply) \<and> Log rf'' = sample_leader_log"
proof -
  have ok: "case AppendEntries (5, 5) (6, 6) sample_append sample_follower of
      Inl _ \<Rightarrow> False | Inr (rf', reply) \<Rightarrow> Success reply \<and> Log rf' = sample_leader_log"
    by code_simp
  then obtain rf' reply where 1: "AppendEntries (5, 5) (6, 6) sample_append sample_follower = Inr (rf', reply)"
      and 2: "Success reply" "Log rf' = sample_leader_log"
    by (auto split: sum.splits)
  then show ?thesis using AppendEntries_duplicate [OF 1 2(1), of "(7, 7)" "(8, 8)"] by metis
qed

text \<open>
  The reply to a request that fails the consistency check, in full: a peer whose log is too short
  reports its length, another one reports the term of its entry at \<^verbatim>\<open>PrevLogIndex\<close> and the first index of
  the run of entries with that term that ends there. Nothing but term, vote and role changes.
\<close>

theorem AppendEntries_conflict_report:
  assumes "CurrentTerm rf \<le> ae_Term args" and "0 \<le> PrevLogIndex args"
    and "len (Log rf) \<le> PrevLogIndex args \<or>
         Term (Log rf ! nat (PrevLogIndex args)) \<noteq> PrevLogTerm args"
  shows "\<exists>rf' ct j. AppendEntries t1 t2 args rf =
      Inr (rf', \<lparr>aer_Term = ae_Term args, ConflictTerm = ct, ConflictFirstIndex = j, Success = False\<rparr>) \<and>
    Log rf' = Log rf \<and> commitIndex rf' = commitIndex rf \<and> CurrentTerm rf' = ae_Term args \<and>
    (if len (Log rf) \<le> PrevLogIndex args then ct = 0 \<and> j = len (Log rf)
     else ct = Term (Log rf ! nat (PrevLogIndex args)) \<and> starts_run (Log rf) (PrevLogIndex args) j)"
proof -
  have "\<not> (PrevLogIndex args < len (Log rf) \<and> Term (Log rf ! nat (PrevLogIndex args)) = PrevLogTerm args)"
    using assms(3) by auto
  then show ?thesis
    using AppendEntries_reject [OF assms(1,2), of t1 t2] assms(1)
    by (cases "len (Log rf) \<le> PrevLogIndex args") auto
qed

theorem AppendEntries_conflict_report_witness:
  "\<exists>rf'. AppendEntries (5, 5) (6, 6) (sample_append\<lparr>PrevLogIndex := 4\<rparr>) sample_follower =
     Inr (rf', \<lparr>aer_Term = 1, ConflictTerm = 0, ConflictFirstIndex = 1, Success = False\<rparr>)"
proof -
  have "Log sample_follower = [\<lparr>Command = None, Term = 0\<rparr>]" "CurrentTerm sample_follower = 0"
    by code_simp+
  then show ?thesis
    using AppendEntries_conflict_report [of sample_follower "sample_append\<lparr>PrevLogIndex := 4\<rparr>" "(5, 5)" "(6, 6)"]
    by (auto simp: sample_append_def)
qed

end
