(* ===== verification/Raft_Vote.thy ===== *)
theory Raft_Vote
  imports Raft_State
begin

text \<open>
  Leader election in \<^verbatim>\<open>src/src/raft/raft.go\<close>: the \<^verbatim>\<open>RequestVote\<close> RPC handler and the critical
  sections of \<^verbatim>\<open>startElection\<close>, which are the start of a candidacy, the construction of the
  request for one peer, and the two branches that process a reply.

  Between the check that a reply is not stale and the branch that uses it the source releases the
  lock. \<open>vote_reply\<close> is the two sections run back to back; the sections alone are
  \<open>vote_is_stale\<close>, \<open>vote_denied\<close> and \<open>vote_granted\<close>, and theory \<open>Raft_Cluster\<close> also interleaves
  them. Shown: when a vote is granted and what that commits the voter to, that the handlers are
  \<open>raft_op\<close>s, and when a reply turns a candidate into a leader.
\<close>

section \<open>The RequestVote handler\<close>

definition rv_newer_term :: "RequestVoteArgs \<Rightarrow> Raft \<Rightarrow> Raft" where
  "rv_newer_term args rf =
     (let rf = rf\<lparr>CurrentTerm := rv_Term args\<rparr>;
          rf = rf\<lparr>VoteFor := -1\<rparr>;
          rf = switchTo Follower rf
      in persist rf)"

definition rv_grant :: "tick \<Rightarrow> RequestVoteArgs \<Rightarrow> Raft \<Rightarrow> Raft" where
  "rv_grant t args rf =
     (let rf = rf\<lparr>VoteFor := CandidateId args\<rparr>;
          rf = resetElectionTimer t rf;
          rf = switchTo Follower rf
      in persist rf)"

definition RequestVote ::
  "tick \<Rightarrow> RequestVoteArgs \<Rightarrow> Raft \<Rightarrow> (Raft \<times> RequestVoteReply) result" where
  "RequestVote t args rf =
     (if CurrentTerm rf \<le> rv_Term args
      then
        let rf = (if CurrentTerm rf < rv_Term args then rv_newer_term args rf else rf) in
        if VoteFor rf = -1 \<or> VoteFor rf = CandidateId args
        then
          let lastLogIndex = len (Log rf) - 1 in
          bindE (go_index (Log rf) lastLogIndex) (\<lambda>e.
            let lastLogTerm = Term e in
            if lastLogTerm < LastLogTerm args \<or>
               lastLogTerm = LastLogTerm args \<and> lastLogIndex \<le> LastLogIndex args
            then let rf = rv_grant t args rf
                 in Inr (rf, \<lparr>rvr_Term = CurrentTerm rf, VoteGranted = True\<rparr>)
            else Inr (rf, \<lparr>rvr_Term = CurrentTerm rf, VoteGranted = False\<rparr>))
        else Inr (rf, \<lparr>rvr_Term = CurrentTerm rf, VoteGranted = False\<rparr>)
      else Inr (rf, \<lparr>rvr_Term = CurrentTerm rf, VoteGranted = False\<rparr>))"

section \<open>The sections of startElection\<close>

definition startElection :: "tick \<Rightarrow> Raft \<Rightarrow> Raft" where
  "startElection t rf =
     (let rf = switchTo Candidate rf;
          rf = rf\<lparr>CurrentTerm := CurrentTerm rf + 1\<rparr>;
          rf = rf\<lparr>VoteFor := me rf\<rparr>;
          rf = resetElectionTimer t rf
      in persist rf)"

definition election_args :: "Raft \<Rightarrow> RequestVoteArgs result" where
  "election_args rf =
     (let lastLogIndex = len (Log rf) - 1 in
      bindE (go_index (Log rf) lastLogIndex) (\<lambda>e.
        Inr \<lparr>rv_Term = CurrentTerm rf, CandidateId = me rf, LastLogIndex = lastLogIndex,
             LastLogTerm = Term e\<rparr>))"

definition vote_is_stale :: "RequestVoteArgs \<Rightarrow> Raft \<Rightarrow> bool" where
  "vote_is_stale args rf \<longleftrightarrow> CurrentTerm rf \<noteq> rv_Term args"

definition vote_denied :: "RequestVoteReply \<Rightarrow> Raft \<Rightarrow> Raft" where
  "vote_denied reply rf =
     (if CurrentTerm rf < rvr_Term reply
      then let rf = rf\<lparr>CurrentTerm := rvr_Term reply\<rparr>;
               rf = rf\<lparr>VoteFor := -1\<rparr>;
               rf = switchTo Follower rf
           in persist rf
      else rf)"

text \<open>The loop that resets \<^verbatim>\<open>nextIndex\<close> and \<^verbatim>\<open>matchIndex\<close> of the first \<open>k\<close> peers.\<close>

primrec init_indices :: "nat \<Rightarrow> Raft \<Rightarrow> Raft result" where
  "init_indices 0 rf = Inr rf"
| "init_indices (Suc k) rf =
     bindE (init_indices k rf) (\<lambda>rf.
       bindE (go_update (nextIndex rf) (int k) (len (Log rf))) (\<lambda>ni.
         bindE (go_update (matchIndex rf) (int k) 0) (\<lambda>mi.
           Inr (rf\<lparr>nextIndex := ni, matchIndex := mi\<rparr>))))"

definition winThreshold :: "Raft \<Rightarrow> int" where
  "winThreshold rf = len (peers rf) div 2 + 1"

text \<open>
  Processing a granted vote. The counter is shared by all goroutines of one election; the last
  component says whether the peer has just become leader, in which case it also starts a
  goroutine that broadcasts a heartbeat.
\<close>

definition vote_granted :: "int \<Rightarrow> Raft \<Rightarrow> (Raft \<times> int \<times> bool) result" where
  "vote_granted nVotes rf =
     (let nVotes = nVotes + 1 in
      if state rf = Candidate \<and> nVotes \<ge> winThreshold rf
      then
        let rf = switchTo Leader rf;
            rf = rf\<lparr>leaderId := me rf\<rparr>
        in bindE (init_indices (length (peers rf)) rf) (\<lambda>rf. Inr (persist rf, nVotes, True))
      else Inr (rf, nVotes, False))"

definition vote_reply ::
  "RequestVoteArgs \<Rightarrow> RequestVoteReply \<Rightarrow> int \<Rightarrow> Raft \<Rightarrow> (Raft \<times> int \<times> bool) result" where
  "vote_reply args reply nVotes rf =
     (if vote_is_stale args rf then Inr (rf, nVotes, False)
      else if \<not> VoteGranted reply then Inr (vote_denied reply rf, nVotes, False)
      else vote_granted nVotes rf)"

section \<open>Granting a vote\<close>

text \<open>The comparison of two logs by the term and index of their last entries.\<close>

definition up_to_date :: "LogEntry list \<Rightarrow> RequestVoteArgs \<Rightarrow> bool" where
  "up_to_date log args \<longleftrightarrow>
     Term (last log) < LastLogTerm args \<or>
     Term (last log) = LastLogTerm args \<and> len log - 1 \<le> LastLogIndex args"

definition rv_term_updated :: "RequestVoteArgs \<Rightarrow> Raft \<Rightarrow> Raft" where
  "rv_term_updated args rf = (if CurrentTerm rf < rv_Term args then rv_newer_term args rf else rf)"

lemma rv_term_updated_sel [simp]:
  "Log (rv_term_updated args rf) = Log rf" "me (rv_term_updated args rf) = me rf"
  "peers (rv_term_updated args rf) = peers rf"
  "commitIndex (rv_term_updated args rf) = commitIndex rf"
  "lastApplied (rv_term_updated args rf) = lastApplied rf"
  "nextIndex (rv_term_updated args rf) = nextIndex rf"
  "matchIndex (rv_term_updated args rf) = matchIndex rf"
  "applyCh (rv_term_updated args rf) = applyCh rf"
  "CurrentTerm rf \<le> rv_Term args \<Longrightarrow> CurrentTerm (rv_term_updated args rf) = rv_Term args"
  "VoteFor (rv_term_updated args rf) = (if CurrentTerm rf < rv_Term args then -1 else VoteFor rf)"
  "state (rv_term_updated args rf) = (if CurrentTerm rf < rv_Term args then Follower else state rf)"
  by (simp_all add: rv_term_updated_def rv_newer_term_def Let_def)

lemma rv_grant_sel [simp]:
  "Log (rv_grant t args rf) = Log rf" "me (rv_grant t args rf) = me rf"
  "peers (rv_grant t args rf) = peers rf" "commitIndex (rv_grant t args rf) = commitIndex rf"
  "lastApplied (rv_grant t args rf) = lastApplied rf"
  "nextIndex (rv_grant t args rf) = nextIndex rf" "matchIndex (rv_grant t args rf) = matchIndex rf"
  "applyCh (rv_grant t args rf) = applyCh rf" "CurrentTerm (rv_grant t args rf) = CurrentTerm rf"
  "VoteFor (rv_grant t args rf) = CandidateId args" "state (rv_grant t args rf) = Follower"
  "saved (rv_grant t args rf)"
  by (simp_all add: rv_grant_def Let_def)

text \<open>The exact condition under which a peer grants its vote.\<close>

definition may_vote :: "RequestVoteArgs \<Rightarrow> Raft \<Rightarrow> bool" where
  "may_vote args rf \<longleftrightarrow>
     CurrentTerm rf \<le> rv_Term args \<and>
     (CurrentTerm rf < rv_Term args \<or> VoteFor rf = -1 \<or> VoteFor rf = CandidateId args) \<and>
     up_to_date (Log rf) args"

lemma RequestVote_eq:
  assumes "Log rf \<noteq> []"
  shows "RequestVote t args rf =
    (if rv_Term args < CurrentTerm rf
     then Inr (rf, \<lparr>rvr_Term = CurrentTerm rf, VoteGranted = False\<rparr>)
     else if may_vote args rf
     then Inr (rv_grant t args (rv_term_updated args rf),
               \<lparr>rvr_Term = rv_Term args, VoteGranted = True\<rparr>)
     else Inr (rv_term_updated args rf, \<lparr>rvr_Term = rv_Term args, VoteGranted = False\<rparr>))"
proof -
  have last: "go_index (Log rf) (len (Log rf) - 1) = Inr (last (Log rf))"
    using assms by (rule go_index_last)
  have fin: "bindE (go_index (Log rf) (len (Log rf) - 1)) f = f (last (Log rf))" for f :: "LogEntry \<Rightarrow> 'z result"
    by (simp add: last)
  show ?thesis
  proof (cases "CurrentTerm rf \<le> rv_Term args")
    case True
    have "RequestVote t args rf =
       (let rf' = rv_term_updated args rf in
        if VoteFor rf' = -1 \<or> VoteFor rf' = CandidateId args
        then if up_to_date (Log rf) args
          then Inr (rv_grant t args rf', \<lparr>rvr_Term = rv_Term args, VoteGranted = True\<rparr>)
          else Inr (rf', \<lparr>rvr_Term = rv_Term args, VoteGranted = False\<rparr>)
        else Inr (rf', \<lparr>rvr_Term = rv_Term args, VoteGranted = False\<rparr>))"
      using True by (simp add: RequestVote_def fin up_to_date_def Let_def flip: rv_term_updated_def)
    then show ?thesis using True by (auto simp: may_vote_def Let_def)
  next
    case False
    then show ?thesis by (simp add: RequestVote_def)
  qed
qed

lemma rv_term_updated_step: "peer_step rf (rv_term_updated args rf)"
  by (auto simp: peer_step_def rv_term_updated_def rv_newer_term_def Let_def)

lemma rv_grant_step:
  assumes "may_vote args rf"
  shows "peer_step rf (rv_grant t args (rv_term_updated args rf))"
  using assms by (auto simp: peer_step_def may_vote_def)

text \<open>With an empty log the handler panics where it reads the last entry, or denies the vote.\<close>

lemma RequestVote_step:
  assumes "RequestVote t args rf = Inr (rf', r)"
  shows "peer_step rf rf'"
proof (cases "Log rf = []")
  case True
  then have "rf' = rf \<or> rf' = rv_term_updated args rf"
    using assms
    by (auto simp: RequestVote_def Let_def go_index_def simp flip: rv_term_updated_def
        split: if_splits)
  then show ?thesis using rv_term_updated_step by auto
next
  case False
  then show ?thesis
    using assms
    by (auto simp: RequestVote_eq split: if_splits intro: rv_term_updated_step rv_grant_step)
qed

interpretation vote_op: raft_op "\<lambda>(t, args). RequestVote t args"
  by unfold_locales (auto intro: RequestVote_step)

section \<open>Starting and winning an election\<close>

lemma startElection_sel [simp]:
  "state (startElection t rf) = Candidate" "CurrentTerm (startElection t rf) = CurrentTerm rf + 1"
  "VoteFor (startElection t rf) = me rf" "Log (startElection t rf) = Log rf"
  "me (startElection t rf) = me rf" "peers (startElection t rf) = peers rf"
  "commitIndex (startElection t rf) = commitIndex rf"
  "lastApplied (startElection t rf) = lastApplied rf"
  "nextIndex (startElection t rf) = nextIndex rf" "matchIndex (startElection t rf) = matchIndex rf"
  "applyCh (startElection t rf) = applyCh rf" "saved (startElection t rf)"
  by (simp_all add: startElection_def Let_def)

lemma startElection_step: "peer_step rf (startElection t rf)"
  by (simp add: peer_step_def)

lemma election_args_eq:
  "Log rf \<noteq> [] \<Longrightarrow> election_args rf =
     Inr \<lparr>rv_Term = CurrentTerm rf, CandidateId = me rf, LastLogIndex = len (Log rf) - 1,
          LastLogTerm = Term (last (Log rf))\<rparr>"
  by (simp add: election_args_def Let_def go_index_last del: go_index_in_range)

lemma init_indices_eq:
  assumes "k \<le> length (nextIndex rf)" and "k \<le> length (matchIndex rf)"
  shows "init_indices k rf =
    Inr (rf\<lparr>nextIndex := replicate k (len (Log rf)) @ drop k (nextIndex rf),
            matchIndex := replicate k 0 @ drop k (matchIndex rf)\<rparr>)"
  using assms
proof (induction k)
  case 0
  then show ?case by simp
next
  case (Suc k)
  have upd: "(replicate k a @ drop k xs)[k := a] = replicate (Suc k) a @ drop (Suc k) xs"
    if "k < length xs" for a :: int and xs
    using that by (simp add: list_update_append Cons_nth_drop_Suc [symmetric] replicate_append_same
        flip: replicate_Suc)
  show ?case
    using Suc by (simp add: go_update_def upd)
qed

text \<open>The bookkeeping arrays have one element per peer, as \<open>Make\<close> allocates them.\<close>

definition sized :: "Raft \<Rightarrow> bool" where
  "sized rf \<longleftrightarrow> length (nextIndex rf) = length (peers rf) \<and> length (matchIndex rf) = length (peers rf)"

definition elected :: "Raft \<Rightarrow> Raft" where
  "elected rf =
     persist ((switchTo Leader rf)\<lparr>leaderId := me rf,
       nextIndex := replicate (length (peers rf)) (len (Log rf)),
       matchIndex := replicate (length (peers rf)) 0\<rparr>)"

lemma elected_sel [simp]:
  "state (elected rf) = Leader" "CurrentTerm (elected rf) = CurrentTerm rf"
  "VoteFor (elected rf) = VoteFor rf" "Log (elected rf) = Log rf" "me (elected rf) = me rf"
  "peers (elected rf) = peers rf" "commitIndex (elected rf) = commitIndex rf"
  "lastApplied (elected rf) = lastApplied rf" "applyCh (elected rf) = applyCh rf"
  "nextIndex (elected rf) = replicate (length (peers rf)) (len (Log rf))"
  "matchIndex (elected rf) = replicate (length (peers rf)) 0"
  "sized (elected rf)" "saved (elected rf)"
  by (simp_all add: elected_def sized_def)

lemma vote_granted_eq:
  assumes "sized rf"
  shows "vote_granted n rf =
    (if state rf = Candidate \<and> n + 1 \<ge> winThreshold rf then Inr (elected rf, n + 1, True)
     else Inr (rf, n + 1, False))"
  using assms
  by (simp add: vote_granted_def init_indices_eq sized_def Let_def elected_def switchTo_def)

lemma vote_denied_sel [simp]:
  "Log (vote_denied r rf) = Log rf" "me (vote_denied r rf) = me rf"
  "peers (vote_denied r rf) = peers rf" "commitIndex (vote_denied r rf) = commitIndex rf"
  "lastApplied (vote_denied r rf) = lastApplied rf" "applyCh (vote_denied r rf) = applyCh rf"
  "nextIndex (vote_denied r rf) = nextIndex rf" "matchIndex (vote_denied r rf) = matchIndex rf"
  "CurrentTerm (vote_denied r rf) = max (CurrentTerm rf) (rvr_Term r)"
  "VoteFor (vote_denied r rf) = (if CurrentTerm rf < rvr_Term r then -1 else VoteFor rf)"
  "state (vote_denied r rf) = (if CurrentTerm rf < rvr_Term r then Follower else state rf)"
  by (simp_all add: vote_denied_def Let_def)

lemma vote_denied_step: "peer_step rf (vote_denied r rf)"
  by (auto simp: peer_step_def) (simp add: vote_denied_def Let_def)

lemma init_indices_frame:
  "init_indices k rf = Inr rf' \<Longrightarrow>
     CurrentTerm rf' = CurrentTerm rf \<and> VoteFor rf' = VoteFor rf \<and> me rf' = me rf \<and>
     peers rf' = peers rf \<and> Log rf' = Log rf"
proof (induction k arbitrary: rf')
  case (Suc k)
  then show ?case by (force simp: go_simps)
qed simp

lemma vote_granted_step: "vote_granted n rf = Inr (rf', x) \<Longrightarrow> peer_step rf rf'"
  by (auto simp: vote_granted_def Let_def go_simps peer_step_def dest!: init_indices_frame
      split: if_splits)

interpretation vote_reply_op: raft_op "\<lambda>(args, reply, n). vote_reply args reply n"
  by unfold_locales
     (auto simp: vote_reply_def split: if_splits intro: vote_denied_step vote_granted_step)

lemma vote_reply_leader:
  assumes "vote_reply args reply n rf = Inr (rf', n', won)" and "sized rf"
  shows "(won \<longleftrightarrow> CurrentTerm rf = rv_Term args \<and> VoteGranted reply \<and> state rf = Candidate \<and>
            n + 1 \<ge> winThreshold rf) \<and>
    (won \<longrightarrow> rf' = elected rf) \<and> (\<not> won \<longrightarrow> state rf' = Leader \<longrightarrow> state rf = Leader)"
  using assms
  by (auto simp: vote_reply_def vote_is_stale_def vote_granted_eq split: if_splits)

section \<open>Sequences of vote requests\<close>

lemma RequestVote_empty:
  assumes "RequestVote t args rf = Inr (rf', r)" and "Log rf = []"
  shows "(rf' = rf \<or> rf' = rv_term_updated args rf) \<and> \<not> VoteGranted r"
  using assms
  by (auto simp: RequestVote_def Let_def go_index_def simp flip: rv_term_updated_def
      split: if_splits)

lemma RequestVote_granted:
  assumes "RequestVote t args rf = Inr (rf', r)" and "VoteGranted r"
  shows "CurrentTerm rf' = rv_Term args \<and> VoteFor rf' = CandidateId args"
  using assms RequestVote_empty [OF assms(1)]
  by (cases "Log rf = []") (auto simp: RequestVote_eq split: if_splits)


text \<open>A vote is never granted in a term the voter has left.\<close>

lemma granted_not_old:
  assumes "run_ops (\<lambda>(t, args). RequestVote t args) reqs rf = Inr (rf', rs)"
    and "k < length reqs" and "VoteGranted (rs ! k)"
  shows "CurrentTerm rf \<le> rv_Term (snd (reqs ! k))"
  using assms
proof (induction reqs arbitrary: rf rs k)
  case (Cons req reqs)
  obtain t args where req: "req = (t, args)" by (cases req)
  obtain rf1 r rs' where 1: "RequestVote t args rf = Inr (rf1, r)" and rs: "rs = r # rs'"
      and 2: "run_ops (\<lambda>(t, args). RequestVote t args) reqs rf1 = Inr (rf', rs')"
    using Cons.prems(1) req by (auto simp: go_simps split: prod.splits)
  have le: "CurrentTerm rf \<le> CurrentTerm rf1" using RequestVote_step [OF 1] by (simp add: peer_step_def)
  show ?case
  proof (cases k)
    case 0
    then show ?thesis using RequestVote_granted [OF 1] Cons.prems(3) req rs le by simp
  next
    case (Suc k')
    then show ?thesis using Cons.IH [OF 2, of k'] Cons.prems(2,3) rs le by simp
  qed
qed simp

lemma granted_again:
  assumes "run_ops (\<lambda>(t, args). RequestVote t args) reqs rf = Inr (rf', rs)"
    and "k < length reqs" and "VoteGranted (rs ! k)" and "rv_Term (snd (reqs ! k)) = CurrentTerm rf"
    and "VoteFor rf \<noteq> -1"
  shows "CandidateId (snd (reqs ! k)) = VoteFor rf"
  using assms
proof (induction reqs arbitrary: rf rs k)
  case (Cons req reqs)
  obtain t args where req: "req = (t, args)" by (cases req)
  obtain rf1 r rs' where 1: "RequestVote t args rf = Inr (rf1, r)" and rs: "rs = r # rs'"
      and 2: "run_ops (\<lambda>(t, args). RequestVote t args) reqs rf1 = Inr (rf', rs')"
    using Cons.prems(1) req by (auto simp: go_simps split: prod.splits)
  note st = RequestVote_step [OF 1, unfolded peer_step_def]
  show ?case
  proof (cases k)
    case 0
    then show ?thesis using RequestVote_granted [OF 1] Cons.prems(3-5) req rs st by simp
  next
    case (Suc k')
    then have "CurrentTerm rf1 \<le> CurrentTerm rf"
      using granted_not_old [OF 2, of k'] Cons.prems(2-4) rs by simp
    then have "CurrentTerm rf1 = CurrentTerm rf" "VoteFor rf1 = VoteFor rf" using st Cons.prems(5) by auto
    then show ?thesis using Cons.IH [OF 2, of k'] Cons.prems(2-5) rs Suc by simp
  qed
qed simp

section \<open>Properties\<close>

text \<open>
  C18. The \<^verbatim>\<open>RequestVote\<close> handler grants exactly the requests it should: the term is current, no other
  candidate has its vote in that term, and the candidate's log is at least as up to date as its own.
  The reply carries the larger of the two terms, a granted vote is recorded and on stable storage, and
  nothing happens to the log.
\<close>

theorem RequestVote_exact:
  assumes "Log rf \<noteq> []" and "saved rf"
  shows "\<exists>rf' reply. RequestVote t args rf = Inr (rf', reply) \<and>
    (VoteGranted reply \<longleftrightarrow>
       CurrentTerm rf \<le> rv_Term args \<and>
       (CurrentTerm rf < rv_Term args \<or> VoteFor rf = -1 \<or> VoteFor rf = CandidateId args) \<and>
       (Term (last (Log rf)) < LastLogTerm args \<or>
        Term (last (Log rf)) = LastLogTerm args \<and> len (Log rf) - 1 \<le> LastLogIndex args)) \<and>
    (VoteGranted reply \<longrightarrow> VoteFor rf' = CandidateId args \<and> state rf' = Follower) \<and>
    (\<not> VoteGranted reply \<longrightarrow>
       VoteFor rf' = (if CurrentTerm rf < rv_Term args then -1 else VoteFor rf) \<and>
       state rf' = (if CurrentTerm rf < rv_Term args then Follower else state rf)) \<and>
    CurrentTerm rf' = max (CurrentTerm rf) (rv_Term args) \<and> rvr_Term reply = CurrentTerm rf' \<and>
    Log rf' = Log rf \<and> saved rf'"
proof -
  obtain rf' reply where r: "RequestVote t args rf = Inr (rf', reply)"
    using RequestVote_eq [OF assms(1), of t args] by (auto split: if_splits)
  have "saved rf'" using RequestVote_step [OF r] assms(2) by (simp add: peer_step_def)
  then show ?thesis
    using r RequestVote_eq [OF assms(1), of t args]
    by (intro exI [of _ rf'] exI [of _ reply])
       (auto simp: may_vote_def up_to_date_def max_def split: if_splits)
qed

definition sample_voter :: Raft where
  "sample_voter = projr (Make [''a'', ''b'', ''c''] 1 MakePersister (0, 0))"

definition sample_ballot :: "int \<Rightarrow> int \<Rightarrow> RequestVoteArgs" where
  "sample_ballot c t = \<lparr>rv_Term = t, CandidateId = c, LastLogIndex = 0, LastLogTerm = 0\<rparr>"

theorem RequestVote_exact_witness:
  "\<exists>rf' reply. RequestVote (3, 4) (sample_ballot 2 1) sample_voter = Inr (rf', reply) \<and>
    VoteGranted reply \<and> VoteFor rf' = 2 \<and> saved rf'"
proof -
  have v: "Log sample_voter = [\<lparr>Command = None, Term = 0\<rparr>]" "CurrentTerm sample_voter = 0" by code_simp+
  moreover have "saved sample_voter" by code_simp
  ultimately show ?thesis
    using RequestVote_exact [of sample_voter "(3, 4)" "sample_ballot 2 1"]
    by (auto simp: sample_ballot_def)
qed

text \<open>
  Whatever requests a peer handles and in whatever order they arrive, two votes it grants in the
  same term go to the same candidate.
\<close>

theorem one_vote_per_term:
  assumes "run_ops (\<lambda>(t, args). RequestVote t args) reqs rf = Inr (rf', rs)"
    and "i < j" and "j < length reqs" and "VoteGranted (rs ! i)" and "VoteGranted (rs ! j)"
    and "rv_Term (snd (reqs ! i)) = rv_Term (snd (reqs ! j))"
    and "CandidateId (snd (reqs ! i)) \<noteq> -1"
  shows "CandidateId (snd (reqs ! i)) = CandidateId (snd (reqs ! j))"
  using assms
proof (induction reqs arbitrary: rf rs i j)
  case (Cons req reqs)
  obtain t args where req: "req = (t, args)" by (cases req)
  obtain rf1 r rs' where 1: "RequestVote t args rf = Inr (rf1, r)" and rs: "rs = r # rs'"
      and 2: "run_ops (\<lambda>(t, args). RequestVote t args) reqs rf1 = Inr (rf', rs')"
    using Cons.prems(1) req by (auto simp: go_simps split: prod.splits)
  obtain j' where j: "j = Suc j'" using Cons.prems(2) by (cases j) auto
  show ?case
  proof (cases i)
    case 0
    then show ?thesis
      using RequestVote_granted [OF 1] granted_again [OF 2, of j'] Cons.prems j req rs by simp
  next
    case (Suc i')
    then show ?thesis using Cons.IH [OF 2, of i' j'] Cons.prems j rs by simp
  qed
qed simp

theorem one_vote_per_term_witness:
  "\<exists>rf' rs. run_ops (\<lambda>(t, args). RequestVote t args)
      [((1, 1), sample_ballot 2 1), ((2, 2), sample_ballot 0 1), ((3, 3), sample_ballot 2 1)] sample_voter =
      Inr (rf', rs) \<and> map VoteGranted rs = [True, False, True] \<and>
    CandidateId (sample_ballot 2 1) = 2"
proof -
  let ?reqs = "[((1, 1), sample_ballot 2 1), ((2, 2), sample_ballot 0 1), ((3, 3), sample_ballot 2 1)] ::
    (tick \<times> RequestVoteArgs) list"
  have "case run_ops (\<lambda>(t, args). RequestVote t args) ?reqs sample_voter of
      Inl _ \<Rightarrow> False | Inr (rf', rs) \<Rightarrow> map VoteGranted rs = [True, False, True]"
    by code_simp
  then obtain rf' rs where r: "run_ops (\<lambda>(t, args). RequestVote t args) ?reqs sample_voter = Inr (rf', rs)"
      and g: "map VoteGranted rs = [True, False, True]"
    by (auto split: sum.splits)
  have "VoteGranted (rs ! 0)" "VoteGranted (rs ! 2)" using g by (auto simp: map_eq_Cons_conv)
  then have "CandidateId (snd (?reqs ! 0)) = CandidateId (snd (?reqs ! 2))"
    by (intro one_vote_per_term [OF r, of 0 2]) (simp_all add: sample_ballot_def)
  then show ?thesis using r g by (auto simp: sample_ballot_def)
qed

text \<open>
  Processing a vote reply makes a peer leader exactly when the reply is for its current term, grants
  the vote, finds the peer still a candidate, and completes a majority. A new leader has one
  \<^verbatim>\<open>nextIndex\<close> per peer, all one past its log, \<^verbatim>\<open>matchIndex\<close> zero, and keeps its log, term and vote.
\<close>

theorem election_won_exact:
  assumes "sized rf"
  shows "\<exists>rf' n' won. vote_reply args reply n rf = Inr (rf', n', won) \<and>
    (won \<longleftrightarrow> CurrentTerm rf = rv_Term args \<and> VoteGranted reply \<and> state rf = Candidate \<and>
       len (peers rf) div 2 + 1 \<le> n + 1) \<and>
    (won \<longrightarrow> state rf' = Leader \<and> leaderId rf' = me rf \<and> CurrentTerm rf' = CurrentTerm rf \<and>
       VoteFor rf' = VoteFor rf \<and> Log rf' = Log rf \<and>
       nextIndex rf' = replicate (length (peers rf)) (len (Log rf)) \<and>
       matchIndex rf' = replicate (length (peers rf)) 0) \<and>
    (\<not> won \<longrightarrow> state rf' = Leader \<longrightarrow> state rf = Leader)"
proof -
  have l: "leaderId (elected rf) = me rf" by (simp add: elected_def persist_def)
  consider (stale) "CurrentTerm rf \<noteq> rv_Term args"
    | (denied) "CurrentTerm rf = rv_Term args" "\<not> VoteGranted reply"
    | (won) "CurrentTerm rf = rv_Term args" "VoteGranted reply" "state rf = Candidate" "winThreshold rf \<le> n + 1"
    | (counted) "CurrentTerm rf = rv_Term args" "VoteGranted reply" "\<not> (state rf = Candidate \<and> winThreshold rf \<le> n + 1)"
    by blast
  then show ?thesis
  proof cases
    case stale
    then show ?thesis by (auto simp: vote_reply_def vote_is_stale_def)
  next
    case denied
    then show ?thesis by (auto simp: vote_reply_def vote_is_stale_def)
  next
    case won
    then show ?thesis
      using l by (auto simp: vote_reply_def vote_is_stale_def vote_granted_eq [OF assms] winThreshold_def)
  next
    case counted
    then have "vote_reply args reply n rf = Inr (rf, n + 1, False)"
      by (simp add: vote_reply_def vote_is_stale_def vote_granted_eq [OF assms])
    then show ?thesis using counted by (auto simp: winThreshold_def)
  qed
qed

theorem election_won_exact_witness:
  "\<exists>rf'. vote_reply (sample_ballot 1 1) \<lparr>rvr_Term = 1, VoteGranted = True\<rparr> 1
      (startElection (5, 5) sample_voter) = Inr (rf', 2, True) \<and> nextIndex rf' = [1, 1, 1]"
proof -
  let ?rf = "startElection (5, 5) sample_voter"
  have "sized ?rf" "length (peers ?rf) = 3" "len (Log ?rf) = 1" by code_simp+
  moreover have "case vote_reply (sample_ballot 1 1) \<lparr>rvr_Term = 1, VoteGranted = True\<rparr> 1 ?rf of
      Inl _ \<Rightarrow> False | Inr (rf', n', won) \<Rightarrow> n' = 2 \<and> won" by code_simp
  ultimately show ?thesis
    using election_won_exact [of ?rf "sample_ballot 1 1" "\<lparr>rvr_Term = 1, VoteGranted = True\<rparr>" 1]
    by (auto simp: numeral_3_eq_3)
qed

end
