(* ===== verification/Raft_Leader.thy ===== *)
theory Raft_Leader
  imports Raft_Append Raft_Vote
begin

text \<open>
  The leader's side of log replication in \<^verbatim>\<open>src/src/raft/raft.go\<close>: \<^verbatim>\<open>Start\<close>,
  \<^verbatim>\<open>broadcastHeartbeat\<close>, \<^verbatim>\<open>getNextIndex\<close> and the critical sections of the goroutine that
  \<^verbatim>\<open>broadcastAppendEntries\<close> runs for each peer.

  The sections of that goroutine are \<open>bae_is_leader\<close> and \<open>bae_same_term\<close> (the guards at the label
  \<^verbatim>\<open>retry\<close>), \<open>build_args\<close>, \<open>append_is_stale\<close>, \<open>append_rejected\<close> and \<open>append_accepted\<close>;
  \<open>append_reply\<close> is the processing of a reply with its sections back to back, \<open>replicate_loop\<close>
  the whole goroutine, with its \<^verbatim>\<open>goto retry\<close>, run against one reachable peer.

  Shown: the backtracking of \<^verbatim>\<open>nextIndex\<close> makes progress on every rejection and stays within the
  log, so the goroutine ends, and it ends with the peer's log equal to the leader's.
\<close>

section \<open>Backtracking\<close>

text \<open>The two loops of \<^verbatim>\<open>getNextIndex\<close>: back to an entry of the reported term, then to its last one.\<close>

function search_back :: "log \<Rightarrow> int \<Rightarrow> int \<Rightarrow> int \<Rightarrow> int result" where
  "search_back log ct i conflictIndex =
     (if i > 0
      then bindE (go_index log i)
             (\<lambda>e. if Term e = ct then Inr conflictIndex
                  else search_back log ct (i - 1) (conflictIndex - 1))
      else Inr conflictIndex)"
  by pat_completeness auto
termination
  by (relation "measure (\<lambda>(log, ct, i, ci). nat i)") auto

function search_forward :: "log \<Rightarrow> int \<Rightarrow> int \<Rightarrow> int \<Rightarrow> int \<Rightarrow> int result" where
  "search_forward log ct i next conflictIndex =
     (if i < next
      then bindE (go_index log i)
             (\<lambda>e. if Term e \<noteq> ct then Inr conflictIndex
                  else search_forward log ct (i + 1) next (conflictIndex + 1))
      else Inr conflictIndex)"
  by pat_completeness auto
termination
  by (relation "measure (\<lambda>(log, ct, i, next, ci). nat (next - i))") auto

declare search_back.simps [simp del] search_forward.simps [simp del]

definition getNextIndex :: "AppendEntriesReply \<Rightarrow> int \<Rightarrow> log \<Rightarrow> int result" where
  "getNextIndex reply next log =
     (if ConflictTerm reply = 0 then Inr (ConflictFirstIndex reply)
      else
        let conflictIndex = ConflictFirstIndex reply in
        bindE (go_index log conflictIndex) (\<lambda>e.
          let conflictTerm = Term e in
          if conflictTerm \<ge> ConflictTerm reply
          then bindE (search_back log (ConflictTerm reply) conflictIndex conflictIndex) (\<lambda>conflictIndex.
                 if conflictIndex \<noteq> 0
                 then bindE (search_forward log (ConflictTerm reply) (conflictIndex + 1) next conflictIndex)
                        (\<lambda>conflictIndex. Inr (conflictIndex + 1))
                 else Inr (ConflictFirstIndex reply))
          else Inr (ConflictFirstIndex reply)))"

section \<open>Start and broadcastHeartbeat\<close>

text \<open>The arguments \<^verbatim>\<open>broadcastAppendEntries\<close> is called with; \<^verbatim>\<open>nReplica\<close> is always 1.\<close>

record broadcast =
  bc_index :: int
  bc_term :: int
  bc_commit :: int

definition start_append :: "interface \<Rightarrow> int \<Rightarrow> Raft \<Rightarrow> Raft \<times> int" where
  "start_append command now rf =
     (let logEntry = \<lparr>Command = command, Term = CurrentTerm rf\<rparr>;
          rf = rf\<lparr>Log := Log rf @ [logEntry]\<rparr>;
          index = len (Log rf) - 1;
          rf = rf\<lparr>latestIssueTime := now\<rparr>;
          rf = persist rf
      in (rf, index))"

definition start_broadcast :: "int \<Rightarrow> Raft \<Rightarrow> broadcast" where
  "start_broadcast index rf =
     \<lparr>bc_index = index, bc_term = CurrentTerm rf, bc_commit = commitIndex rf\<rparr>"

text \<open>
  \<^verbatim>\<open>Start\<close> with its three critical sections back to back: the result triple, and the broadcast it
  launches when the peer is the leader.
\<close>

definition Start ::
  "interface \<Rightarrow> int \<Rightarrow> Raft \<Rightarrow> (Raft \<times> (int \<times> int \<times> bool) \<times> broadcast option) result" where
  "Start command now rf =
     (let (term, isLeader) = GetState rf in
      if isLeader
      then let (rf, index) = start_append command now rf
           in Inr (rf, (index, term, isLeader), Some (start_broadcast index rf))
      else Inr (rf, (-1, term, isLeader), None))"

definition broadcastHeartbeat :: "int \<Rightarrow> Raft \<Rightarrow> (Raft \<times> broadcast option) result" where
  "broadcastHeartbeat now rf =
     (if \<not> snd (GetState rf) then Inr (rf, None)
      else
        let rf = rf\<lparr>latestIssueTime := now\<rparr>;
            index = len (Log rf) - 1
        in Inr (rf, Some \<lparr>bc_index = index, bc_term = CurrentTerm rf, bc_commit = commitIndex rf\<rparr>))"

section \<open>The goroutine that replicates to one peer\<close>

definition bae_is_leader :: "Raft \<Rightarrow> bool" where
  "bae_is_leader rf = snd (GetState rf)"

definition bae_same_term :: "broadcast \<Rightarrow> Raft \<Rightarrow> bool" where
  "bae_same_term b rf \<longleftrightarrow> CurrentTerm rf = bc_term b"

definition broadcast_targets :: "Raft \<Rightarrow> int list" where
  "broadcast_targets rf = filter (\<lambda>i. i \<noteq> me rf) (map int [0..<length (peers rf)])"

definition build_args ::
  "int \<Rightarrow> broadcast \<Rightarrow> Raft \<Rightarrow> (AppendEntriesArgs \<times> int) result" where
  "build_args i b rf =
     bindE (go_index (nextIndex rf) i) (\<lambda>next.
       let prevLogIndex = next - 1 in
       bindE (go_index (Log rf) prevLogIndex) (\<lambda>e.
         bindE (if next < bc_index b + 1 then go_slice (Log rf) next (bc_index b + 1) else Inr [])
           (\<lambda>entries.
             Inr (\<lparr>ae_Term = bc_term b, LeaderId = me rf, PrevLogIndex = prevLogIndex,
                   PrevLogTerm = Term e, Entries = entries, LeaderCommit = bc_commit b\<rparr>, next))))"

definition append_is_stale :: "AppendEntriesArgs \<Rightarrow> Raft \<Rightarrow> bool" where
  "append_is_stale args rf \<longleftrightarrow> CurrentTerm rf \<noteq> ae_Term args"

text \<open>
  A rejected request: the boolean says whether the goroutine jumps back to \<^verbatim>\<open>retry\<close>. The last
  index read is the argument of the debug print, which Go evaluates whether it prints or not.
\<close>

definition append_rejected ::
  "int \<Rightarrow> AppendEntriesArgs \<Rightarrow> AppendEntriesReply \<Rightarrow> int \<Rightarrow> Raft \<Rightarrow> (Raft \<times> bool) result" where
  "append_rejected i args reply next rf =
     (if ae_Term args < aer_Term reply
      then
        let rf = rf\<lparr>CurrentTerm := aer_Term reply\<rparr>;
            rf = rf\<lparr>VoteFor := -1\<rparr>;
            rf = switchTo Follower rf;
            rf = persist rf
        in Inr (rf, False)
      else
        bindE (getNextIndex reply next (Log rf)) (\<lambda>next.
          bindE (go_update (nextIndex rf) i next) (\<lambda>ni.
            let rf = rf\<lparr>nextIndex := ni\<rparr> in
            bindE (go_index (Log rf) (next - 1)) (\<lambda>_. Inr (rf, True)))))"

text \<open>
  The variables \<^verbatim>\<open>nReplica\<close> and \<^verbatim>\<open>isAgree\<close> are shared by the goroutines of one broadcast; the
  boolean says whether the commit index advanced, in which case a heartbeat is started.
\<close>

record tally =
  nReplica :: int
  isAgree :: bool

definition majority :: "Raft \<Rightarrow> int" where
  "majority rf = len (peers rf) div 2 + 1"

definition append_accepted ::
  "int \<Rightarrow> int \<Rightarrow> tally \<Rightarrow> Raft \<Rightarrow> (Raft \<times> tally \<times> bool) result" where
  "append_accepted i index ta rf =
     bindE (go_index (nextIndex rf) i) (\<lambda>next.
     bindE (if next < index + 1
            then bindE (go_update (nextIndex rf) i (index + 1)) (\<lambda>ni.
                   bindE (go_update (matchIndex rf) i index) (\<lambda>mi.
                     Inr (rf\<lparr>nextIndex := ni, matchIndex := mi\<rparr>)))
            else Inr rf) (\<lambda>rf.
       let ta = ta\<lparr>nReplica := nReplica ta + 1\<rparr> in
       if \<not> isAgree ta \<and> state rf = Leader \<and> nReplica ta \<ge> majority rf
       then
         let ta = ta\<lparr>isAgree := True\<rparr> in
         if commitIndex rf < index
         then bindE (go_index (Log rf) index) (\<lambda>e.
                if Term e = CurrentTerm rf
                then Inr (rf\<lparr>commitIndex := index, applyCond := applyCond rf + 1\<rparr>, ta, True)
                else Inr (rf, ta, False))
         else Inr (rf, ta, False)
       else Inr (rf, ta, False)))"

text \<open>Processing a reply, with the staleness check and the branch in one section.\<close>

datatype reply_outcome = Dropped | SteppedDown | Retry | Replicated bool

definition append_reply ::
  "int \<Rightarrow> int \<Rightarrow> AppendEntriesArgs \<Rightarrow> AppendEntriesReply \<Rightarrow> int \<Rightarrow> tally \<Rightarrow> Raft
     \<Rightarrow> (Raft \<times> tally \<times> reply_outcome) result" where
  "append_reply i index args reply next ta rf =
     (if append_is_stale args rf then Inr (rf, ta, Dropped)
      else if \<not> Success reply
      then bindE (append_rejected i args reply next rf)
             (\<lambda>(rf, retry). Inr (rf, ta, if retry then Retry else SteppedDown))
      else bindE (append_accepted i index ta rf) (\<lambda>(rf, ta, adv). Inr (rf, ta, Replicated adv)))"

text \<open>
  The whole goroutine, talking to one peer that is reachable and changed by nothing else. The
  ticks are the clock readings of the handler in each round, numbered by the remaining fuel;
  \<open>None\<close> is "still retrying when the fuel ran out". The boolean is whether the peer accepted.
\<close>

fun replicate_loop ::
  "(nat \<Rightarrow> tick \<times> tick) \<Rightarrow> nat \<Rightarrow> int \<Rightarrow> broadcast \<Rightarrow> tally \<Rightarrow> Raft \<Rightarrow> Raft
     \<Rightarrow> (Raft \<times> Raft \<times> bool) result option" where
  "replicate_loop ts 0 i b ta rf fr = None"
| "replicate_loop ts (Suc n) i b ta rf fr =
     (if \<not> bae_is_leader rf \<or> \<not> bae_same_term b rf then Some (Inr (rf, fr, False))
      else
        (case build_args i b rf of
           Inl e \<Rightarrow> Some (Inl e)
         | Inr (args, next) \<Rightarrow>
             (case AppendEntries (fst (ts n)) (snd (ts n)) args fr of
                Inl e \<Rightarrow> Some (Inl e)
              | Inr (fr, reply) \<Rightarrow>
                  (case append_reply i (bc_index b) args reply next ta rf of
                     Inl e \<Rightarrow> Some (Inl e)
                   | Inr (rf, ta, Retry) \<Rightarrow> replicate_loop ts n i b ta rf fr
                   | Inr (rf, ta, Replicated adv) \<Rightarrow> Some (Inr (rf, fr, True))
                   | Inr (rf, ta, _) \<Rightarrow> Some (Inr (rf, fr, False))))))"

section \<open>Backtracking makes progress\<close>

lemma search_back_spec:
  assumes "0 \<le> i" and "i < len log"
  shows "\<exists>j. search_back log ct i i = Inr j \<and> 0 \<le> j \<and> j \<le> i \<and>
    (j \<noteq> 0 \<longrightarrow> Term (log ! nat j) = ct) \<and> (\<forall>k. j < int k \<and> int k \<le> i \<longrightarrow> Term (log ! k) \<noteq> ct)"
  using assms
proof (induction "nat i" arbitrary: i)
  case 0
  then have "i = 0" by simp
  moreover have "search_back log ct 0 0 = Inr 0" by (subst search_back.simps) simp
  ultimately show ?case by auto
next
  case (Suc n)
  then have i: "0 < i" and n: "n = nat (i - 1)" by auto
  show ?case
  proof (cases "Term (log ! nat i) = ct")
    case True
    then have "search_back log ct i i = Inr i"
      using i Suc.prems by (subst search_back.simps) simp
    then show ?thesis using True i by auto
  next
    case False
    obtain j where j: "search_back log ct (i - 1) (i - 1) = Inr j" "0 \<le> j" "j \<le> i - 1"
      "j \<noteq> 0 \<longrightarrow> Term (log ! nat j) = ct" "\<forall>k. j < int k \<and> int k \<le> i - 1 \<longrightarrow> Term (log ! k) \<noteq> ct"
      using Suc.hyps(1) [OF n] i Suc.prems by auto
    have "Term (log ! k) \<noteq> ct" if "j < int k" "int k \<le> i" for k
    proof (cases "int k = i")
      case True
      then have "k = nat i" by simp
      then show ?thesis using False by simp
    next
      case False
      then show ?thesis using j(5) that by auto
    qed
    moreover have "search_back log ct i i = Inr j"
      using False j(1) i Suc.prems by (subst search_back.simps) simp
    ultimately show ?thesis using j by auto
  qed
qed

lemma search_forward_spec:
  assumes "0 \<le> i" and "i < next" and "next \<le> len log"
  shows "\<exists>j. search_forward log ct (i + 1) next i = Inr j \<and> i \<le> j \<and> j < next \<and>
    (\<forall>k. i < int k \<and> int k \<le> j \<longrightarrow> Term (log ! k) = ct) \<and>
    (j + 1 < next \<longrightarrow> Term (log ! nat (j + 1)) \<noteq> ct)"
  using assms
proof (induction "nat (next - (i + 1))" arbitrary: i)
  case 0
  then show ?case by (simp add: search_forward.simps [of log ct "i + 1"])
next
  case (Suc n)
  then have i: "i + 1 < next" and n: "n = nat (next - (i + 1 + 1))" by auto
  show ?case
  proof (cases "Term (log ! nat (i + 1)) = ct")
    case True
    obtain j where j: "search_forward log ct (i + 1 + 1) next (i + 1) = Inr j" "i + 1 \<le> j" "j < next"
      "\<forall>k. i + 1 < int k \<and> int k \<le> j \<longrightarrow> Term (log ! k) = ct"
      "j + 1 < next \<longrightarrow> Term (log ! nat (j + 1)) \<noteq> ct"
      using Suc.hyps(1) [OF n] i Suc.prems by auto
    have "Term (log ! k) = ct" if "i < int k" "int k \<le> j" for k
    proof (cases "int k = i + 1")
      case True
      then have "k = nat (i + 1)" by simp
      then show ?thesis using \<open>Term (log ! nat (i + 1)) = ct\<close> by simp
    next
      case False
      then show ?thesis using j(4) that by auto
    qed
    moreover have "search_forward log ct (i + 1) next i = Inr j"
      using True j(1) i Suc.prems by (subst search_forward.simps) simp
    ultimately show ?thesis using j by auto
  next
    case False
    then have "search_forward log ct (i + 1) next i = Inr i"
      using i Suc.prems by (subst search_forward.simps) simp
    then show ?thesis using False i by auto
  qed
qed

text \<open>
  A well-formed log: the entry at index 0 is a placeholder of term 0, and every real entry has a
  positive term.
\<close>

definition wf_log :: "log \<Rightarrow> bool" where
  "wf_log log \<longleftrightarrow> log \<noteq> [] \<and> Term (log ! 0) = 0 \<and> (\<forall>k. 0 < k \<and> k < length log \<longrightarrow> 0 < Term (log ! k))"

text \<open>The report a well-formed peer makes about its log when the consistency check fails.\<close>

definition conflict_report :: "log \<Rightarrow> AppendEntriesArgs \<Rightarrow> AppendEntriesReply \<Rightarrow> bool" where
  "conflict_report F args reply \<longleftrightarrow>
     (if PrevLogIndex args < len F
      then ConflictTerm reply = Term (F ! nat (PrevLogIndex args)) \<and>
        ConflictTerm reply \<noteq> PrevLogTerm args \<and>
        starts_run F (PrevLogIndex args) (ConflictFirstIndex reply)
      else ConflictTerm reply = 0 \<and> ConflictFirstIndex reply = len F)"

lemma reject_report:
  assumes "AppendEntries t1 t2 args fr = Inr (fr', reply)" and "\<not> Success reply"
    and "CurrentTerm fr \<le> ae_Term args" and "0 \<le> PrevLogIndex args"
  shows "fr' = ae_term_updated t1 args fr \<and> aer_Term reply = ae_Term args \<and>
    conflict_report (Log fr) args reply"
proof -
  have "\<not> (PrevLogIndex args < len (Log fr) \<and>
      Term (Log fr ! nat (PrevLogIndex args)) = PrevLogTerm args)"
    using assms AppendEntries_accept [of fr args t1 t2] by auto
  then show ?thesis
    using AppendEntries_reject [of fr args t1 t2] assms by (auto simp: conflict_report_def)
qed

lemma conflict_report_bounds:
  assumes "conflict_report F args reply" and "wf_log F" and "0 \<le> PrevLogIndex args"
    and "PrevLogIndex args = 0 \<longrightarrow> PrevLogTerm args = 0"
  shows "1 \<le> ConflictFirstIndex reply \<and> ConflictFirstIndex reply \<le> PrevLogIndex args \<and>
    (ConflictTerm reply = 0 \<or> ConflictTerm reply \<noteq> PrevLogTerm args)"
proof (cases "PrevLogIndex args < len F")
  case True
  let ?p = "PrevLogIndex args" and ?j = "ConflictFirstIndex reply"
  have run: "starts_run F ?p ?j"
    and ct: "ConflictTerm reply = Term (F ! nat ?p)" "ConflictTerm reply \<noteq> PrevLogTerm args"
    using assms(1) True by (simp_all add: conflict_report_def)
  have j: "0 \<le> ?j" "?j \<le> ?p" "\<forall>k. ?j \<le> int k \<and> int k \<le> ?p \<longrightarrow> Term (F ! k) = Term (F ! nat ?p)"
    using run unfolding starts_run_def by blast+
  have p: "?p \<noteq> 0" using ct assms(2,4) by (auto simp: wf_log_def)
  have "?j \<noteq> 0"
  proof
    assume "?j = 0"
    then have "Term (F ! 0) = Term (F ! nat ?p)" using j(2) j(3) [rule_format, of 0] by simp
    moreover have "0 < Term (F ! nat ?p)" using assms(2,3) p True by (auto simp: wf_log_def)
    ultimately show False using assms(2) by (simp add: wf_log_def)
  qed
  then show ?thesis using j(1,2) ct by simp
next
  case False
  then show ?thesis using assms(1,2) by (cases F) (auto simp: conflict_report_def wf_log_def)
qed

lemma getNextIndex_progress:
  assumes report: "conflict_report F args reply" and wf: "wf_log F" "wf_log L"
    and prev: "0 \<le> PrevLogIndex args" "PrevLogIndex args < len L"
    and pterm: "PrevLogTerm args = Term (L ! nat (PrevLogIndex args))"
  shows "\<exists>n. getNextIndex reply (PrevLogIndex args + 1) L = Inr n \<and> 1 \<le> n \<and> n \<le> PrevLogIndex args"
proof -
  let ?p = "PrevLogIndex args" and ?ct = "ConflictTerm reply" and ?j = "ConflictFirstIndex reply"
  have b: "1 \<le> ?j" "?j \<le> ?p" "?ct = 0 \<or> ?ct \<noteq> Term (L ! nat ?p)"
    using conflict_report_bounds [OF report wf(1) prev(1)] pterm wf(2)
    by (auto simp: wf_log_def)
  show ?thesis
  proof (cases "?ct = 0 \<or> Term (L ! nat ?j) < ?ct")
    case True
    then have "getNextIndex reply (?p + 1) L = Inr ?j"
      using b prev by (auto simp: getNextIndex_def Let_def)
    then show ?thesis using b by simp
  next
    case False
    then have ct: "?ct \<noteq> 0" "Term (L ! nat ?j) \<ge> ?ct" by auto
    obtain c where c: "search_back L ?ct ?j ?j = Inr c" "0 \<le> c" "c \<le> ?j"
      "c \<noteq> 0 \<longrightarrow> Term (L ! nat c) = ?ct"
      using search_back_spec [of ?j L ?ct] b prev by auto
    show ?thesis
    proof (cases "c = 0")
      case True
      then have "getNextIndex reply (?p + 1) L = Inr ?j"
        using b prev c ct by (auto simp: getNextIndex_def Let_def)
      then show ?thesis using b by simp
    next
      case False
      obtain d where d: "search_forward L ?ct (c + 1) (?p + 1) c = Inr d" "c \<le> d" "d < ?p + 1"
        "\<forall>k. c < int k \<and> int k \<le> d \<longrightarrow> Term (L ! k) = ?ct"
        using search_forward_spec [of c "?p + 1" L ?ct] b prev c by auto
      have "Term (L ! nat d) = ?ct"
        using c d False by (cases "d = c") auto
      then have "d \<noteq> ?p" using b ct by auto
      moreover have "getNextIndex reply (?p + 1) L = Inr (d + 1)"
        using b prev c ct d False by (auto simp: getNextIndex_def Let_def)
      ultimately show ?thesis using c d by auto
    qed
  qed
qed

section \<open>The sections as operations on a peer\<close>

lemma start_append_sel [simp]:
  "state (fst (start_append c now rf)) = state rf"
  "CurrentTerm (fst (start_append c now rf)) = CurrentTerm rf"
  "VoteFor (fst (start_append c now rf)) = VoteFor rf" "me (fst (start_append c now rf)) = me rf"
  "peers (fst (start_append c now rf)) = peers rf" "saved (fst (start_append c now rf))"
  "Log (fst (start_append c now rf)) = Log rf @ [\<lparr>Command = c, Term = CurrentTerm rf\<rparr>]"
  "commitIndex (fst (start_append c now rf)) = commitIndex rf"
  "lastApplied (fst (start_append c now rf)) = lastApplied rf"
  "nextIndex (fst (start_append c now rf)) = nextIndex rf"
  "matchIndex (fst (start_append c now rf)) = matchIndex rf"
  "applyCh (fst (start_append c now rf)) = applyCh rf"
  "snd (start_append c now rf) = len (Log rf)"
  by (simp_all add: start_append_def Let_def)

lemma start_append_step: "peer_step rf (fst (start_append c now rf))"
  by (simp add: peer_step_def)

interpretation start_op: raft_op "\<lambda>(c, now). Start c now"
  by unfold_locales
     (auto simp: Start_def start_append_def Let_def GetState_def peer_step_def
        split: prod.splits if_splits)

interpretation heartbeat_op: raft_op broadcastHeartbeat
  by unfold_locales (auto simp: broadcastHeartbeat_def Let_def peer_step_def split: if_splits)

lemma append_rejected_step:
  assumes "append_rejected i args reply next rf = Inr (rf', x)" and "CurrentTerm rf = ae_Term args"
  shows "peer_step rf rf'"
  using assms
  by (auto simp: append_rejected_def Let_def go_simps peer_step_def split: if_splits)

lemma append_accepted_step:
  assumes "append_accepted i index ta rf = Inr (rf', x)"
  shows "peer_step rf rf' \<and> Log rf' = Log rf \<and> CurrentTerm rf' = CurrentTerm rf \<and> state rf' = state rf"
  using assms
  by (auto simp: append_accepted_def Let_def go_simps peer_step_def split: if_splits)

interpretation append_reply_op:
  raft_op "\<lambda>(i, index, args, reply, next, ta). append_reply i index args reply next ta"
  by unfold_locales
     (auto simp: append_reply_def append_is_stale_def go_simps split: if_splits prod.splits
        dest: append_rejected_step append_accepted_step)

section \<open>Replication to a peer ends, and ends in agreement\<close>

lemma build_args_eq:
  assumes "0 \<le> i" "i < len (nextIndex rf)" "nx = nextIndex rf ! nat i"
    and "1 \<le> nx" "nx \<le> len (Log rf)" and "bc_index b < len (Log rf)"
  shows "build_args i b rf =
    Inr (\<lparr>ae_Term = bc_term b, LeaderId = me rf, PrevLogIndex = nx - 1,
          PrevLogTerm = Term (Log rf ! nat (nx - 1)),
          Entries = take (nat (bc_index b + 1 - nx)) (drop (nat nx) (Log rf)),
          LeaderCommit = bc_commit b\<rparr>, nx)"
  using assms by (simp add: build_args_def go_slice_def Let_def)

lemma append_accepted_total:
  assumes "0 \<le> i" "i < len (nextIndex rf)" "i < len (matchIndex rf)"
    and "0 \<le> index" "index < len (Log rf)"
  shows "\<exists>rf' ta' adv. append_accepted i index ta rf = Inr (rf', ta', adv)"
  using assms by (auto simp: append_accepted_def go_update_def Let_def)

lemma append_rejected_retry:
  assumes "0 \<le> i" "i < len (nextIndex rf)" and "aer_Term reply \<le> ae_Term args"
    and "getNextIndex reply next (Log rf) = Inr n" "1 \<le> n" "n \<le> len (Log rf)"
  shows "append_rejected i args reply next rf =
    Inr (rf\<lparr>nextIndex := (nextIndex rf)[nat i := n]\<rparr>, True)"
  using assms by (simp add: append_rejected_def go_update_def Let_def)

text \<open>What the goroutine of a sitting leader may assume of the two peers.\<close>

definition replicating :: "int \<Rightarrow> broadcast \<Rightarrow> Raft \<Rightarrow> Raft \<Rightarrow> bool" where
  "replicating i b rf fr \<longleftrightarrow>
     state rf = Leader \<and> CurrentTerm rf = bc_term b \<and> CurrentTerm fr \<le> bc_term b \<and>
     0 \<le> i \<and> i < len (nextIndex rf) \<and> i < len (matchIndex rf) \<and>
     1 \<le> nextIndex rf ! nat i \<and> nextIndex rf ! nat i \<le> len (Log rf) \<and>
     0 \<le> bc_index b \<and> bc_index b < len (Log rf) \<and>
     wf_log (Log rf) \<and> wf_log (Log fr) \<and> log_matching (Log fr) (Log rf)"

lemma replicate_agree:
  assumes r: "replicating i b rf fr" and nx: "nx = nextIndex rf ! nat i"
    and args: "build_args i b rf = Inr (args, nx)"
    and acc: "AppendEntries t1 t2 args fr = Inr (fr', reply)" "Success reply"
  shows "take (nat (bc_index b + 1)) (Log fr') = take (nat (bc_index b + 1)) (Log rf)"
proof -
  let ?n = "nat (bc_index b + 1 - nx)" and ?p = "nat (nx - 1)"
  have bounds: "1 \<le> nx" "nx \<le> len (Log rf)" "bc_index b < len (Log rf)" and lm: "log_matching (Log fr) (Log rf)"
    using r nx by (auto simp: replicating_def)
  have a: "args = \<lparr>ae_Term = bc_term b, LeaderId = me rf, PrevLogIndex = nx - 1,
          PrevLogTerm = Term (Log rf ! ?p), Entries = take ?n (drop (nat nx) (Log rf)),
          LeaderCommit = bc_commit b\<rparr>"
    using args r build_args_eq [of i rf nx b] nx by (simp add: replicating_def)
  have p: "int ?p = nx - 1" "Suc ?p = nat nx" using bounds by auto
  have fr': "Log fr' = splice (Log fr) (nx - 1) (take ?n (drop (nat nx) (Log rf)))"
    and chk: "?p < length (Log fr)" "Term (Log fr ! ?p) = Term (Log rf ! ?p)"
    using acc by (cases rule: AppendEntries_cases; simp add: a)+
  have "take (Suc ?p + ?n) (splice (Log fr) (int ?p) (take ?n (drop (Suc ?p) (Log rf)))) =
      take (Suc ?p + ?n) (Log rf)"
    using chk bounds p by (intro splice_agree [OF lm]) auto
  then have "take (nat nx + ?n) (Log fr') = take (nat nx + ?n) (Log rf)"
    unfolding p fr' by simp
  then show ?thesis by (rule take_eq_le) (use bounds in linarith)
qed

section \<open>Sample peers\<close>

definition sample_leader :: Raft where
  "sample_leader =
     (projr (Make [''a'', ''b'', ''c''] 0 MakePersister (0, 0)))
       \<lparr>state := Leader, CurrentTerm := 3, nextIndex := [4, 4, 4],
        Log := [\<lparr>Command = None, Term = 0\<rparr>, \<lparr>Command = Some (TInt, VInt 1), Term = 1\<rparr>,
                \<lparr>Command = Some (TInt, VInt 2), Term = 3\<rparr>, \<lparr>Command = Some (TInt, VInt 3), Term = 3\<rparr>]\<rparr>"

definition sample_lagging :: Raft where
  "sample_lagging =
     (projr (Make [''a'', ''b'', ''c''] 1 MakePersister (0, 0)))
       \<lparr>CurrentTerm := 2,
        Log := [\<lparr>Command = None, Term = 0\<rparr>, \<lparr>Command = Some (TInt, VInt 1), Term = 1\<rparr>,
                \<lparr>Command = Some (TInt, VInt 9), Term = 2\<rparr>, \<lparr>Command = Some (TInt, VInt 8), Term = 2\<rparr>,
                \<lparr>Command = Some (TInt, VInt 7), Term = 2\<rparr>]\<rparr>"

definition sample_broadcast :: broadcast where
  "sample_broadcast = \<lparr>bc_index = 3, bc_term = 3, bc_commit = 1\<rparr>"

lemma sample_logs:
  "Log sample_leader = [\<lparr>Command = None, Term = 0\<rparr>, \<lparr>Command = Some (TInt, VInt 1), Term = 1\<rparr>,
     \<lparr>Command = Some (TInt, VInt 2), Term = 3\<rparr>, \<lparr>Command = Some (TInt, VInt 3), Term = 3\<rparr>]"
  "Log sample_lagging = [\<lparr>Command = None, Term = 0\<rparr>, \<lparr>Command = Some (TInt, VInt 1), Term = 1\<rparr>,
     \<lparr>Command = Some (TInt, VInt 9), Term = 2\<rparr>, \<lparr>Command = Some (TInt, VInt 8), Term = 2\<rparr>,
     \<lparr>Command = Some (TInt, VInt 7), Term = 2\<rparr>]"
  "nextIndex sample_leader = [4, 4, 4]" "CurrentTerm sample_leader = 3" "state sample_leader = Leader"
  "CurrentTerm sample_lagging = 2"
  by (simp_all add: sample_leader_def sample_lagging_def)

lemma sample_wf: "wf_log (Log sample_leader)" "wf_log (Log sample_lagging)"
  by (auto simp: wf_log_def sample_logs less_Suc_eq)

lemma sample_matching: "log_matching (Log sample_lagging) (Log sample_leader)"
  by (simp add: log_matching_def sample_logs All_less_Suc2 numeral_eq_Suc)

lemma sample_replicating: "replicating 1 sample_broadcast sample_leader sample_lagging"
proof -
  have "length (matchIndex sample_leader) = 3" by code_simp
  then show ?thesis
    by (simp add: replicating_def sample_wf sample_matching) (simp add: sample_logs sample_broadcast_def)
qed

section \<open>Properties\<close>

text \<open>
  C11. Replication to a reachable peer ends in agreement. When a leader with a well-formed log replicates
  through index \<^verbatim>\<open>index\<close> to a peer in no later term whose log matches its own, the goroutine of
  \<^verbatim>\<open>broadcastAppendEntries\<close>, retrying after every rejection, returns after at most \<^verbatim>\<open>nextIndex[i]\<close> rounds;
  the peer has then accepted, its log equals the leader's through \<^verbatim>\<open>index\<close>, and nothing panicked.
\<close>

theorem replicate_converges:
  assumes "replicating i b rf fr" and "nextIndex rf ! nat i \<le> int n"
  shows "\<exists>rf' fr'. replicate_loop ts n i b ta rf fr = Some (Inr (rf', fr', True)) \<and>
    Log rf' = Log rf \<and>
    take (nat (bc_index b + 1)) (Log fr') = take (nat (bc_index b + 1)) (Log rf)"
  using assms
proof (induction n arbitrary: rf fr ta)
  case 0
  then show ?case by (simp add: replicating_def)
next
  case (Suc n)
  define nx where "nx = nextIndex rf ! nat i"
  note r = Suc.prems(1)
  have b: "1 \<le> nx" "nx \<le> len (Log rf)" "0 \<le> i" "i < len (nextIndex rf)" "i < len (matchIndex rf)"
    "0 \<le> bc_index b" "bc_index b < len (Log rf)" "CurrentTerm fr \<le> bc_term b"
    using r by (auto simp: replicating_def nx_def)
  obtain args where args: "build_args i b rf = Inr (args, nx)" and
    a: "ae_Term args = bc_term b" "PrevLogIndex args = nx - 1"
      "PrevLogTerm args = Term (Log rf ! nat (nx - 1))"
    using build_args_eq [of i rf nx b] b nx_def by auto
  obtain fr1 reply where ae: "AppendEntries (fst (ts n)) (snd (ts n)) args fr = Inr (fr1, reply)"
    using AppendEntries_total [of args "fst (ts n)" "snd (ts n)" fr] a b by auto
  have lead: "bae_is_leader rf" "bae_same_term b rf"
    using r by (auto simp: replicating_def bae_is_leader_def bae_same_term_def GetState_def)
  have fresh: "\<not> append_is_stale args rf" using r a by (simp add: append_is_stale_def replicating_def)
  show ?case
  proof (cases "Success reply")
    case True
    obtain rf' ta' adv where acc: "append_accepted i (bc_index b) ta rf = Inr (rf', ta', adv)"
      using append_accepted_total b by blast
    have "replicate_loop ts (Suc n) i b ta rf fr = Some (Inr (rf', fr1, True))"
      using lead args ae fresh True acc by (simp add: append_reply_def)
    moreover have "Log rf' = Log rf" using append_accepted_step [OF acc] by simp
    ultimately show ?thesis using replicate_agree [OF r nx_def args ae True] by auto
  next
    case False
    have fr1: "fr1 = ae_term_updated (fst (ts n)) args fr" "aer_Term reply = ae_Term args"
      and rep: "conflict_report (Log fr) args reply"
      using reject_report [OF ae False] b a by auto
    obtain m where m: "getNextIndex reply nx (Log rf) = Inr m" "1 \<le> m" "m \<le> nx - 1"
      using getNextIndex_progress [OF rep, of "Log rf"] r a b by (auto simp: replicating_def)
    define rf1 where "rf1 = rf\<lparr>nextIndex := (nextIndex rf)[nat i := m]\<rparr>"
    have rej: "append_rejected i args reply nx rf = Inr (rf1, True)"
      unfolding rf1_def using m b fr1 by (intro append_rejected_retry) auto
    have "replicate_loop ts (Suc n) i b ta rf fr = replicate_loop ts n i b ta rf1 fr1"
      using lead args ae fresh False rej by (simp add: append_reply_def)
    moreover have "replicating i b rf1 fr1" and "nextIndex rf1 ! nat i \<le> int n"
      using r m b a Suc.prems(2) fr1 by (auto simp: replicating_def rf1_def nx_def)
    ultimately show ?thesis using Suc.IH [of rf1 fr1 ta] by (simp add: rf1_def)
  qed
qed

theorem replicate_converges_witness:
  "\<exists>rf' fr'. replicate_loop (\<lambda>k. ((int k, 0), (int k, 0))) 4 1 sample_broadcast
      \<lparr>nReplica = 1, isAgree = False\<rparr> sample_leader sample_lagging = Some (Inr (rf', fr', True)) \<and>
    take 4 (Log fr') = Log sample_leader"
proof -
  have "nextIndex sample_leader ! nat 1 \<le> int 4" by (simp add: sample_logs)
  then have "\<exists>rf' fr'. replicate_loop (\<lambda>k. ((int k, 0), (int k, 0))) 4 1 sample_broadcast
      \<lparr>nReplica = 1, isAgree = False\<rparr> sample_leader sample_lagging = Some (Inr (rf', fr', True)) \<and>
    Log rf' = Log sample_leader \<and>
    take (nat (bc_index sample_broadcast + 1)) (Log fr') =
      take (nat (bc_index sample_broadcast + 1)) (Log sample_leader)"
    by (rule replicate_converges [OF sample_replicating])
  moreover have "nat (bc_index sample_broadcast + 1) = 4" "take 4 (Log sample_leader) = Log sample_leader"
    by (simp_all add: sample_broadcast_def sample_logs)
  ultimately show ?thesis by auto
qed

text \<open>
  C20. A rejection always moves \<^verbatim>\<open>nextIndex\<close> strictly back and never below 1: whatever well-formed log the
  rejecting peer holds, \<^verbatim>\<open>getNextIndex\<close> on its reply finds an index of the leader's log before the one
  that was tried, without an index error.
\<close>

theorem rejection_moves_back:
  assumes "wf_log (Log rf)" and "wf_log (Log fr)" and "CurrentTerm fr \<le> bc_term b"
    and "0 \<le> i" and "i < len (nextIndex rf)" and "bc_index b < len (Log rf)"
    and "1 \<le> nextIndex rf ! nat i" and "nextIndex rf ! nat i \<le> len (Log rf)"
    and "build_args i b rf = Inr (args, nx)" and "AppendEntries t1 t2 args fr = Inr (fr', reply)"
    and "\<not> Success reply"
  shows "nx = nextIndex rf ! nat i \<and> aer_Term reply = bc_term b \<and>
    (\<exists>n. getNextIndex reply nx (Log rf) = Inr n \<and> 1 \<le> n \<and> n < nextIndex rf ! nat i)"
proof -
  have a: "nx = nextIndex rf ! nat i" "ae_Term args = bc_term b" "PrevLogIndex args = nx - 1"
      "PrevLogTerm args = Term (Log rf ! nat (nx - 1))"
    using build_args_eq [OF assms(4,5) refl assms(7,8,6)] assms(9) by auto
  have r: "aer_Term reply = ae_Term args" "conflict_report (Log fr) args reply"
    using reject_report [OF assms(10,11)] a assms(3,7) by auto
  have "\<exists>n. getNextIndex reply (PrevLogIndex args + 1) (Log rf) = Inr n \<and> 1 \<le> n \<and> n \<le> PrevLogIndex args"
    using a assms(1,2,7,8) by (intro getNextIndex_progress [OF r(2)]) auto
  then show ?thesis using a r by auto
qed

theorem rejection_moves_back_witness:
  "\<exists>args fr' reply n. build_args 1 sample_broadcast sample_leader = Inr (args, 4) \<and>
    AppendEntries (1, 1) (2, 2) args sample_lagging = Inr (fr', reply) \<and>
    getNextIndex reply 4 (Log sample_leader) = Inr n \<and> 1 \<le> n \<and> n < 4"
proof -
  have "case build_args 1 sample_broadcast sample_leader of Inl _ \<Rightarrow> False | Inr (args, nx) \<Rightarrow>
      (case AppendEntries (1, 1) (2, 2) args sample_lagging of Inl _ \<Rightarrow> False | Inr (fr', reply) \<Rightarrow>
        \<not> Success reply)"
    by code_simp
  then obtain args nx fr' reply where 1: "build_args 1 sample_broadcast sample_leader = Inr (args, nx)"
      and 2: "AppendEntries (1, 1) (2, 2) args sample_lagging = Inr (fr', reply)" "\<not> Success reply"
    by (auto split: sum.splits)
  then show ?thesis
    using rejection_moves_back [OF sample_wf _ _ _ _ _ _ 1 2]
    by (auto simp: sample_logs sample_broadcast_def)
qed

text \<open>
  \<^verbatim>\<open>Start\<close> on a leader appends the command as one entry of the leader's term, returns the index of that
  entry and the term, has the extended log on stable storage, and launches replication through that
  index; on any other peer it changes nothing and says so.
\<close>

theorem Start_exact:
  "(state rf = Leader \<longrightarrow>
      (\<exists>rf' b. Start c now rf = Inr (rf', (len (Log rf), CurrentTerm rf, True), Some b) \<and>
         Log rf' = Log rf @ [\<lparr>Command = c, Term = CurrentTerm rf\<rparr>] \<and> saved rf' \<and>
         state rf' = Leader \<and> CurrentTerm rf' = CurrentTerm rf \<and> VoteFor rf' = VoteFor rf \<and>
         commitIndex rf' = commitIndex rf \<and> latestIssueTime rf' = now \<and>
         bc_index b = len (Log rf) \<and> bc_term b = CurrentTerm rf \<and> bc_commit b = commitIndex rf)) \<and>
   (state rf \<noteq> Leader \<longrightarrow> Start c now rf = Inr (rf, (-1, CurrentTerm rf, False), None))"
proof -
  have "latestIssueTime (fst (start_append c now rf)) = now"
    by (simp add: start_append_def Let_def persist_def)
  then show ?thesis by (simp add: Start_def GetState_def start_broadcast_def Let_def split_beta)
qed

theorem Start_exact_witness:
  "\<exists>rf' b. Start (Some (TInt, VInt 5)) 9 sample_leader = Inr (rf', (4, 3, True), Some b) \<and> saved rf'"
  using Start_exact [of sample_leader "Some (TInt, VInt 5)" 9] by (auto simp: sample_logs)

text \<open>
  C19. A leader commits by counting replicas only for an entry of its own term (Raft's section 5.4.2). When
  an accepted reply is processed, the commit index moves if and only if this reply completes the majority
  of its broadcast for the first time, the peer is still leader, the index is beyond the commit index and
  its entry has the current term; then it becomes exactly that index. Otherwise it stays.
\<close>

theorem commit_rule:
  assumes "0 \<le> i" and "i < len (nextIndex rf)" and "i < len (matchIndex rf)"
    and "0 \<le> index" and "index < len (Log rf)"
  shows "\<exists>rf' ta' adv. append_accepted i index ta rf = Inr (rf', ta', adv) \<and>
    (adv \<longleftrightarrow> \<not> isAgree ta \<and> len (peers rf) div 2 + 1 \<le> nReplica ta + 1 \<and> state rf = Leader \<and>
       commitIndex rf < index \<and> Term (Log rf ! nat index) = CurrentTerm rf) \<and>
    commitIndex rf' = (if adv then index else commitIndex rf) \<and>
    nextIndex rf' ! nat i = max (nextIndex rf ! nat i) (index + 1) \<and> Log rf' = Log rf \<and>
    nReplica ta' = nReplica ta + 1"
proof (cases "nextIndex rf ! nat i < index + 1")
  case True
  then show ?thesis
    using assms by (auto simp: append_accepted_def go_update_def majority_def Let_def)
next
  case False
  then show ?thesis
    using assms by (auto simp: append_accepted_def go_update_def majority_def Let_def)
qed

theorem commit_rule_witness:
  "\<exists>rf' ta'. append_accepted 1 3 \<lparr>nReplica = 1, isAgree = False\<rparr> sample_leader = Inr (rf', ta', True) \<and>
    commitIndex rf' = 3"
proof -
  have "length (matchIndex sample_leader) = 3" "length (peers sample_leader) = 3"
    "commitIndex sample_leader = 0"
    by code_simp+
  then show ?thesis
    using commit_rule [of 1 sample_leader 3 "\<lparr>nReplica = 1, isAgree = False\<rparr>"]
    by (auto simp: sample_logs)
qed

end
