(* ===== verification/Raft_Apply.thy ===== *)
theory Raft_Apply
  imports Raft_Leader
begin

text \<open>
  The goroutine \<^verbatim>\<open>applyEntries\<close> of \<^verbatim>\<open>src/src/raft/raft.go\<close>, which hands committed entries to the
  service. It is the only code that writes \<^verbatim>\<open>lastApplied\<close> and the apply channel.

  \<open>apply_entry\<close> is the critical section of the inner loop with the send that follows it,
  \<open>apply_loop\<close> the loop, \<open>apply_pass\<close> one round of the outer loop (\<open>None\<close>: it waits on the condition
  variable). Shown: a pass delivers exactly the newly committed entries, in order, and the
  indices on the channel are 1, 2, 3, \<open>\<dots>\<close> without gap or repetition.
\<close>

definition apply_entry :: "int \<Rightarrow> Raft \<Rightarrow> Raft result" where
  "apply_entry i rf =
     bindE (go_index (Log rf) i) (\<lambda>e.
       let applyMsg = \<lparr>CommandValid = True, Command_msg = Command e, CommandIndex = i\<rparr>;
           rf = rf\<lparr>lastApplied := i\<rparr>
       in Inr (rf\<lparr>applyCh := applyCh rf @ [applyMsg]\<rparr>))"

function apply_loop :: "int \<Rightarrow> int \<Rightarrow> Raft \<Rightarrow> Raft result" where
  "apply_loop i commit rf =
     (if i \<le> commit then bindE (apply_entry i rf) (\<lambda>rf. apply_loop (i + 1) commit rf) else Inr rf)"
  by pat_completeness auto
termination
  by (relation "measure (\<lambda>(i, commit, rf). nat (commit + 1 - i))") auto

declare apply_loop.simps [simp del]

definition apply_pass :: "Raft \<Rightarrow> Raft option result" where
  "apply_pass rf =
     (let commit = commitIndex rf; applied = lastApplied rf in
      if applied = commit then Inr None
      else bindE (apply_loop (applied + 1) commit rf) (\<lambda>rf. Inr (Some rf)))"

text \<open>
  One iteration of the inner loop as a step on its own. The loop runs to the \<open>bound\<close> that the goroutine
  read before it, \<^verbatim>\<open>commitIndex\<close> at that time; since nothing else writes \<^verbatim>\<open>lastApplied\<close>, the loop variable
  is \<^verbatim>\<open>lastApplied+1\<close>.
\<close>

definition apply_step :: "int \<Rightarrow> Raft \<Rightarrow> Raft result option" where
  "apply_step bound rf =
     (if lastApplied rf < bound then Some (apply_entry (lastApplied rf + 1) rf) else None)"

section \<open>What is delivered\<close>

definition msg_at :: "log \<Rightarrow> int \<Rightarrow> ApplyMsg" where
  "msg_at log i = \<lparr>CommandValid = True, Command_msg = Command (log ! nat i), CommandIndex = i\<rparr>"

lemma apply_entry_eq:
  "0 \<le> i \<Longrightarrow> i < len (Log rf) \<Longrightarrow>
   apply_entry i rf = Inr (rf\<lparr>lastApplied := i, applyCh := applyCh rf @ [msg_at (Log rf) i]\<rparr>)"
  by (simp add: apply_entry_def msg_at_def)

lemma apply_entry_step: "apply_entry i rf = Inr rf' \<Longrightarrow> peer_step rf rf'"
  by (auto simp: apply_entry_def go_simps Let_def peer_step_def)

lemma apply_loop_eq:
  assumes "0 \<le> i" and "i \<le> commit + 1" and "commit < len (Log rf)"
  shows "apply_loop i commit rf =
    Inr (rf\<lparr>lastApplied := (if i \<le> commit then commit else lastApplied rf),
            applyCh := applyCh rf @ map (msg_at (Log rf)) [i..commit]\<rparr>)"
  using assms
proof (induction i commit rf rule: apply_loop.induct)
  case (1 i commit rf)
  show ?case
  proof (cases "i \<le> commit")
    case True
    let ?rf = "rf\<lparr>lastApplied := i, applyCh := applyCh rf @ [msg_at (Log rf) i]\<rparr>"
    have e: "apply_entry i rf = Inr ?rf" using True 1 by (intro apply_entry_eq) auto
    have "apply_loop i commit rf = apply_loop (i + 1) commit ?rf"
      using True e by (subst apply_loop.simps) simp
    also have "\<dots> = Inr (?rf\<lparr>lastApplied := (if i + 1 \<le> commit then commit else lastApplied ?rf),
        applyCh := applyCh ?rf @ map (msg_at (Log ?rf)) [i + 1..commit]\<rparr>)"
      using 1 True e by (intro 1(1) [OF True]) auto
    finally show ?thesis using True by (simp add: upto_rec1 [of i])
  next
    case False
    then show ?thesis by (subst apply_loop.simps) simp
  qed
qed

text \<open>The messages on the channel carry the indices from 1 to \<^verbatim>\<open>lastApplied\<close>, in this order.\<close>

definition applied_in_order :: "Raft \<Rightarrow> bool" where
  "applied_in_order rf \<longleftrightarrow>
     0 \<le> lastApplied rf \<and> map CommandIndex (applyCh rf) = [1..lastApplied rf]"

lemma apply_entry_in_order:
  assumes "applied_in_order rf" and "apply_entry (lastApplied rf + 1) rf = Inr rf'"
  shows "applied_in_order rf'"
  using assms
  by (auto simp: applied_in_order_def apply_entry_def go_simps Let_def upto_rec2)

lemma map_msg_index: "map CommandIndex (map (msg_at log) is) = is"
  by (induction "is") (auto simp: msg_at_def)

section \<open>Properties\<close>

text \<open>
  A pass of \<^verbatim>\<open>applyEntries\<close> over a peer whose commit index lies within its log ends without a panic.
  It waits when nothing is new; otherwise it appends to the channel exactly the entries between
  \<^verbatim>\<open>lastApplied\<close> and \<^verbatim>\<open>commitIndex\<close>, each once and in the order of the log, and sets \<^verbatim>\<open>lastApplied\<close> to the
  commit index. A channel that carried the indices 1, 2, 3, \<open>\<dots>\<close> before still does.
\<close>

theorem apply_pass_exact:
  assumes "0 \<le> lastApplied rf" and "lastApplied rf \<le> commitIndex rf" and "commitIndex rf < len (Log rf)"
  shows "\<exists>r. apply_pass rf = Inr r \<and> (r = None \<longleftrightarrow> lastApplied rf = commitIndex rf) \<and>
    (\<forall>rf'. r = Some rf' \<longrightarrow>
       applyCh rf' = applyCh rf @ map (msg_at (Log rf)) [lastApplied rf + 1..commitIndex rf] \<and>
       lastApplied rf' = commitIndex rf \<and> commitIndex rf' = commitIndex rf \<and> Log rf' = Log rf \<and>
       (applied_in_order rf \<longrightarrow> applied_in_order rf'))"
proof (cases "lastApplied rf = commitIndex rf")
  case True
  then show ?thesis by (simp add: apply_pass_def)
next
  case False
  have "[1..commitIndex rf] = [1..lastApplied rf] @ [lastApplied rf + 1..commitIndex rf]"
    using assms upto_split2 [of 1 "lastApplied rf" "commitIndex rf"] by (cases "lastApplied rf = 0") auto
  then show ?thesis
    using False assms apply_loop_eq [of "lastApplied rf + 1" "commitIndex rf" rf]
    by (simp add: apply_pass_def Let_def applied_in_order_def map_msg_index del: map_map)
qed

theorem apply_pass_exact_witness:
  "\<exists>rf'. apply_pass (sample_leader\<lparr>commitIndex := 2\<rparr>) = Inr (Some rf') \<and>
    map CommandIndex (applyCh rf') = [1, 2] \<and> lastApplied rf' = 2"
proof -
  let ?rf = "sample_leader\<lparr>commitIndex := 2\<rparr>"
  have s: "lastApplied ?rf = 0" "applyCh ?rf = []" "commitIndex ?rf = 2" "len (Log ?rf) = 4"
    by code_simp+
  then have "applied_in_order ?rf" by (simp add: applied_in_order_def)
  moreover have "[1..2::int] = [1, 2]" by code_simp
  ultimately show ?thesis
    using apply_pass_exact [of ?rf] s by (auto simp: applied_in_order_def)
qed

end
