(* ===== verification/Raft_Cluster.thy ===== *)
theory Raft_Cluster
  imports Raft_Apply
begin

text \<open>
  A cluster of Raft peers: the peers, the goroutines they have started, and the network between
  them (\<^verbatim>\<open>src/src/raft/raft.go\<close>, driven by \<^verbatim>\<open>src/src/raft/config.go\<close> over \<^verbatim>\<open>src/src/labrpc\<close>).

  A goroutine is a value of \<open>thread\<close> whose phase is the place where it last released its peer's
  mutex; one step of the cluster runs one critical section of one goroutine, executes one RPC
  handler, loses one call, lets a timer expire, passes a client command, delivers a committed entry
  or crashes and restarts a peer. The network delivers each request at most once, in any order and
  after any delay, and may lose a request or its reply. Theory \<open>Raft_Simulation\<close> shows that this describes the peers
  on the network and under the harness of the repository.

  A step has three outcomes: it is not enabled (\<open>None\<close>), it panics (\<open>Some (Inl \<dots>)\<close>), or it leads to
  the next state.

  Several goroutines release the mutex between testing a condition and acting on it. \<open>calm\<close> says of
  a step that what the goroutine tested still holds when it acts; theory \<open>Raft_Election_Safety\<close>
  proves safety for calm runs, theory \<open>Raft_Races\<close> shows what happens in the others.
\<close>

section \<open>Goroutines\<close>

datatype vphase =
    VSent RequestVoteArgs
  | VReplied RequestVoteArgs RequestVoteReply
  | VChecked RequestVoteArgs RequestVoteReply
  | VDone bool
  | VOrphan RequestVoteArgs

datatype aphase =
    ARetry
  | ALeader
  | ATerm
  | ASent AppendEntriesArgs int
  | AReplied AppendEntriesArgs AppendEntriesReply int
  | AChecked AppendEntriesArgs AppendEntriesReply int
  | ADone
  | AOrphan AppendEntriesArgs

datatype sphase = SEnter | SLeader int | SAppended int int

datatype hphase = HEnter | HLeader | HIssued

datatype bphase = BEnter | BLeader | BLoop "nat list"

text \<open>
  \<open>applying\<close> is the bound of the loop in which the goroutine \<^verbatim>\<open>applyEntries\<close> of a peer delivers entries; the
  goroutine is between two rounds of its outer loop when everything up to the bound is applied. \<open>applier\<close> says
  whether it runs, has found nothing to apply and released the mutex (\<open>Drowsy\<close>), or waits for the condition
  variable \<^verbatim>\<open>applyCond\<close>, with the number of broadcasts there had been when it began to wait (\<open>Asleep\<close>).

  \<open>ElectionLoop e i T js\<close>: the goroutine of \<^verbatim>\<open>startElection\<close> on peer \<open>i\<close> that still has to start calls
  to the peers \<open>js\<close>; \<open>e\<close> names the vote counter of this election. The term \<open>T\<close> in which the election
  was started is not a variable of the program (the code reads \<^verbatim>\<open>rf.CurrentTerm\<close> again for every
  peer); only \<open>calm\<close> looks at it. Likewise \<open>SAppended\<close> records the term of the appended entry.
\<close>

datatype applier_pc = Awake | Drowsy | Asleep nat

datatype thread =
    Idle
  | ElectionLoop nat nat int "nat list"
  | VoteCall nat nat nat vphase
  | StartCall nat interface sphase
  | Heartbeat nat hphase
  | Bcast nat nat broadcast bphase
  | AppendCall nat nat nat broadcast aphase

record cluster =
  size_of :: nat
  nodes :: "nat \<Rightarrow> Raft"
  threads :: "nat \<Rightarrow> thread"
  fresh :: nat
  nvotes :: "nat \<Rightarrow> int"
  fresh_election :: nat
  tallies :: "nat \<Rightarrow> tally"
  fresh_bcast :: nat
  applying :: "nat \<Rightarrow> int"
  applier :: "nat \<Rightarrow> applier_pc"

definition set_node :: "nat \<Rightarrow> Raft \<Rightarrow> cluster \<Rightarrow> cluster" where
  "set_node i rf s = s\<lparr>nodes := (nodes s)(i := rf)\<rparr>"

definition set_thread :: "nat \<Rightarrow> thread \<Rightarrow> cluster \<Rightarrow> cluster" where
  "set_thread p th s = s\<lparr>threads := (threads s)(p := th)\<rparr>"

definition spawn :: "thread \<Rightarrow> cluster \<Rightarrow> cluster" where
  "spawn th s = s\<lparr>threads := (threads s)(fresh s := th), fresh := fresh s + 1\<rparr>"

text \<open>A new call of \<^verbatim>\<open>broadcastAppendEntries\<close>, with its own \<^verbatim>\<open>nReplica\<close> and \<^verbatim>\<open>isAgree\<close>.\<close>

definition spawn_bcast :: "nat \<Rightarrow> broadcast \<Rightarrow> cluster \<Rightarrow> cluster" where
  "spawn_bcast i b s =
     (let k = fresh_bcast s;
          s = s\<lparr>tallies := (tallies s)(k := \<lparr>nReplica = 1, isAgree = False\<rparr>), fresh_bcast := k + 1\<rparr>
      in spawn (Bcast k i b BEnter) s)"

definition others :: "nat \<Rightarrow> nat \<Rightarrow> nat list" where
  "others n i = filter (\<lambda>j. j \<noteq> i) [0..<n]"

section \<open>One critical section of a goroutine\<close>

fun run_vote :: "nat \<Rightarrow> nat \<Rightarrow> nat \<Rightarrow> nat \<Rightarrow> vphase \<Rightarrow> cluster \<Rightarrow> cluster result option" where
  "run_vote p e i j (VReplied args reply) s =
     Some (Inr (set_thread p (VoteCall e i j
       (if vote_is_stale args (nodes s i) then VDone False else VChecked args reply)) s))"
| "run_vote p e i j (VChecked args reply) s =
     (if \<not> VoteGranted reply
      then Some (Inr (set_thread p (VoteCall e i j (VDone False))
             (set_node i (vote_denied reply (nodes s i)) s)))
      else Some (bindE (vote_granted (nvotes s e) (nodes s i)) (\<lambda>(rf, n, won).
             let s = set_node i rf (s\<lparr>nvotes := (nvotes s)(e := n)\<rparr>);
                 s = set_thread p (VoteCall e i j (VDone True)) s
             in Inr (if won then spawn (Heartbeat i HEnter) s else s))))"
| "run_vote p e i j ph s = None"

fun run_append ::
  "nat \<Rightarrow> nat \<Rightarrow> nat \<Rightarrow> nat \<Rightarrow> broadcast \<Rightarrow> aphase \<Rightarrow> cluster \<Rightarrow> cluster result option" where
  "run_append p k i j b ARetry s =
     Some (Inr (set_thread p (AppendCall k i j b (if bae_is_leader (nodes s i) then ALeader else ADone)) s))"
| "run_append p k i j b ALeader s =
     Some (Inr (set_thread p (AppendCall k i j b (if bae_same_term b (nodes s i) then ATerm else ADone)) s))"
| "run_append p k i j b ATerm s =
     Some (bindE (build_args (int j) b (nodes s i)) (\<lambda>(args, next).
       Inr (set_thread p (AppendCall k i j b (ASent args next)) s)))"
| "run_append p k i j b (AReplied args reply next) s =
     Some (Inr (set_thread p (AppendCall k i j b
       (if append_is_stale args (nodes s i) then ADone else AChecked args reply next)) s))"
| "run_append p k i j b (AChecked args reply next) s =
     (if \<not> Success reply
      then Some (bindE (append_rejected (int j) args reply next (nodes s i)) (\<lambda>(rf, retry).
             Inr (set_thread p (AppendCall k i j b (if retry then ARetry else ADone)) (set_node i rf s))))
      else Some (bindE (append_accepted (int j) (bc_index b) (tallies s k) (nodes s i)) (\<lambda>(rf, ta, adv).
             let s = set_node i rf (s\<lparr>tallies := (tallies s)(k := ta)\<rparr>);
                 s = set_thread p (AppendCall k i j b ADone) s
             in Inr (if adv then spawn (Heartbeat i HEnter) s else s))))"
| "run_append p k i j b ph s = None"

fun run_start :: "int \<Rightarrow> nat \<Rightarrow> nat \<Rightarrow> interface \<Rightarrow> sphase \<Rightarrow> cluster \<Rightarrow> cluster" where
  "run_start now p i c SEnter s =
     (let (term, isLeader) = GetState (nodes s i) in
      set_thread p (if isLeader then StartCall i c (SLeader term) else Idle) s)"
| "run_start now p i c (SLeader term) s =
     (let (rf, index) = start_append c now (nodes s i) in
      set_thread p (StartCall i c (SAppended index (CurrentTerm rf))) (set_node i rf s))"
| "run_start now p i c (SAppended index term) s =
     set_thread p Idle (spawn_bcast i (start_broadcast index (nodes s i)) s)"

fun run_heartbeat :: "int \<Rightarrow> nat \<Rightarrow> nat \<Rightarrow> hphase \<Rightarrow> cluster \<Rightarrow> cluster" where
  "run_heartbeat now p i HEnter s =
     set_thread p (if snd (GetState (nodes s i)) then Heartbeat i HLeader else Idle) s"
| "run_heartbeat now p i HLeader s =
     set_thread p (Heartbeat i HIssued) (set_node i ((nodes s i)\<lparr>latestIssueTime := now\<rparr>) s)"
| "run_heartbeat now p i HIssued s =
     set_thread p Idle (spawn_bcast i (start_broadcast (len (Log (nodes s i)) - 1) (nodes s i)) s)"

fun run_bcast :: "nat \<Rightarrow> nat \<Rightarrow> nat \<Rightarrow> broadcast \<Rightarrow> bphase \<Rightarrow> cluster \<Rightarrow> cluster" where
  "run_bcast p k i b BEnter s =
     set_thread p (if bae_is_leader (nodes s i) then Bcast k i b BLeader else Idle) s"
| "run_bcast p k i b BLeader s =
     set_thread p (if bae_same_term b (nodes s i) then Bcast k i b (BLoop (others (size_of s) i)) else Idle) s"
| "run_bcast p k i b (BLoop []) s = set_thread p Idle s"
| "run_bcast p k i b (BLoop (j # js)) s =
     set_thread p (Bcast k i b (BLoop js)) (spawn (AppendCall k i j b ARetry) s)"

definition run_thread :: "int \<Rightarrow> nat \<Rightarrow> cluster \<Rightarrow> cluster result option" where
  "run_thread now p s =
     (case threads s p of
        Idle \<Rightarrow> None
      | ElectionLoop e i T [] \<Rightarrow> Some (Inr (set_thread p Idle s))
      | ElectionLoop e i T (j # js) \<Rightarrow>
          Some (bindE (election_args (nodes s i)) (\<lambda>args.
            Inr (set_thread p (ElectionLoop e i T js) (spawn (VoteCall e i j (VSent args)) s))))
      | VoteCall e i j ph \<Rightarrow> run_vote p e i j ph s
      | StartCall i c ph \<Rightarrow> Some (Inr (run_start now p i c ph s))
      | Heartbeat i ph \<Rightarrow> Some (Inr (run_heartbeat now p i ph s))
      | Bcast k i b ph \<Rightarrow> Some (Inr (run_bcast p k i b ph s))
      | AppendCall k i j b ph \<Rightarrow> run_append p k i j b ph s)"

section \<open>The network\<close>

text \<open>Executing the handler of a request that is under way.\<close>

definition deliver :: "tick \<Rightarrow> tick \<Rightarrow> nat \<Rightarrow> cluster \<Rightarrow> cluster result option" where
  "deliver t1 t2 p s =
     (case threads s p of
        VoteCall e i j (VSent args) \<Rightarrow>
          Some (bindE (RequestVote t1 args (nodes s j)) (\<lambda>(rf, reply).
            Inr (set_thread p (VoteCall e i j (VReplied args reply)) (set_node j rf s))))
      | VoteCall e i j (VOrphan args) \<Rightarrow>
          Some (bindE (RequestVote t1 args (nodes s j)) (\<lambda>(rf, reply).
            Inr (set_thread p (VoteCall e i j (VDone False)) (set_node j rf s))))
      | AppendCall k i j b (ASent args next) \<Rightarrow>
          Some (bindE (AppendEntries t1 t2 args (nodes s j)) (\<lambda>(rf, reply).
            Inr (set_thread p (AppendCall k i j b (AReplied args reply next)) (set_node j rf s))))
      | AppendCall k i j b (AOrphan args) \<Rightarrow>
          Some (bindE (AppendEntries t1 t2 args (nodes s j)) (\<lambda>(rf, reply).
            Inr (set_thread p (AppendCall k i j b ADone) (set_node j rf s))))
      | _ \<Rightarrow> None)"

text \<open>A call that returns false: the request or its reply is lost.\<close>

definition lose :: "nat \<Rightarrow> cluster \<Rightarrow> cluster result option" where
  "lose p s =
     (case threads s p of
        VoteCall e i j (VSent args) \<Rightarrow> Some (Inr (set_thread p (VoteCall e i j (VDone False)) s))
      | VoteCall e i j (VReplied args reply) \<Rightarrow> Some (Inr (set_thread p (VoteCall e i j (VDone False)) s))
      | AppendCall k i j b (ASent args next) \<Rightarrow> Some (Inr (set_thread p (AppendCall k i j b ADone) s))
      | AppendCall k i j b (AReplied args reply next) \<Rightarrow>
          Some (Inr (set_thread p (AppendCall k i j b ADone) s))
      | _ \<Rightarrow> None)"

section \<open>Crashes\<close>

text \<open>
  What a crash of peer \<open>i\<close> leaves of a goroutine: nothing, except that a request already handed to
  the network may still reach its destination.
\<close>

fun kill_vote :: "vphase \<Rightarrow> vphase" where
  "kill_vote (VSent args) = VOrphan args"
| "kill_vote (VReplied args reply) = VDone False"
| "kill_vote (VChecked args reply) = VDone False"
| "kill_vote ph = ph"

fun kill_append :: "aphase \<Rightarrow> aphase" where
  "kill_append (ASent args next) = AOrphan args"
| "kill_append (AOrphan args) = AOrphan args"
| "kill_append ph = ADone"

fun kill_thread :: "nat \<Rightarrow> thread \<Rightarrow> thread" where
  "kill_thread c (VoteCall e i j ph) = VoteCall e i j (if i = c then kill_vote ph else ph)"
| "kill_thread c (AppendCall k i j b ph) = AppendCall k i j b (if i = c then kill_append ph else ph)"
| "kill_thread c (ElectionLoop e i T js) = (if i = c then Idle else ElectionLoop e i T js)"
| "kill_thread c (StartCall i cmd ph) = (if i = c then Idle else StartCall i cmd ph)"
| "kill_thread c (Heartbeat i ph) = (if i = c then Idle else Heartbeat i ph)"
| "kill_thread c (Bcast k i b ph) = (if i = c then Idle else Bcast k i b ph)"
| "kill_thread c Idle = Idle"

definition crash :: "tick \<Rightarrow> nat \<Rightarrow> string list \<Rightarrow> cluster \<Rightarrow> cluster result" where
  "crash t i ps s =
     bindE (Make ps (int i) (Copy (persister (nodes s i))) t) (\<lambda>rf.
       Inr (set_node i rf (s\<lparr>threads := (\<lambda>p. kill_thread i (threads s p)), applying := (applying s)(i := 0),
         applier := (applier s)(i := Awake)\<rparr>)))"

section \<open>Steps and runs\<close>

datatype action =
    Run int nat
  | Deliver tick tick nat
  | Lose nat
  | Timeout tick nat
  | Client nat interface
  | Beat nat
  | Pass nat
  | Doze nat
  | Wake nat
  | Apply nat
  | Crash tick nat "string list"

fun step :: "action \<Rightarrow> cluster \<Rightarrow> cluster result option" where
  "step (Run now p) s = run_thread now p s"
| "step (Deliver t1 t2 p) s = deliver t1 t2 p s"
| "step (Lose p) s = lose p s"
| "step (Timeout t i) s =
     (if i < size_of s
      then
        let e = fresh_election s;
            rf = startElection t (nodes s i);
            s = set_node i rf (s\<lparr>nvotes := (nvotes s)(e := 1), fresh_election := e + 1\<rparr>)
        in Some (Inr (spawn (ElectionLoop e i (CurrentTerm rf) (others (size_of s) i)) s))
      else None)"
| "step (Client i c) s =
     (if i < size_of s \<and> sendable c then Some (Inr (spawn (StartCall i c SEnter) s)) else None)"
| "step (Beat i) s = (if i < size_of s then Some (Inr (spawn (Heartbeat i HEnter) s)) else None)"
| "step (Pass i) s =
     (if i < size_of s \<and> applier s i = Awake \<and> applying s i \<le> lastApplied (nodes s i)
      then Some (Inr (if lastApplied (nodes s i) = commitIndex (nodes s i)
                      then s\<lparr>applier := (applier s)(i := Drowsy)\<rparr>
                      else s\<lparr>applying := (applying s)(i := commitIndex (nodes s i))\<rparr>))
      else None)"
| "step (Doze i) s =
     (if i < size_of s \<and> applier s i = Drowsy
      then Some (Inr (s\<lparr>applier := (applier s)(i := Asleep (applyCond (nodes s i)))\<rparr>)) else None)"
| "step (Wake i) s =
     (if i < size_of s \<and> (case applier s i of Asleep k \<Rightarrow> k < applyCond (nodes s i) | _ \<Rightarrow> False)
      then Some (Inr (s\<lparr>applier := (applier s)(i := Awake)\<rparr>)) else None)"
| "step (Apply i) s =
     (if i < size_of s \<and> applier s i = Awake
      then map_option (\<lambda>r. bindE r (\<lambda>rf. Inr (set_node i rf s))) (apply_step (applying s i) (nodes s i)) else None)"
| "step (Crash t i ps) s = (if i < size_of s \<and> length ps = size_of s then Some (crash t i ps s) else None)"

definition boot :: "nat \<Rightarrow> (nat \<Rightarrow> tick) \<Rightarrow> nat \<Rightarrow> Raft" where
  "boot n ts i = projr (Make (replicate n ''peer'') (int i) MakePersister (ts i))"

definition cluster_init :: "nat \<Rightarrow> (nat \<Rightarrow> tick) \<Rightarrow> cluster" where
  "cluster_init n ts =
     \<lparr>size_of = n, nodes = boot n ts, threads = (\<lambda>_. Idle), fresh = 0, nvotes = (\<lambda>_. 0),
      fresh_election = 0, tallies = (\<lambda>_. \<lparr>nReplica = 0, isAgree = False\<rparr>), fresh_bcast = 0, applying = (\<lambda>_. 0),
      applier = (\<lambda>_. Awake)\<rparr>"

fun exec :: "action list \<Rightarrow> cluster \<Rightarrow> cluster option" where
  "exec [] s = Some s"
| "exec (a # as) s = (case step a s of Some (Inr s') \<Rightarrow> exec as s' | _ \<Rightarrow> None)"

text \<open>
  The steps at which no goroutine acts on an outdated test: the election loop still runs in the
  term of its election, a reply is used in the term in which it was checked, a request is built by
  a leader of the broadcast's term, and a command is appended by a leader.
\<close>

definition calm :: "action \<Rightarrow> cluster \<Rightarrow> bool" where
  "calm a s =
     (case a of
        Run now p \<Rightarrow>
          (case threads s p of
             ElectionLoop e i T js \<Rightarrow> CurrentTerm (nodes s i) = T
           | VoteCall e i j (VChecked args reply) \<Rightarrow> CurrentTerm (nodes s i) = rv_Term args
           | StartCall i c (SLeader term) \<Rightarrow> state (nodes s i) = Leader
           | StartCall i c (SAppended index term) \<Rightarrow>
               state (nodes s i) = Leader \<and> CurrentTerm (nodes s i) = term
           | AppendCall k i j b ATerm \<Rightarrow>
               state (nodes s i) = Leader \<and> CurrentTerm (nodes s i) = bc_term b
           | AppendCall k i j b (AChecked args reply next) \<Rightarrow> CurrentTerm (nodes s i) = ae_Term args
           | _ \<Rightarrow> True)
      | _ \<Rightarrow> True)"

fun calm_run :: "action list \<Rightarrow> cluster \<Rightarrow> bool" where
  "calm_run [] s = True"
| "calm_run (a # as) s =
     (calm a s \<and> (case step a s of Some (Inr s') \<Rightarrow> calm_run as s' | _ \<Rightarrow> True))"

inductive reachable :: "nat \<Rightarrow> cluster \<Rightarrow> bool" for n where
  reach_init: "reachable n (cluster_init n ts)"
| reach_step: "reachable n s \<Longrightarrow> step a s = Some (Inr s') \<Longrightarrow> reachable n s'"

inductive calm_reachable :: "nat \<Rightarrow> cluster \<Rightarrow> bool" for n where
  calm_init: "calm_reachable n (cluster_init n ts)"
| calm_step: "calm_reachable n s \<Longrightarrow> calm a s \<Longrightarrow> step a s = Some (Inr s') \<Longrightarrow> calm_reachable n s'"

section \<open>Sample runs\<close>

definition t0 :: tick where
  "t0 = (0, 0)"

definition start3 :: cluster where
  "start3 = cluster_init 3 (\<lambda>_. t0)"

text \<open>A calm run: peer 0 is elected in term 1.\<close>

definition calm_election :: "action list" where
  "calm_election = [Timeout t0 0, Run 0 0, Run 0 0, Run 0 0, Deliver t0 t0 1, Run 0 1, Run 0 1]"

definition elected3 :: cluster where
  "elected3 = the (exec calm_election start3)"

lemma exec_reachable: "exec as s = Some s' \<Longrightarrow> reachable n s \<Longrightarrow> reachable n s'"
  by (induction "as" arbitrary: s) (auto split: option.splits sum.splits intro: reach_step)

lemma exec_calm:
  "exec as s = Some s' \<Longrightarrow> calm_run as s \<Longrightarrow> calm_reachable n s \<Longrightarrow> calm_reachable n s'"
  by (induction "as" arbitrary: s) (auto split: option.splits sum.splits intro: calm_step)

lemma exec_append: "exec (as @ bs) s = (case exec as s of None \<Rightarrow> None | Some s' \<Rightarrow> exec bs s')"
  by (induction "as" arbitrary: s) (auto split: option.splits sum.splits)

lemma calm_run_append: "calm_run (as @ bs) s \<longleftrightarrow> calm_run as s \<and> (case exec as s of None \<Rightarrow> True | Some s' \<Rightarrow> calm_run bs s')"
  by (induction "as" arbitrary: s) (auto split: option.splits sum.splits)

lemma elected3_reachable: "calm_reachable 3 elected3"
proof -
  have "exec calm_election start3 = Some elected3"
  proof -
    have "exec calm_election start3 \<noteq> None" by code_simp
    then show ?thesis by (simp add: elected3_def)
  qed
  moreover have "calm_run calm_election start3" by code_simp
  ultimately show ?thesis using exec_calm [OF _ _ calm_init] by (simp add: start3_def)
qed


lemma elected3_reachable_plain: "reachable 3 elected3"
proof -
  have "exec calm_election start3 \<noteq> None" by code_simp
  then have "exec calm_election start3 = Some elected3" by (simp add: elected3_def)
  then show ?thesis using exec_reachable [OF _ reach_init] by (simp add: start3_def)
qed

end
