(* ===== verification/Raft_Recovery.thy ===== *)
theory Raft_Recovery
  imports Raft_Cluster
begin

text \<open>
  What every run of a cluster keeps, however its goroutines interleave: the peers keep their
  identity, the persistent state of every peer is on its stable storage whenever its mutex is free,
  and every command under way can be encoded. A crash at any moment therefore restores the term,
  the vote and the log of the peer.

  The first section classifies the critical sections by their effect on role, term and vote; the
  safety proofs of the later theories use it too.
\<close>

section \<open>Effect of the critical sections on role, term and vote\<close>

text \<open>The sections that neither start an election nor win one.\<close>

definition quiet_step :: "Raft \<Rightarrow> Raft \<Rightarrow> bool" where
  "quiet_step rf rf' \<longleftrightarrow>
     peer_step rf rf' \<and>
     (state rf' = Follower \<or>
      state rf' = state rf \<and> CurrentTerm rf' = CurrentTerm rf \<and> VoteFor rf' = VoteFor rf)"

lemma quiet_step_refl [simp]: "quiet_step rf rf"
  by (simp add: quiet_step_def)

lemma quiet_AppendEntries:
  "AppendEntries t1 t2 args rf = Inr (rf', r) \<Longrightarrow> quiet_step rf rf'"
  by (erule AppendEntries_cases)
     (auto simp: quiet_step_def intro: ae_accepted_step ae_term_updated_step)

lemma quiet_RequestVote:
  assumes "RequestVote t args rf = Inr (rf', r)"
  shows "quiet_step rf rf'"
proof -
  have "state rf' = Follower \<or> rf' = rf \<or> rf' = rv_term_updated args rf"
    using assms RequestVote_empty [OF assms]
    by (cases "Log rf = []") (auto simp: RequestVote_eq split: if_splits)
  then show ?thesis
    using RequestVote_step [OF assms]
    by (auto simp: quiet_step_def rv_term_updated_def rv_newer_term_def Let_def)
qed

lemma quiet_vote_denied: "quiet_step rf (vote_denied r rf)"
  by (auto simp: quiet_step_def vote_denied_step)

lemma init_indices_state: "init_indices k rf = Inr rf' \<Longrightarrow> state rf' = state rf"
  by (induction k arbitrary: rf') (force simp: go_simps)+

lemma vote_granted_cases:
  assumes "vote_granted n rf = Inr (rf', n', won)"
  shows "n' = n + 1 \<and> peer_step rf rf' \<and>
    (if won then state rf = Candidate \<and> winThreshold rf \<le> n + 1 \<and> state rf' = Leader \<and>
         CurrentTerm rf' = CurrentTerm rf \<and> VoteFor rf' = VoteFor rf
     else rf' = rf)"
  using assms
  by (auto simp: vote_granted_def Let_def go_simps peer_step_def
      dest: init_indices_frame init_indices_state split: if_splits)

lemma quiet_append_rejected:
  assumes "append_rejected i args reply next rf = Inr (rf', x)" and "CurrentTerm rf = ae_Term args"
  shows "quiet_step rf rf'"
  using append_rejected_step [OF assms] assms
  by (auto simp: quiet_step_def append_rejected_def Let_def go_simps split: if_splits)

lemma quiet_append_accepted:
  assumes "append_accepted i index ta rf = Inr (rf', x)"
  shows "quiet_step rf rf'"
  using append_accepted_step [OF assms] assms
  by (auto simp: quiet_step_def append_accepted_def Let_def go_simps split: if_splits)

lemma quiet_start_append: "quiet_step rf (fst (start_append c now rf))"
  by (simp add: quiet_step_def start_append_step)

lemma quiet_issue: "quiet_step rf (rf\<lparr>latestIssueTime := now\<rparr>)"
  by (simp add: quiet_step_def peer_step_def)

lemma quiet_apply:
  assumes "apply_step bd rf = Some (Inr rf')"
  shows "quiet_step rf rf'"
  using assms apply_entry_step
  by (auto simp: apply_step_def quiet_step_def apply_entry_def go_simps Let_def split: if_splits)

lemma readPersist_term_vote:
  assumes "readPersist (persistData rf) rf0 = Inr rf'"
  shows "CurrentTerm rf' = CurrentTerm rf \<and> VoteFor rf' = VoteFor rf \<and> state rf' = state rf0 \<and>
    me rf' = me rf0 \<and> peers rf' = peers rf0 \<and> persister rf' = persister rf0"
  using assms
  by (auto simp: readPersist_def persistData_def gob_Encode_def decode_int_gob simp del: wire.simps
      split: option.splits prod.splits)

section \<open>Every peer can be restarted\<close>

text \<open>
  What holds of every peer and every goroutine in every run, calm or not: the identity of the
  peers, that the persistent state is on stable storage, and that every command under way can be
  encoded.
\<close>

fun thread_sendable :: "thread \<Rightarrow> bool" where
  "thread_sendable (StartCall i c ph) = sendable c"
| "thread_sendable (AppendCall k i j b (ASent args next)) = sendable_log (Entries args)"
| "thread_sendable (AppendCall k i j b (AOrphan args)) = sendable_log (Entries args)"
| "thread_sendable _ = True"

definition peer_ok :: "nat \<Rightarrow> nat \<Rightarrow> Raft \<Rightarrow> bool" where
  "peer_ok n v rf \<longleftrightarrow> me rf = int v \<and> length (peers rf) = n \<and> saved rf \<and> sendable_log (Log rf)"

definition data_inv :: "nat \<Rightarrow> cluster \<Rightarrow> bool" where
  "data_inv n s \<longleftrightarrow> size_of s = n \<and> (\<forall>v. peer_ok n v (nodes s v)) \<and> (\<forall>p. thread_sendable (threads s p))"

lemma Make_fresh:
  "Make ps i MakePersister t = Inr (resetElectionTimer t
     \<lparr>peers = ps, persister = MakePersister, me = i, applyCh = [], state = Follower, leaderId = -1,
      applyCond = 0, leaderCond = 0, nonLeaderCond = 0, electionTimeout = 0, heartbeatPeriod = 120,
      latestIssueTime = 0, latestHeardTime = 0, CurrentTerm = 0, VoteFor = -1,
      Log = [\<lparr>Command = None, Term = 0\<rparr>], commitIndex = 0, lastApplied = 0,
      nextIndex = replicate (length ps) 0, matchIndex = replicate (length ps) 0\<rparr>)"
  by (simp add: Make_def readPersist_def resetElectionTimer_def Let_def)

lemma Make_recovers_state:
  assumes "saved rf" and "sendable_log (Log rf)"
  shows "\<exists>rf'. Make ps i (Copy (persister rf)) t = Inr rf' \<and> CurrentTerm rf' = CurrentTerm rf \<and>
    VoteFor rf' = VoteFor rf \<and> Log rf' = Log rf \<and> state rf' = Follower \<and> me rf' = i \<and>
    peers rf' = ps \<and> saved rf' \<and> commitIndex rf' = 0 \<and> lastApplied rf' = 0 \<and> applyCh rf' = []"
proof (cases "ReadRaftState (persister rf) = persistData rf")
  case True
  then show ?thesis
    by (simp add: Make_def readPersist_persistData [OF assms(2)] Let_def resetElectionTimer_def)
       (simp add: saved_def persistData_def)
next
  case False
  then have e: "ReadRaftState (persister rf) = []" "CurrentTerm rf = 0" "VoteFor rf = -1"
      "Log rf = [\<lparr>Command = None, Term = 0\<rparr>]"
    using assms(1) by (auto simp: saved_def)
  then show ?thesis
    by (simp add: Make_def readPersist_def Let_def resetElectionTimer_def) (simp add: saved_def)
qed

lemma crash_step:
  assumes "crash t i ps s = Inr s'" and "peer_ok n i (nodes s i)" and "length ps = n"
  shows "\<exists>rf'. s' = set_node i rf' (s\<lparr>threads := (\<lambda>p. kill_thread i (threads s p)), applying := (applying s)(i := 0), applier := (applier s)(i := Awake)\<rparr>) \<and>
    quiet_step (nodes s i) rf' \<and> Log rf' = Log (nodes s i)"
proof -
  obtain rf' where m: "Make ps (int i) (Copy (persister (nodes s i))) t = Inr rf'"
      "CurrentTerm rf' = CurrentTerm (nodes s i)" "VoteFor rf' = VoteFor (nodes s i)"
      "Log rf' = Log (nodes s i)" "state rf' = Follower" "me rf' = int i"
      "peers rf' = ps" "saved rf'"
    using Make_recovers_state assms(2) unfolding peer_ok_def by blast
  then have "quiet_step (nodes s i) rf'"
    using assms(2,3) by (simp add: quiet_step_def peer_step_def peer_ok_def)
  then show ?thesis using assms(1) m by (auto simp: crash_def)
qed

lemma splice_sendable: "sendable_log log \<Longrightarrow> sendable_log es \<Longrightarrow> sendable_log (splice log p es)"
  by (simp add: splice_def sendable_log_take)

lemma AppendEntries_sendable:
  "AppendEntries t1 t2 args rf = Inr (rf', r) \<Longrightarrow> sendable_log (Log rf) \<Longrightarrow>
   sendable_log (Entries args) \<Longrightarrow> sendable_log (Log rf')"
  by (erule AppendEntries_cases) (auto intro: splice_sendable)

lemma RequestVote_log: "RequestVote t args rf = Inr (rf', r) \<Longrightarrow> Log rf' = Log rf"
  using RequestVote_empty [of t args rf rf' r]
  by (cases "Log rf = []") (auto simp: RequestVote_eq split: if_splits)

lemma build_args_sendable:
  "build_args i b rf = Inr (args, next) \<Longrightarrow> sendable_log (Log rf) \<Longrightarrow> sendable_log (Entries args)"
  by (auto simp: build_args_def go_simps Let_def split: if_splits
      intro!: sendable_log_take sendable_log_drop)

lemma append_rejected_log: "append_rejected i args reply next rf = Inr (rf', x) \<Longrightarrow> Log rf' = Log rf"
  by (auto simp: append_rejected_def Let_def go_simps split: if_splits)

lemma vote_granted_log: "vote_granted n rf = Inr (rf', x) \<Longrightarrow> Log rf' = Log rf"
  by (auto simp: vote_granted_def Let_def go_simps split: if_splits dest!: init_indices_frame)

lemma apply_step_log: "apply_step bd rf = Some (Inr rf') \<Longrightarrow> Log rf' = Log rf"
  by (auto simp: apply_step_def apply_entry_def go_simps Let_def split: if_splits)

lemma peer_ok_step:
  "peer_ok n v rf \<Longrightarrow> peer_step rf rf' \<Longrightarrow> sendable_log (Log rf') \<Longrightarrow> peer_ok n v rf'"
  by (simp add: peer_ok_def peer_step_def)

lemma append_rejected_ok:
  assumes "append_rejected i args reply next rf = Inr (rf', x)" and "peer_ok n v rf"
  shows "peer_ok n v rf'"
  using assms append_rejected_log [OF assms(1)]
  by (auto simp: append_rejected_def Let_def go_simps peer_ok_def split: if_splits)

lemma data_inv_updates [intro]:
  "data_inv n s \<Longrightarrow> peer_ok n i rf \<Longrightarrow> data_inv n (set_node i rf s)"
  "data_inv n s \<Longrightarrow> thread_sendable th \<Longrightarrow> data_inv n (set_thread p th s)"
  "data_inv n s \<Longrightarrow> thread_sendable th \<Longrightarrow> data_inv n (spawn th s)"
  "data_inv n s \<Longrightarrow> data_inv n (s\<lparr>nvotes := nv\<rparr>)"
  "data_inv n s \<Longrightarrow> data_inv n (s\<lparr>nvotes := nv, fresh_election := e\<rparr>)"
  "data_inv n s \<Longrightarrow> data_inv n (s\<lparr>tallies := tt\<rparr>)"
  "data_inv n s \<Longrightarrow> data_inv n (s\<lparr>applying := aa\<rparr>)" "data_inv n s \<Longrightarrow> data_inv n (s\<lparr>applier := ap\<rparr>)"
  "data_inv n s \<Longrightarrow> data_inv n (spawn_bcast i b s)"
  by (auto simp: data_inv_def set_node_def set_thread_def spawn_def spawn_bcast_def Let_def)

lemma data_invD: "data_inv n s \<Longrightarrow> peer_ok n v (nodes s v)" "data_inv n s \<Longrightarrow> thread_sendable (threads s p)"
  by (simp_all add: data_inv_def)

lemma peer_ok_ops:
  assumes ok: "peer_ok n v rf"
  shows "RequestVote t args rf = Inr (rf', r) \<Longrightarrow> peer_ok n v rf'"
    and "AppendEntries t1 t2 aargs rf = Inr (rf', ar) \<Longrightarrow> sendable_log (Entries aargs) \<Longrightarrow> peer_ok n v rf'"
    and "peer_ok n v (vote_denied r rf)"
    and "vote_granted k rf = Inr (rf', x) \<Longrightarrow> peer_ok n v rf'"
    and "append_accepted i index ta rf = Inr (rf', y) \<Longrightarrow> peer_ok n v rf'"
    and "sendable c \<Longrightarrow> peer_ok n v (fst (start_append c now rf))"
    and "peer_ok n v (rf\<lparr>latestIssueTime := now\<rparr>)"
    and "peer_ok n v (startElection tk rf)"
    and "apply_step bd rf = Some (Inr rf') \<Longrightarrow> peer_ok n v rf'"
proof -
  have l: "sendable_log (Log rf)" using ok by (simp add: peer_ok_def)
  show "peer_ok n v rf'" if "RequestVote t args rf = Inr (rf', r)"
    using peer_ok_step [OF ok RequestVote_step [OF that]] RequestVote_log [OF that] l by simp
  show "peer_ok n v rf'" if a: "AppendEntries t1 t2 aargs rf = Inr (rf', ar)" and "sendable_log (Entries aargs)"
    using peer_ok_step [OF ok, of rf'] quiet_AppendEntries [OF a] AppendEntries_sendable [OF a l] that(2)
    by (simp add: quiet_step_def)
  show "peer_ok n v (vote_denied r rf)"
    using peer_ok_step [OF ok vote_denied_step] l by simp
  show "peer_ok n v rf'" if "vote_granted k rf = Inr (rf', x)"
    using peer_ok_step [OF ok vote_granted_step [OF that]] vote_granted_log [OF that] l by simp
  show "peer_ok n v rf'" if "append_accepted i index ta rf = Inr (rf', y)"
    using append_accepted_step [OF that] peer_ok_step [OF ok, of rf'] l by simp
  show "peer_ok n v (fst (start_append c now rf))" if "sendable c"
    using peer_ok_step [OF ok start_append_step] l that by simp
  show "peer_ok n v (rf\<lparr>latestIssueTime := now\<rparr>)" using ok by (simp add: peer_ok_def)
  show "peer_ok n v (startElection tk rf)" using peer_ok_step [OF ok startElection_step] l by simp
  show "peer_ok n v rf'" if "apply_step bd rf = Some (Inr rf')"
    using peer_ok_step [OF ok, of rf'] quiet_apply [OF that] apply_step_log [OF that] l
    by (simp add: quiet_step_def)
qed

lemma kill_thread_sendable: "thread_sendable th \<Longrightarrow> thread_sendable (kill_thread c th)"
proof (cases th)
  case (AppendCall k i j b ph)
  then show "thread_sendable th \<Longrightarrow> thread_sendable (kill_thread c th)" by (cases ph) auto
qed auto

lemma data_inv_step:
  assumes inv: "data_inv n s" and st: "step a s = Some (Inr s')"
  shows "data_inv n s'"
proof (cases a)
  case (Run now p)
  show ?thesis
  proof (cases "threads s p")
    case (ElectionLoop e i T js)
    then show ?thesis using st inv Run
      by (cases js) (auto simp: run_thread_def go_simps intro!: data_inv_updates)
  next
    case (VoteCall e i j ph)
    note ops = peer_ok_ops [OF data_invD(1) [OF inv, of i]]
    show ?thesis using st inv Run VoteCall
      by (cases ph) (auto simp: run_thread_def go_simps Let_def split: if_splits
          intro!: data_inv_updates intro: ops(3,4))
  next
    case (StartCall i c ph)
    have "sendable c" using data_invD(2) [OF inv, of p] StartCall by simp
    moreover note ops = peer_ok_ops [OF data_invD(1) [OF inv, of i]]
    ultimately show ?thesis using st inv Run StartCall
      by (cases ph) (auto simp: run_thread_def Let_def split_beta
          intro!: data_inv_updates intro: ops(6))
  next
    case (Heartbeat i ph)
    note ops = peer_ok_ops [OF data_invD(1) [OF inv, of i]]
    show ?thesis using st inv Run Heartbeat
      by (cases ph) (auto simp: run_thread_def intro!: data_inv_updates intro: ops(7))
  next
    case (Bcast k i b ph)
    then show ?thesis using st inv Run
      by (cases "(p, k, i, b, ph, s)" rule: run_bcast.cases)
         (auto simp: run_thread_def intro!: data_inv_updates)
  next
    case (AppendCall k i j b ph)
    note ops = peer_ok_ops [OF data_invD(1) [OF inv, of i]]
    have l: "sendable_log (Log (nodes s i))" using data_invD(1) [OF inv, of i] by (simp add: peer_ok_def)
    show ?thesis using st inv Run AppendCall l
      by (cases ph) (auto simp: run_thread_def go_simps Let_def split: if_splits
          intro!: data_inv_updates dest: build_args_sendable
          intro: ops(5) append_rejected_ok [OF _ data_invD(1) [OF inv, of i]])
  qed (use st Run in \<open>simp add: run_thread_def\<close>)
next
  case (Deliver t1 t2 p)
  have ts: "thread_sendable (threads s p)" by (rule data_invD(2) [OF inv])
  show ?thesis
    using st inv Deliver ts
    by (auto simp: deliver_def go_simps split: thread.splits vphase.splits aphase.splits
        intro!: data_inv_updates intro: peer_ok_ops(1,2) [OF data_invD(1) [OF inv]])
next
  case (Lose p)
  then show ?thesis using st inv
    by (auto simp: lose_def split: thread.splits vphase.splits aphase.splits)
next
  case (Timeout t i)
  then show ?thesis using st inv
    by (auto simp: Let_def split: if_splits
        intro!: data_inv_updates peer_ok_ops(8) data_invD(1))
next
  case (Apply i)
  then show ?thesis using st inv
    by (auto simp: go_simps split: if_splits intro!: data_inv_updates
        intro: peer_ok_ops(9) [OF data_invD(1) [OF inv]])
next
  case (Crash t i ps)
  then obtain rf' where s': "s' = set_node i rf' (s\<lparr>threads := (\<lambda>p. kill_thread i (threads s p)), applying := (applying s)(i := 0), applier := (applier s)(i := Awake)\<rparr>)"
      and q: "quiet_step (nodes s i) rf'" "Log rf' = Log (nodes s i)"
    using st crash_step [of t i ps s s' n] data_invD(1) [OF inv] inv by (auto simp: data_inv_def split: if_splits)
  have "peer_ok n i rf'"
    using peer_ok_step [of n i "nodes s i" rf'] data_invD(1) [OF inv, of i] q
    by (simp add: quiet_step_def peer_ok_def)
  then show ?thesis
    unfolding s' using inv by (auto simp: data_inv_def set_node_def intro: kill_thread_sendable)
qed (use st inv in \<open>auto split: if_splits\<close>)

lemma boot_ok: "peer_ok n v (boot n ts v)"
  by (simp add: boot_def Make_fresh peer_ok_def) (simp add: saved_def)

lemma data_inv_init: "data_inv n (cluster_init n ts)"
  by (simp add: data_inv_def cluster_init_def boot_ok)

lemma data_inv_reachable: "reachable n s \<Longrightarrow> data_inv n s"
  by (induction rule: reachable.induct) (auto intro: data_inv_init data_inv_step)

section \<open>Entries are applied in order\<close>

text \<open>
  The critical sections a peer can go through in one step of the cluster; with \<open>c\<close> set, in a calm step.
\<close>

inductive peer_section :: "bool \<Rightarrow> Raft \<Rightarrow> Raft \<Rightarrow> bool" where
  sec_none: "peer_section c rf rf"
| sec_vote: "RequestVote t args rf = Inr (rf', r) \<Longrightarrow> peer_section c rf rf'"
| sec_append: "AppendEntries t1 t2 aargs rf = Inr (rf', ar) \<Longrightarrow> peer_section c rf rf'"
| sec_denied: "peer_section c rf (vote_denied r rf)"
| sec_granted: "vote_granted k rf = Inr (rf', x) \<Longrightarrow> peer_section c rf rf'"
| sec_rejected: "append_rejected i aargs reply nx rf = Inr (rf', z) \<Longrightarrow> (c \<longrightarrow> CurrentTerm rf = ae_Term aargs) \<Longrightarrow>
    peer_section c rf rf'"
| sec_accepted: "append_accepted i index ta rf = Inr (rf', y) \<Longrightarrow> peer_section c rf rf'"
| sec_start: "peer_section c rf (fst (start_append cmd now rf))"
| sec_issue: "peer_section c rf (rf\<lparr>latestIssueTime := now\<rparr>)"
| sec_timeout: "peer_section c rf (startElection tk rf)"
| sec_apply: "apply_step bd rf = Some (Inr rf') \<Longrightarrow> peer_section c rf rf'"
| sec_restart: "Make ps (me rf) (Copy (persister rf)) tk = Inr rf' \<Longrightarrow> length ps = length (peers rf) \<Longrightarrow> peer_section c rf rf'"

lemmas sec_intros = sec_vote sec_append sec_denied sec_granted sec_rejected sec_accepted sec_start
  sec_issue sec_timeout sec_apply

definition one_section :: "bool \<Rightarrow> cluster \<Rightarrow> cluster \<Rightarrow> bool" where
  "one_section c s s' \<longleftrightarrow> (\<exists>i rf. peer_section c (nodes s i) rf \<and> nodes s' = (nodes s)(i := rf))"

lemma one_section_same: "nodes s' = nodes s \<Longrightarrow> one_section c s s'"
  unfolding one_section_def by (metis fun_upd_triv sec_none)

lemma one_section_at: "peer_section c (nodes s i) rf \<Longrightarrow> nodes s' = (nodes s)(i := rf) \<Longrightarrow> one_section c s s'"
  unfolding one_section_def by blast

lemmas cluster_updates = set_node_def set_thread_def spawn_def spawn_bcast_def

lemma run_one_section:
  assumes "run_thread now p s = Some (Inr s')" and calm: "c \<longrightarrow> calm (Run now p) s"
  shows "one_section c s s'"
proof (cases "threads s p")
  case (ElectionLoop e i T js)
  then show ?thesis using assms
    by (cases js) (auto simp: run_thread_def go_simps cluster_updates intro!: one_section_same)
next
  case (VoteCall e i j ph)
  then show ?thesis using assms
    by (cases ph) (auto simp: run_thread_def go_simps cluster_updates Let_def split: if_splits
        intro: one_section_same one_section_at [of _ s i] sec_intros)
next
  case (StartCall i c ph)
  then show ?thesis using assms
    by (cases ph) (auto simp: run_thread_def cluster_updates Let_def split_beta
        intro: one_section_same one_section_at [of _ s i] sec_intros)
next
  case (Heartbeat i ph)
  then show ?thesis using assms
    by (cases ph) (auto simp: run_thread_def cluster_updates Let_def
        intro: one_section_same one_section_at [of _ s i] sec_intros)
next
  case (Bcast k i b ph)
  then show ?thesis using assms
    by (cases "(p, k, i, b, ph, s)" rule: run_bcast.cases)
       (auto simp: run_thread_def cluster_updates intro: one_section_same)
next
  case (AppendCall k i j b ph)
  have "c \<longrightarrow> CurrentTerm (nodes s i) = ae_Term args" if "ph = AChecked args reply nx" for args reply nx
    using calm AppendCall that by (simp add: calm_def)
  then show ?thesis using assms AppendCall
    by (cases ph) (auto simp: run_thread_def go_simps cluster_updates Let_def split: if_splits
        intro: one_section_same one_section_at [of _ s i] sec_intros)
qed (use assms in \<open>simp add: run_thread_def\<close>)

lemma step_one_section:
  assumes st: "step a s = Some (Inr s')" and d: "data_inv n s" and calm: "c \<longrightarrow> calm a s"
  shows "one_section c s s'"
proof (cases a)
  case (Run now p)
  then show ?thesis using st calm run_one_section by simp
next
  case (Deliver t1 t2 p)
  then show ?thesis using st
    by (auto simp: deliver_def go_simps cluster_updates split: thread.splits vphase.splits aphase.splits
        intro: one_section_at sec_intros)
next
  case (Lose p)
  then show ?thesis using st
    by (auto simp: lose_def cluster_updates split: thread.splits vphase.splits aphase.splits
        intro: one_section_same)
next
  case (Timeout t i)
  then show ?thesis using st
    by (auto simp: cluster_updates Let_def split: if_splits intro: one_section_at [of _ s i] sec_intros)
next
  case (Apply i)
  then show ?thesis using st
    by (auto simp: go_simps cluster_updates split: if_splits intro: one_section_at [of _ s i] sec_intros)
next
  case (Crash t i ps)
  have me: "me (nodes s i) = int i" "length (peers (nodes s i)) = n" using data_invD(1) [OF d, of i] by (simp_all add: peer_ok_def)
  obtain rf where "Make ps (int i) (Copy (persister (nodes s i))) t = Inr rf"
      and "nodes s' = (nodes s)(i := rf)" "length ps = n"
    using st Crash d by (auto simp: crash_def go_simps cluster_updates data_inv_def split: if_splits)
  then show ?thesis using me sec_restart [of ps "nodes s i" t rf c] by (intro one_section_at [of c s i rf]) auto
qed (use st in \<open>auto simp: cluster_updates split: if_splits intro: one_section_same\<close>)

text \<open>
  A property of single peers that every critical section preserves holds of all peers throughout a
  run.
\<close>

lemma peers_invariant:
  assumes "\<And>ts v. P (boot n ts v)" and "\<And>rf rf'. peer_section False rf rf' \<Longrightarrow> P rf \<Longrightarrow> P rf'"
  shows "reachable n s \<Longrightarrow> P (nodes s v)"
proof (induction arbitrary: v rule: reachable.induct)
  case (reach_init ts)
  then show ?case using assms(1) by (simp add: cluster_init_def)
next
  case (reach_step s a s')
  then have "one_section False s s'" using step_one_section [of a s s' n False] data_inv_reachable by simp
  then show ?case using reach_step.IH assms(2) by (auto simp: one_section_def)
qed

text \<open>
  No critical section but that of \<^verbatim>\<open>applyEntries\<close> touches \<^verbatim>\<open>lastApplied\<close> and the channel; a restart clears
  both.
\<close>

lemma init_indices_applied:
  "init_indices k rf = Inr rf' \<Longrightarrow> lastApplied rf' = lastApplied rf \<and> applyCh rf' = applyCh rf"
proof (induction k arbitrary: rf')
  case (Suc k)
  then show ?case by (force simp: go_simps)
qed simp

lemma init_indices_commit: "init_indices k rf = Inr rf' \<Longrightarrow> commitIndex rf' = commitIndex rf"
  by (induction k arbitrary: rf') (force simp: go_simps)+

lemma in_order_section: "peer_section c rf rf' \<Longrightarrow> applied_in_order rf \<Longrightarrow> applied_in_order rf'"
proof (induction rule: peer_section.induct)
  case (sec_vote t args rf rf' r)
  then show ?case
    using RequestVote_empty [OF sec_vote(1)]
    by (cases "Log rf = []") (auto simp: RequestVote_eq applied_in_order_def split: if_splits)
next
  case (sec_append t1 t2 aargs rf rf' ar)
  then show ?case
    by (cases rule: AppendEntries_cases) (simp_all add: applied_in_order_def)
next
  case (sec_granted k rf rf' x)
  then show ?case
    by (auto simp: vote_granted_def Let_def go_simps applied_in_order_def split: if_splits
        dest!: init_indices_applied)
next
  case (sec_rejected i aargs reply nx rf rf' z)
  then show ?case
    by (auto simp: append_rejected_def Let_def go_simps applied_in_order_def split: if_splits)
next
  case (sec_accepted i index ta rf rf' y)
  then show ?case
    by (auto simp: append_accepted_def Let_def go_simps applied_in_order_def split: if_splits)
next
  case (sec_apply bd rf rf')
  then show ?case using apply_entry_in_order by (auto simp: apply_step_def split: if_splits)
next
  case (sec_restart ps rf tk rf')
  then show ?case
    by (auto simp: Make_def readPersist_def applied_in_order_def Let_def go_simps
        split: if_splits option.splits)
qed (auto simp: applied_in_order_def)

lemma boot_in_order: "applied_in_order (boot n ts v)"
  by (simp add: boot_def Make_fresh applied_in_order_def)

text \<open>Every section of a calm step keeps the contract of theory \<open>Raft_State\<close>.\<close>

lemma calm_section_step: "peer_section True rf rf' \<Longrightarrow> peer_ok n v rf \<Longrightarrow> peer_step rf rf'"
proof (induction True rf rf' rule: peer_section.induct)
  case (sec_append t1 t2 aargs rf rf' ar)
  then show ?case using quiet_AppendEntries quiet_step_def by blast
next
  case (sec_apply bd rf rf')
  then show ?case using quiet_apply quiet_step_def by blast
next
  case (sec_restart ps rf tk rf')
  then show ?case
    using Make_recovers_state [of rf ps "me rf" tk] by (auto simp: peer_ok_def peer_step_def)
next
  case (sec_issue rf now)
  then show ?case using quiet_issue quiet_step_def by blast
qed (auto intro: RequestVote_step vote_denied_step vote_granted_step append_rejected_step
      start_append_step startElection_step dest: append_accepted_step)

section \<open>Properties\<close>

text \<open>
  C17. In every run of a cluster, however goroutines, messages, losses and crashes interleave, the messages
  each peer has put on its apply channel since its last restart carry the indices 1, 2, 3, \<open>\<dots>\<close> up to
  \<^verbatim>\<open>lastApplied\<close>: no entry is skipped, repeated or applied out of order.
\<close>

theorem applied_in_order_always:
  assumes "reachable n s"
  shows "0 \<le> lastApplied (nodes s v) \<and> map CommandIndex (applyCh (nodes s v)) = [1..lastApplied (nodes s v)]"
  using peers_invariant [of applied_in_order n s v, OF boot_in_order in_order_section assms] by (simp add: applied_in_order_def)

theorem applied_in_order_always_witness:
  "map CommandIndex (applyCh (nodes elected3 0)) = [1..lastApplied (nodes elected3 0)]"
  using applied_in_order_always [OF elected3_reachable_plain] by blast

text \<open>
  C12. Crash recovery. In every state of every run, a crash and restart of a peer with new client ends succeeds and brings the
  peer back as a follower with the term, the vote and the log it had, and with its persistent state still
  on stable storage; what was volatile (commit index, applied entries) starts from zero.
\<close>

theorem crash_recovers:
  assumes "reachable n s" and "i < n" and "length ps = n"
  shows "\<exists>s'. step (Crash t i ps) s = Some (Inr s') \<and> reachable n s' \<and>
    CurrentTerm (nodes s' i) = CurrentTerm (nodes s i) \<and> VoteFor (nodes s' i) = VoteFor (nodes s i) \<and>
    Log (nodes s' i) = Log (nodes s i) \<and> state (nodes s' i) = Follower \<and> saved (nodes s' i) \<and>
    commitIndex (nodes s' i) = 0 \<and> applyCh (nodes s' i) = [] \<and> (\<forall>v. v \<noteq> i \<longrightarrow> nodes s' v = nodes s v)"
proof -
  have d: "data_inv n s" by (rule data_inv_reachable [OF assms(1)])
  then have sz: "size_of s = n" and ok: "saved (nodes s i)" "sendable_log (Log (nodes s i))"
    by (auto simp: data_inv_def peer_ok_def)
  obtain rf' where m: "Make ps (int i) (Copy (persister (nodes s i))) t = Inr rf'"
      "CurrentTerm rf' = CurrentTerm (nodes s i)" "VoteFor rf' = VoteFor (nodes s i)"
      "Log rf' = Log (nodes s i)" "state rf' = Follower" "saved rf'" "commitIndex rf' = 0" "applyCh rf' = []"
    using Make_recovers_state [OF ok, of ps "int i" t] by blast
  let ?s = "set_node i rf' (s\<lparr>threads := (\<lambda>p. kill_thread i (threads s p)), applying := (applying s)(i := 0), applier := (applier s)(i := Awake)\<rparr>)"
  have st: "step (Crash t i ps) s = Some (Inr ?s)" using m(1) assms(2,3) sz by (simp add: crash_def)
  moreover have "reachable n ?s" by (rule reach_step [OF assms(1) st])
  ultimately show ?thesis using m by (intro exI [of _ ?s]) (simp add: set_node_def)
qed

theorem crash_recovers_witness:
  "\<exists>s'. step (Crash t0 0 [''a'', ''b'', ''c'']) elected3 = Some (Inr s') \<and> CurrentTerm (nodes s' 0) = 1 \<and>
     VoteFor (nodes s' 0) = 0 \<and> state (nodes s' 0) = Follower"
proof -
  have "CurrentTerm (nodes elected3 0) = 1 \<and> VoteFor (nodes elected3 0) = 0" by code_simp
  then show ?thesis using crash_recovers [OF elected3_reachable_plain, of 0 "[''a'', ''b'', ''c'']" t0] by (auto simp del: step.simps)
qed

end
