(* ===== verification/Raft_Election_Safety.thy ===== *)
theory Raft_Election_Safety
  imports Raft_Recovery
begin

text \<open>
  Election safety: in a calm run a term has at most one leader.

  The proof follows the votes. A history records, for every peer and every term, the candidate the
  peer voted for in that term; since each critical section is a \<open>peer_step\<close>, the history only grows
  and never changes (\<open>record_extends\<close>). The invariant \<open>ballot_inv\<close> says that the counter of an
  election is the number of distinct peers whose vote was counted, that these votes are in the
  history, and that a leader holds a majority of the votes of its term. Two majorities share a voter
  (locale \<open>quorums\<close>), who voted once.
\<close>

section \<open>The history of votes\<close>

type_synonym history = "nat \<times> int \<Rightarrow> int option"

definition record_votes :: "cluster \<Rightarrow> history \<Rightarrow> history" where
  "record_votes s H = (\<lambda>(v, t).
     if CurrentTerm (nodes s v) = t \<and> VoteFor (nodes s v) \<noteq> -1 then Some (VoteFor (nodes s v))
     else H (v, t))"

definition history_inv :: "cluster \<Rightarrow> history \<Rightarrow> bool" where
  "history_inv s H \<longleftrightarrow>
     (\<forall>v t. H (v, t) \<noteq> None \<longrightarrow> t \<le> CurrentTerm (nodes s v)) \<and>
     (\<forall>v. H (v, CurrentTerm (nodes s v)) =
        (if VoteFor (nodes s v) = -1 then None else Some (VoteFor (nodes s v))))"

lemma map_leD: "H \<subseteq>\<^sub>m H' \<Longrightarrow> H x = Some y \<Longrightarrow> H' x = Some y"
  by (metis domI map_le_def)

lemma history_invD:
  assumes "history_inv s H" and "H (v, CurrentTerm (nodes s v)) = Some c"
  shows "VoteFor (nodes s v) = c \<and> c \<noteq> -1"
proof -
  have "H (v, CurrentTerm (nodes s v)) =
      (if VoteFor (nodes s v) = -1 then None else Some (VoteFor (nodes s v)))"
    using assms(1) by (simp add: history_inv_def)
  then show ?thesis using assms(2) by (auto split: if_splits)
qed

lemma record_extends:
  assumes inv: "history_inv s H" and st: "\<And>v. peer_step (nodes s v) (nodes s' v)"
  shows "H \<subseteq>\<^sub>m record_votes s' H"
proof -
  have "record_votes s' H (v, t) = Some c" if h: "H (v, t) = Some c" for v t c
  proof (cases "CurrentTerm (nodes s' v) = t \<and> VoteFor (nodes s' v) \<noteq> -1")
    case True
    have "t \<le> CurrentTerm (nodes s v)" using inv h by (auto simp: history_inv_def)
    then have "CurrentTerm (nodes s v) = t" using st [of v] True by (auto simp: peer_step_def)
    then have "VoteFor (nodes s v) = c" "VoteFor (nodes s v) \<noteq> -1"
      using history_invD [OF inv, of v c] h by auto
    then have "VoteFor (nodes s' v) = c"
      using st [of v] True \<open>CurrentTerm (nodes s v) = t\<close> by (auto simp: peer_step_def)
    then show ?thesis using True by (simp add: record_votes_def)
  next
    case False
    then show ?thesis using h by (auto simp: record_votes_def)
  qed
  then show ?thesis by (auto simp: map_le_def)
qed

lemma history_inv_step:
  assumes inv: "history_inv s H" and st: "\<And>v. peer_step (nodes s v) (nodes s' v)"
  shows "history_inv s' (record_votes s' H)"
  unfolding history_inv_def
proof (intro conjI allI impI)
  fix v t
  assume "record_votes s' H (v, t) \<noteq> None"
  then have "t = CurrentTerm (nodes s' v) \<or> H (v, t) \<noteq> None"
    by (auto simp: record_votes_def split: if_splits)
  then show "t \<le> CurrentTerm (nodes s' v)"
    using inv st [of v] unfolding history_inv_def peer_step_def by force
next
  fix v
  show "record_votes s' H (v, CurrentTerm (nodes s' v)) =
      (if VoteFor (nodes s' v) = -1 then None else Some (VoteFor (nodes s' v)))"
  proof (cases "VoteFor (nodes s' v) = -1")
    case True
    have "H (v, CurrentTerm (nodes s' v)) = None"
    proof (cases "CurrentTerm (nodes s' v) = CurrentTerm (nodes s v)")
      case same: True
      then have "VoteFor (nodes s v) = -1" using st [of v] True by (auto simp: peer_step_def)
      then show ?thesis using inv same by (simp add: history_inv_def)
    next
      case False
      then have "CurrentTerm (nodes s v) < CurrentTerm (nodes s' v)"
        using st [of v] by (auto simp: peer_step_def)
      then show ?thesis using inv unfolding history_inv_def by force
    qed
    then show ?thesis using True by (simp add: record_votes_def)
  next
    case False
    then show ?thesis by (simp add: record_votes_def)
  qed
qed

lemma record_current:
  "VoteFor (nodes s v) \<noteq> -1 \<Longrightarrow> record_votes s H (v, CurrentTerm (nodes s v)) = Some (VoteFor (nodes s v))"
  by (simp add: record_votes_def)

section \<open>The ballot invariant\<close>

text \<open>
  Election \<open>e\<close> was started by peer \<open>ec e\<close> in term \<open>et e\<close>. \<open>phase_ok\<close> is what the phase of a vote
  call says about the request, the reply and the history.
\<close>

fun phase_ok :: "history \<Rightarrow> int \<Rightarrow> nat \<Rightarrow> nat \<Rightarrow> vphase \<Rightarrow> bool" where
  "phase_ok H T i j (VSent args) = (rv_Term args = T \<and> CandidateId args = int i)"
| "phase_ok H T i j (VReplied args reply) =
     (rv_Term args = T \<and> CandidateId args = int i \<and> (VoteGranted reply \<longrightarrow> H (j, T) = Some (int i)))"
| "phase_ok H T i j (VChecked args reply) =
     (rv_Term args = T \<and> CandidateId args = int i \<and> (VoteGranted reply \<longrightarrow> H (j, T) = Some (int i)))"
| "phase_ok H T i j (VDone counted) = (counted \<longrightarrow> H (j, T) = Some (int i))"
| "phase_ok H T i j (VOrphan args) = True"

fun thread_ok :: "nat \<Rightarrow> history \<Rightarrow> (nat \<Rightarrow> int) \<Rightarrow> (nat \<Rightarrow> nat) \<Rightarrow> nat \<Rightarrow> thread \<Rightarrow> bool" where
  "thread_ok n H et ec m (VoteCall e i j ph) =
     (e < m \<and> i = ec e \<and> j < n \<and> j \<noteq> i \<and> phase_ok H (et e) i j ph)"
| "thread_ok n H et ec m (ElectionLoop e i T js) =
     (e < m \<and> i = ec e \<and> T = et e \<and> set js \<subseteq> {..<n} - {i} \<and> distinct js)"
| "thread_ok n H et ec m _ = True"

text \<open>The peers a goroutine of election \<open>e\<close> has called or will call.\<close>

fun calls :: "nat \<Rightarrow> thread \<Rightarrow> nat set" where
  "calls e (VoteCall e' i j ph) = (if e' = e then {j} else {})"
| "calls e (ElectionLoop e' i T js) = (if e' = e then set js else {})"
| "calls e _ = {}"

definition counted :: "cluster \<Rightarrow> nat \<Rightarrow> nat set" where
  "counted s e = {j. \<exists>p i. threads s p = VoteCall e i j (VDone True)}"

definition ballot_inv :: "nat \<Rightarrow> cluster \<Rightarrow> history \<Rightarrow> (nat \<Rightarrow> int) \<Rightarrow> (nat \<Rightarrow> nat) \<Rightarrow> bool" where
  "ballot_inv n s H et ec \<longleftrightarrow>
     (\<forall>p. thread_ok n H et ec (fresh_election s) (threads s p)) \<and>
     (\<forall>p \<ge> fresh s. threads s p = Idle) \<and>
     (\<forall>p q e. p \<noteq> q \<longrightarrow> calls e (threads s p) \<inter> calls e (threads s q) = {}) \<and>
     (\<forall>e < fresh_election s. ec e < n \<and> H (ec e, et e) = Some (int (ec e)) \<and>
        nvotes s e = 1 + int (card (counted s e))) \<and>
     (\<forall>v. state (nodes s v) = Leader \<longrightarrow>
        (\<exists>Q. majority_of n Q \<and> (\<forall>u \<in> Q. H (u, CurrentTerm (nodes s v)) = Some (int v))))"

lemma ballot_invD:
  assumes "ballot_inv n s H et ec"
  shows "thread_ok n H et ec (fresh_election s) (threads s p)"
    and "fresh s \<le> p \<Longrightarrow> threads s p = Idle"
    and "p \<noteq> q \<Longrightarrow> calls e (threads s p) \<inter> calls e (threads s q) = {}"
    and "e < fresh_election s \<Longrightarrow> ec e < n \<and> H (ec e, et e) = Some (int (ec e)) \<and>
          nvotes s e = 1 + int (card (counted s e))"
    and "state (nodes s v) = Leader \<Longrightarrow>
          \<exists>Q. majority_of n Q \<and> (\<forall>u \<in> Q. H (u, CurrentTerm (nodes s v)) = Some (int v))"
  using assms by (auto simp: ballot_inv_def)

lemma phase_ok_mono: "phase_ok H T i j ph \<Longrightarrow> H \<subseteq>\<^sub>m H' \<Longrightarrow> phase_ok H' T i j ph"
  by (cases ph) (auto dest: map_leD)

lemma thread_ok_mono: "thread_ok n H et ec m th \<Longrightarrow> H \<subseteq>\<^sub>m H' \<Longrightarrow> thread_ok n H' et ec m th"
  by (cases th) (auto intro: phase_ok_mono)

text \<open>
  Changes of a goroutine that do not touch the ballot: it is no vote goroutine before and after, or
  a vote call loses its reply, is found stale, passes the check, or is orphaned by a crash.
\<close>

definition fade :: "thread \<Rightarrow> thread \<Rightarrow> bool" where
  "fade old new \<longleftrightarrow>
     (case new of
        VoteCall e i j ph' \<Rightarrow>
          (\<exists>ph. old = VoteCall e i j ph \<and>
             (ph' = ph \<or> ph' = VDone False \<and> ph \<noteq> VDone True \<or> (\<exists>a. ph' = VOrphan a \<and> ph \<noteq> VDone True) \<or>
              (\<exists>a r. ph = VReplied a r \<and> ph' = VChecked a r)))
      | ElectionLoop e i T js \<Rightarrow> old = new
      | _ \<Rightarrow> (\<forall>e i j ph. old \<noteq> VoteCall e i j ph))"

lemma fade_refl [simp]: "fade th th"
  by (cases th) (auto simp: fade_def)

lemma fade_ok: "fade old new \<Longrightarrow> thread_ok n H et ec m old \<Longrightarrow> thread_ok n H et ec m new"
  by (cases new) (auto simp: fade_def)

lemma fade_calls: "fade old new \<Longrightarrow> calls e new \<subseteq> calls e old"
  by (cases new) (auto simp: fade_def)

lemma fade_done: "fade old new \<Longrightarrow> new = VoteCall e i j (VDone True) \<longleftrightarrow> old = VoteCall e i j (VDone True)"
  by (cases new) (auto simp: fade_def)

lemma fade_plain [simp]:
  "fade old Idle \<longleftrightarrow> (\<forall>e i j ph. old \<noteq> VoteCall e i j ph)"
  "fade old (StartCall i' c sp) \<longleftrightarrow> (\<forall>e i j ph. old \<noteq> VoteCall e i j ph)"
  "fade old (Heartbeat i' hp) \<longleftrightarrow> (\<forall>e i j ph. old \<noteq> VoteCall e i j ph)"
  "fade old (Bcast k i' b bp) \<longleftrightarrow> (\<forall>e i j ph. old \<noteq> VoteCall e i j ph)"
  "fade old (AppendCall k i' j' b ap) \<longleftrightarrow> (\<forall>e i j ph. old \<noteq> VoteCall e i j ph)"
  by (simp_all add: fade_def)

lemma fade_lost: "ph \<noteq> VDone True \<Longrightarrow> fade (VoteCall e i j ph) (VoteCall e i j (VDone False))"
  by (simp add: fade_def)

lemma fade_kill [simp]: "fade th (kill_thread c th)"
proof (cases th)
  case (VoteCall e i j ph)
  then show ?thesis by (cases ph) (auto simp: fade_def)
qed (auto simp: fade_def)

lemma counted_cong:
  assumes "\<And>p e i j. threads s' p = VoteCall e i j (VDone True) \<longleftrightarrow> threads s p = VoteCall e i j (VDone True)"
  shows "counted s' = counted s"
  unfolding counted_def using assms by simp

lemma counted_fade: "(\<And>p. fade (threads s p) (threads s' p)) \<Longrightarrow> counted s' = counted s"
  using fade_done by (intro counted_cong) blast

lemma leader_kept:
  assumes "\<And>v. quiet_step (nodes s v) (nodes s' v)" and "H \<subseteq>\<^sub>m H'"
    and "ballot_inv n s H et ec" and "state (nodes s' v) = Leader"
  shows "\<exists>Q. majority_of n Q \<and> (\<forall>u \<in> Q. H' (u, CurrentTerm (nodes s' v)) = Some (int v))"
proof -
  have "state (nodes s v) = Leader" "CurrentTerm (nodes s' v) = CurrentTerm (nodes s v)"
    using assms(1) [of v] assms(4) by (auto simp: quiet_step_def)
  then obtain Q where "majority_of n Q" "\<forall>u \<in> Q. H (u, CurrentTerm (nodes s v)) = Some (int v)"
    using assms(3) by (auto simp: ballot_inv_def)
  then show ?thesis using \<open>CurrentTerm (nodes s' v) = _\<close> assms(2) by (metis map_leD)
qed

lemma ballot_quiet:
  assumes inv: "ballot_inv n s H et ec" and le: "H \<subseteq>\<^sub>m H'"
    and nodes: "\<And>v. quiet_step (nodes s v) (nodes s' v)"
    and thr: "\<And>p. fade (threads s p) (threads s' p)"
    and same: "nvotes s' = nvotes s" "fresh_election s' = fresh_election s" "fresh s \<le> fresh s'"
      "\<And>p. fresh s' \<le> p \<Longrightarrow> threads s' p = Idle"
  shows "ballot_inv n s' H' et ec"
  unfolding ballot_inv_def
proof (intro conjI allI impI)
  fix p show "thread_ok n H' et ec (fresh_election s') (threads s' p)"
    using fade_ok [OF thr thread_ok_mono [OF ballot_invD(1) [OF inv] le]] same by simp
next
  fix p q :: nat and e assume "p \<noteq> q"
  then show "calls e (threads s' p) \<inter> calls e (threads s' q) = {}"
    using inv fade_calls [OF thr [of p], of e] fade_calls [OF thr [of q], of e]
    unfolding ballot_inv_def by blast
next
  fix e assume "e < fresh_election s'"
  then have "e < fresh_election s" using same by simp
  then show "ec e < n" "H' (ec e, et e) = Some (int (ec e))"
    "nvotes s' e = 1 + int (card (counted s' e))"
    using inv le same counted_fade [OF thr] by (auto simp: ballot_inv_def intro: map_leD)
next
  fix v assume "state (nodes s' v) = Leader"
  then show "\<exists>Q. majority_of n Q \<and> (\<forall>u \<in> Q. H' (u, CurrentTerm (nodes s' v)) = Some (int v))"
    using leader_kept [OF nodes le inv] by blast
qed (use same in auto)

section \<open>The steps that touch the ballot\<close>

lemma thread_ok_extend:
  "thread_ok n H et ec m th \<Longrightarrow> thread_ok n H (et(m := T)) (ec(m := i)) (Suc m) th"
  by (cases th) auto

lemma calls_new: "thread_ok n H et ec m th \<Longrightarrow> calls m th = {}"
  by (cases th) auto

lemma others_props: "set (others n i) = {..<n} - {i}" "distinct (others n i)"
  by (auto simp: others_def)

lemma ballot_timeout:
  assumes inv: "ballot_inv n s H et ec" and le: "H \<subseteq>\<^sub>m H'" and i: "i < n"
    and m: "m = fresh_election s" and H: "H' (i, T) = Some (int i)"
    and nodes: "\<And>v. v \<noteq> i \<Longrightarrow> nodes s' v = nodes s v" "state (nodes s' i) \<noteq> Leader"
    and s': "threads s' = (threads s)(fresh s := ElectionLoop m i T (others n i))"
      "fresh s' = fresh s + 1" "fresh_election s' = Suc m" "nvotes s' = (nvotes s)(m := 1)"
  shows "ballot_inv n s' H' (et(m := T)) (ec(m := i))"
  unfolding ballot_inv_def
proof (intro conjI allI impI)
  have ok: "thread_ok n H et ec m (threads s p)" for p using ballot_invD(1) [OF inv] m by simp
  have none: "calls m (threads s p) = {}" for p by (rule calls_new [OF ok])
  fix p show "thread_ok n H' (et(m := T)) (ec(m := i)) (fresh_election s') (threads s' p)"
    using thread_ok_extend [OF thread_ok_mono [OF ok le]] s' by (auto simp: others_props)
  show "calls e (threads s' p) \<inter> calls e (threads s' q) = {}" if "p \<noteq> q" for q e
    using ballot_invD(3) [OF inv that, of e] none ballot_invD(2) [OF inv] that s' by auto
  have same: "counted s' e = (if e = m then {} else counted s e)" for e
  proof -
    have "threads s p \<noteq> VoteCall m i j (VDone True)" for p i j using none [of p] by auto
    then have "counted s m = {}" by (simp add: counted_def)
    moreover have "counted s' = counted s"
      using ballot_invD(2) [OF inv, of "fresh s"] by (intro counted_cong) (simp add: s')
    ultimately show ?thesis by simp
  qed
  show "(ec(m := i)) e < n" "H' ((ec(m := i)) e, (et(m := T)) e) = Some (int ((ec(m := i)) e))"
    "nvotes s' e = 1 + int (card (counted s' e))" if "e < fresh_election s'" for e
    using ballot_invD(4) [OF inv, of e] that i H m s' same map_leD [OF le] by auto
  show "\<exists>Q. majority_of n Q \<and> (\<forall>u \<in> Q. H' (u, CurrentTerm (nodes s' v)) = Some (int v))"
    if "state (nodes s' v) = Leader" for v
    using ballot_invD(5) [OF inv, of v] nodes that map_leD [OF le] by metis
qed (use s' ballot_invD(2) [OF inv] in auto)

lemma ballot_loop:
  assumes inv: "ballot_inv n s H et ec" and p: "threads s p = ElectionLoop e i T (j # js)"
    and args: "rv_Term args = T" "CandidateId args = int i"
    and s': "threads s' = (threads s)(fresh s := VoteCall e i j (VSent args), p := ElectionLoop e i T js)"
      "fresh s' = fresh s + 1" "fresh_election s' = fresh_election s" "nvotes s' = nvotes s"
      "nodes s' = nodes s"
  shows "ballot_inv n s' H et ec"
  unfolding ballot_inv_def
proof (intro conjI allI impI)
  have pf: "p < fresh s" using ballot_invD(2) [OF inv, of p] p by (metis leI thread.distinct(1))
  have ok: "e < fresh_election s" "i = ec e" "T = et e" "j < n" "j \<noteq> i" "set js \<subseteq> {..<n} - {i}"
      "j \<notin> set js" "distinct js"
    using ballot_invD(1) [OF inv, of p] p by auto
  fix q show "thread_ok n H et ec (fresh_election s') (threads s' q)"
    using ballot_invD(1) [OF inv, of q] ok args s' by simp
  show "calls e' (threads s' q) \<inter> calls e' (threads s' r) = {}" if "q \<noteq> r" for r e'
  proof -
    have d: "calls e' (threads s x) \<inter> calls e' (threads s p) = {}" if "x \<noteq> p" for x
      using ballot_invD(3) [OF inv that] by simp
    show ?thesis
      using that d [of q] d [of r] ballot_invD(3) [OF inv that, of e'] ok p pf s' by (auto split: if_splits)
  qed
  have "counted s' = counted s"
    using p ballot_invD(2) [OF inv, of "fresh s"] by (intro counted_cong) (simp add: s')
  then show "ec x < n" "H (ec x, et x) = Some (int (ec x))" "nvotes s' x = 1 + int (card (counted s' x))"
    if "x < fresh_election s'" for x
    using ballot_invD(4) [OF inv, of x] that s' by auto
  show "threads s' q = Idle" if "fresh s' \<le> q"
    using ballot_invD(2) [OF inv, of q] that pf s' by auto
qed (use ballot_invD(5) [OF inv] s' in auto)

lemma ballot_deliver:
  assumes inv: "ballot_inv n s H et ec" and le: "H \<subseteq>\<^sub>m H'"
    and p: "threads s p = VoteCall e i j (VSent args)"
    and nodes: "\<And>v. quiet_step (nodes s v) (nodes s' v)"
    and granted: "VoteGranted reply \<Longrightarrow> H' (j, rv_Term args) = Some (CandidateId args)"
    and s': "threads s' = (threads s)(p := VoteCall e i j (VReplied args reply))"
      "fresh s' = fresh s" "fresh_election s' = fresh_election s" "nvotes s' = nvotes s"
  shows "ballot_inv n s' H' et ec"
  unfolding ballot_inv_def
proof (intro conjI allI impI)
  fix q show "thread_ok n H' et ec (fresh_election s') (threads s' q)"
    using thread_ok_mono [OF ballot_invD(1) [OF inv, of q] le] p granted s' by auto
  show "calls x (threads s' q) \<inter> calls x (threads s' r) = {}" if "q \<noteq> r" for r x
    using ballot_invD(3) [OF inv that, of x] p s' by (auto split: if_splits)
  have "counted s' = counted s" using p by (intro counted_cong) (simp add: s')
  then show "ec x < n" "H' (ec x, et x) = Some (int (ec x))" "nvotes s' x = 1 + int (card (counted s' x))"
    if "x < fresh_election s'" for x
    using ballot_invD(4) [OF inv, of x] that s' map_leD [OF le] by auto
  show "threads s' q = Idle" if "fresh s' \<le> q"
    using ballot_invD(2) [OF inv, of q] that p s' by auto
qed (use leader_kept [OF nodes le inv] in blast)

lemma counted_finite:
  assumes "ballot_inv n s H et ec"
  shows "finite (counted s e)" "counted s e \<subseteq> {..<n} - {ec e}"
proof -
  show sub: "counted s e \<subseteq> {..<n} - {ec e}"
  proof
    fix j assume "j \<in> counted s e"
    then obtain p i where "threads s p = VoteCall e i j (VDone True)" by (auto simp: counted_def)
    then show "j \<in> {..<n} - {ec e}" using ballot_invD(1) [OF assms, of p] by simp
  qed
  then show "finite (counted s e)" by (rule finite_subset) simp
qed

lemma counted_votes:
  assumes "ballot_inv n s H et ec" and "j \<in> counted s e"
  shows "H (j, et e) = Some (int (ec e))"
proof -
  obtain p i where "threads s p = VoteCall e i j (VDone True)" using assms(2) by (auto simp: counted_def)
  then show ?thesis using ballot_invD(1) [OF assms(1), of p] by simp
qed

lemma ballot_granted:
  assumes inv: "ballot_inv n s H et ec" and le: "H \<subseteq>\<^sub>m H'"
    and p: "threads s p = VoteCall e i j (VChecked args reply)" "VoteGranted reply"
    and nodes: "\<And>v. v \<noteq> i \<Longrightarrow> nodes s' v = nodes s v"
      "CurrentTerm (nodes s' i) = CurrentTerm (nodes s i)"
      "state (nodes s' i) = Leader \<Longrightarrow> state (nodes s i) \<noteq> Leader \<Longrightarrow>
         CurrentTerm (nodes s i) = rv_Term args \<and> int (n div 2 + 1) \<le> nvotes s e + 1"
    and s': "threads s' = (threads s)(p := VoteCall e i j (VDone True))" "fresh s' = fresh s"
      "fresh_election s' = fresh_election s" "nvotes s' = (nvotes s)(e := nvotes s e + 1)"
  shows "ballot_inv n s' H' et ec"
  unfolding ballot_inv_def
proof (intro conjI allI impI)
  have ok: "e < fresh_election s" "i = ec e" "j < n" "j \<noteq> i" "rv_Term args = et e"
      "H (j, et e) = Some (int i)"
    using ballot_invD(1) [OF inv, of p] p by auto
  have new: "j \<notin> counted s e"
  proof
    assume "j \<in> counted s e"
    then obtain q k where q: "threads s q = VoteCall e k j (VDone True)" by (auto simp: counted_def)
    then have "p \<noteq> q" using p by auto
    then show False using ballot_invD(3) [OF inv, of p q e] p q by simp
  qed
  have "threads s' q = VoteCall x k l (VDone True) \<longleftrightarrow>
      q = p \<and> x = e \<and> k = i \<and> l = j \<or> threads s q = VoteCall x k l (VDone True)" for q x k l
    using p by (auto simp: s')
  then have cnt: "counted s' x = (if x = e then insert j (counted s e) else counted s x)" for x
    unfolding counted_def by auto
  have card: "card (counted s' e) = card (counted s e) + 1"
    using new counted_finite(1) [OF inv, of e] cnt by simp
  have thr: "thread_ok n H' et ec (fresh_election s') (threads s' q)" for q
    using thread_ok_mono [OF ballot_invD(1) [OF inv, of q] le] ok s' map_leD [OF le] by auto
  then show "thread_ok n H' et ec (fresh_election s') (threads s' q)" for q .
  show "calls x (threads s' q) \<inter> calls x (threads s' r) = {}" if "q \<noteq> r" for q r x
    using ballot_invD(3) [OF inv that, of x] p s' by (auto split: if_splits)
  show votes: "ec x < n" "H' (ec x, et x) = Some (int (ec x))" "nvotes s' x = 1 + int (card (counted s' x))"
    if "x < fresh_election s'" for x
    using ballot_invD(4) [OF inv, of x] that s' map_leD [OF le] card cnt by auto
  show "threads s' q = Idle" if "fresh s' \<le> q" for q
    using ballot_invD(2) [OF inv, of q] that p s' by auto
  show "\<exists>Q. majority_of n Q \<and> (\<forall>u \<in> Q. H' (u, CurrentTerm (nodes s' v)) = Some (int v))"
    if lead: "state (nodes s' v) = Leader" for v
  proof (cases "v = i \<and> state (nodes s i) \<noteq> Leader")
    case True
    let ?Q = "insert i (counted s' e)"
    have sub: "counted s' e \<subseteq> {..<n} - {i}" "finite (counted s' e)"
      using counted_finite [OF inv, of e] ok cnt by auto
    have "CurrentTerm (nodes s' i) = et e" "int (n div 2 + 1) \<le> nvotes s e + 1"
      using nodes(2,3) lead True ok by auto
    moreover have "card ?Q = card (counted s e) + 2" using sub card by (subst card_insert_disjoint) auto
    ultimately have "n div 2 + 1 \<le> card ?Q" "\<forall>u \<in> ?Q. H' (u, et e) = Some (int i)"
      using ballot_invD(4) [OF inv ok(1)] ok cnt counted_votes [OF inv, of _ e] map_leD [OF le] by auto
    moreover have "?Q \<subseteq> {..<n}" using sub ballot_invD(4) [OF inv ok(1)] ok by auto
    ultimately have "majority_of n ?Q" "\<forall>u \<in> ?Q. H' (u, CurrentTerm (nodes s' v)) = Some (int v)"
      using True \<open>CurrentTerm (nodes s' i) = et e\<close> by (simp_all add: majority_of_def)
    then show ?thesis by blast
  next
    case False
    then have "state (nodes s v) = Leader" using lead nodes(1) [of v] by (cases "v = i") auto
    moreover have "CurrentTerm (nodes s' v) = CurrentTerm (nodes s v)"
      using nodes(1) [of v] nodes(2) by (cases "v = i") simp_all
    ultimately show ?thesis using ballot_invD(5) [OF inv, of v] map_leD [OF le] by metis
  qed
qed

section \<open>Every calm step keeps the invariant\<close>

lemma set_node_sel [simp]:
  "nodes (set_node i rf s) = (nodes s)(i := rf)" "threads (set_node i rf s) = threads s"
  "fresh (set_node i rf s) = fresh s" "nvotes (set_node i rf s) = nvotes s"
  "fresh_election (set_node i rf s) = fresh_election s" "size_of (set_node i rf s) = size_of s"
  "tallies (set_node i rf s) = tallies s" "fresh_bcast (set_node i rf s) = fresh_bcast s"
  by (simp_all add: set_node_def)

lemma set_thread_sel [simp]:
  "nodes (set_thread p th s) = nodes s" "threads (set_thread p th s) = (threads s)(p := th)"
  "fresh (set_thread p th s) = fresh s" "nvotes (set_thread p th s) = nvotes s"
  "fresh_election (set_thread p th s) = fresh_election s" "size_of (set_thread p th s) = size_of s"
  "tallies (set_thread p th s) = tallies s" "fresh_bcast (set_thread p th s) = fresh_bcast s"
  by (simp_all add: set_thread_def)

lemma spawn_sel [simp]:
  "nodes (spawn th s) = nodes s" "threads (spawn th s) = (threads s)(fresh s := th)"
  "fresh (spawn th s) = fresh s + 1" "nvotes (spawn th s) = nvotes s"
  "fresh_election (spawn th s) = fresh_election s" "size_of (spawn th s) = size_of s"
  "tallies (spawn th s) = tallies s" "fresh_bcast (spawn th s) = fresh_bcast s"
  by (simp_all add: spawn_def)

lemma spawn_bcast_sel [simp]:
  "nodes (spawn_bcast i b s) = nodes s"
  "threads (spawn_bcast i b s) = (threads s)(fresh s := Bcast (fresh_bcast s) i b BEnter)"
  "fresh (spawn_bcast i b s) = fresh s + 1" "nvotes (spawn_bcast i b s) = nvotes s"
  "fresh_election (spawn_bcast i b s) = fresh_election s" "size_of (spawn_bcast i b s) = size_of s"
  by (simp_all add: spawn_bcast_def Let_def)

text \<open>The invariant of calm runs: data, history and ballot together.\<close>

definition safe_inv :: "nat \<Rightarrow> history \<Rightarrow> cluster \<Rightarrow> bool" where
  "safe_inv n H s \<longleftrightarrow> data_inv n s \<and> history_inv s H \<and> (\<exists>et ec. ballot_inv n s H et ec)"

lemma record_again: "nodes s' = nodes s \<Longrightarrow> record_votes s' (record_votes s H) = record_votes s' H"
  by (auto simp: record_votes_def fun_eq_iff)

lemma record_same: "history_inv s H \<Longrightarrow> record_votes s H = H"
  by (auto simp: record_votes_def history_inv_def fun_eq_iff)

text \<open>A step that leaves the ballot alone.\<close>

lemma safe_quiet:
  assumes "safe_inv n H s" and "data_inv n s'"
    and "\<And>v. quiet_step (nodes s v) (nodes s' v)"
    and "\<And>p. fade (threads s p) (threads s' p)"
    and "nvotes s' = nvotes s" "fresh_election s' = fresh_election s" "fresh s \<le> fresh s'"
      "\<And>p. fresh s' \<le> p \<Longrightarrow> threads s' p = Idle"
  shows "safe_inv n (record_votes s' H) s'"
proof -
  obtain et ec where h: "history_inv s H" and b: "ballot_inv n s H et ec"
    using assms(1) by (auto simp: safe_inv_def)
  have st: "\<And>v. peer_step (nodes s v) (nodes s' v)" using assms(3) by (simp add: quiet_step_def)
  have le: "H \<subseteq>\<^sub>m record_votes s' H" by (rule record_extends [OF h st])
  have "ballot_inv n s' (record_votes s' H) et ec" by (rule ballot_quiet [OF b le assms(3-8)])
  then show ?thesis using history_inv_step [OF h st] assms(2) by (auto simp: safe_inv_def)
qed

lemma safe_fresh: "safe_inv n H s \<Longrightarrow> fresh s \<le> p \<Longrightarrow> threads s p = Idle"
  by (auto simp: safe_inv_def dest: ballot_invD(2))

lemma quiet_update:
  "quiet_step (f i) rf \<Longrightarrow> quiet_step (f v) ((f(i := rf)) v)"
  by simp

lemma safe_spawn:
  assumes "safe_inv n H s" and "data_inv n (spawn th s)" and "fade Idle th"
  shows "safe_inv n (record_votes (spawn th s) H) (spawn th s)"
  using safe_fresh [OF assms(1)] by (intro safe_quiet [OF assms(1,2)]) (auto simp: assms(3))

lemma safe_inv_data: "safe_inv n H s \<Longrightarrow> data_inv n s"
  by (simp add: safe_inv_def)

text \<open>The goroutines that take no part in elections.\<close>

lemma safe_start:
  assumes inv: "safe_inv n H s" and p: "threads s p = StartCall i c ph"
    and d: "data_inv n (run_start now p i c ph s)"
  shows "safe_inv n (record_votes (run_start now p i c ph s) H) (run_start now p i c ph s)"
proof -
  have pf: "p < fresh s" using safe_fresh [OF inv, of p] p by (metis leI thread.distinct(5))
  note fr = safe_fresh [OF inv]
  show ?thesis
    by (intro safe_quiet [OF inv d]; cases ph)
       (use p pf fr quiet_start_append [of "nodes s i" c now] in
         \<open>auto simp: Let_def split_beta\<close>)
qed

lemma safe_heartbeat:
  assumes inv: "safe_inv n H s" and p: "threads s p = Heartbeat i ph"
    and d: "data_inv n (run_heartbeat now p i ph s)"
  shows "safe_inv n (record_votes (run_heartbeat now p i ph s) H) (run_heartbeat now p i ph s)"
proof -
  have pf: "p < fresh s" using safe_fresh [OF inv, of p] p by (metis leI thread.distinct(7))
  note fr = safe_fresh [OF inv]
  show ?thesis
    by (intro safe_quiet [OF inv d]; cases ph)
       (use p pf fr quiet_issue [of "nodes s i" now] in \<open>auto\<close>)
qed

lemma safe_bcast:
  assumes inv: "safe_inv n H s" and p: "threads s p = Bcast k i b ph"
    and d: "data_inv n (run_bcast p k i b ph s)"
  shows "safe_inv n (record_votes (run_bcast p k i b ph s) H) (run_bcast p k i b ph s)"
proof -
  have pf: "p < fresh s" using safe_fresh [OF inv, of p] p by (metis leI thread.distinct(9))
  note fr = safe_fresh [OF inv]
  show ?thesis
    by (intro safe_quiet [OF inv d]; cases "(p, k, i, b, ph, s)" rule: run_bcast.cases)
       (use p pf fr in \<open>auto\<close>)
qed

lemma safe_append:
  assumes inv: "safe_inv n H s" and p: "threads s p = AppendCall k i j b ph"
    and r: "run_append p k i j b ph s = Some (Inr s')" and d: "data_inv n s'"
    and c: "calm (Run now p) s"
  shows "safe_inv n (record_votes s' H) s'"
proof -
  have pf: "p < fresh s" using safe_fresh [OF inv, of p] p by (metis leI thread.distinct(11))
  note fr = safe_fresh [OF inv]
  have q: "CurrentTerm (nodes s i) = ae_Term args" if "ph = AChecked args reply nx" for args reply nx
    using c p that by (simp add: calm_def)
  show ?thesis
    by (intro safe_quiet [OF inv d]; cases ph)
       (use p pf fr r q in
         \<open>auto simp: go_simps Let_def split: if_splits
            intro: quiet_append_rejected quiet_append_accepted\<close>)
qed

text \<open>The steps of an election.\<close>

lemma safe_witness:
  assumes "safe_inv n H s" and "data_inv n s'" and "\<And>v. peer_step (nodes s v) (nodes s' v)"
    and "\<And>et ec. history_inv s H \<Longrightarrow> H \<subseteq>\<^sub>m record_votes s' H \<Longrightarrow> ballot_inv n s H et ec \<Longrightarrow>
           \<exists>et ec. ballot_inv n s' (record_votes s' H) et ec"
  shows "safe_inv n (record_votes s' H) s'"
proof -
  obtain et ec where h: "history_inv s H" and b: "ballot_inv n s H et ec"
    using assms(1) by (auto simp: safe_inv_def)
  show ?thesis
    using assms(4) [OF h record_extends [OF h assms(3)] b] history_inv_step [OF h assms(3)] assms(2)
    unfolding safe_inv_def by blast
qed

lemma safe_timeout:
  assumes inv: "safe_inv n H s" and st: "step (Timeout t i) s = Some (Inr s')" and d: "data_inv n s'"
  shows "safe_inv n (record_votes s' H) s'"
proof (rule safe_witness [OF inv d])
  have n: "size_of s = n" "i < n" and me: "me (nodes s i) = int i"
    using safe_inv_data [OF inv] st by (auto simp: data_inv_def peer_ok_def split: if_splits)
  have s': "nodes s' = (nodes s)(i := startElection t (nodes s i))"
      "threads s' = (threads s)(fresh s :=
         ElectionLoop (fresh_election s) i (CurrentTerm (nodes s i) + 1) (others n i))"
      "fresh s' = fresh s + 1" "fresh_election s' = Suc (fresh_election s)"
      "nvotes s' = (nvotes s)(fresh_election s := 1)"
    using st n by (auto simp: Let_def)
  show "peer_step (nodes s v) (nodes s' v)" for v using startElection_step by (simp add: s')
  fix et ec assume le: "H \<subseteq>\<^sub>m record_votes s' H" and b: "ballot_inv n s H et ec"
  have "record_votes s' H (i, CurrentTerm (nodes s i) + 1) = Some (int i)"
    using record_current [of s' i H] me by (simp add: s')
  then show "\<exists>et ec. ballot_inv n s' (record_votes s' H) et ec"
    using ballot_timeout [OF b le n(2) refl, of "CurrentTerm (nodes s i) + 1" s'] s' by auto
qed

lemma safe_loop:
  assumes inv: "safe_inv n H s" and p: "threads s p = ElectionLoop e i T js"
    and st: "step (Run now p) s = Some (Inr s')" and d: "data_inv n s'" and c: "calm (Run now p) s"
  shows "safe_inv n (record_votes s' H) s'"
proof (cases js)
  case Nil
  then have "s' = set_thread p Idle s" using st p by (simp add: run_thread_def)
  then show ?thesis using p safe_fresh [OF inv] d by (intro safe_quiet [OF inv d]) auto
next
  case (Cons j js')
  obtain args where args: "election_args (nodes s i) = Inr args"
      and s': "s' = set_thread p (ElectionLoop e i T js') (spawn (VoteCall e i j (VSent args)) s)"
    using st p Cons by (auto simp: run_thread_def go_simps)
  have "rv_Term args = T" "CandidateId args = int i"
    using args c p safe_inv_data [OF inv]
    by (auto simp: election_args_def Let_def go_simps calm_def data_inv_def peer_ok_def)
  then have "ballot_inv n s' H et ec" if "ballot_inv n s H et ec" for H et ec
    using ballot_loop [OF that, of p e i T j js' args s'] p Cons s' by simp
  moreover have "history_inv s' H" if "history_inv s H" for H
    using that s' by (simp add: history_inv_def)
  ultimately show ?thesis using inv d record_same unfolding safe_inv_def by metis
qed

lemma safe_vote_deliver:
  assumes inv: "safe_inv n H s" and p: "threads s p = VoteCall e i j (VSent args)"
    and st: "RequestVote t args (nodes s j) = Inr (rf, reply)"
    and s': "s' = set_thread p (VoteCall e i j (VReplied args reply)) (set_node j rf s)"
    and d: "data_inv n s'"
  shows "safe_inv n (record_votes s' H) s'"
proof (rule safe_witness [OF inv d])
  have q: "quiet_step (nodes s v) (nodes s' v)" for v using quiet_RequestVote [OF st] s' by simp
  then show "peer_step (nodes s v) (nodes s' v)" for v by (simp add: quiet_step_def)
  fix et ec assume le: "H \<subseteq>\<^sub>m record_votes s' H" and b: "ballot_inv n s H et ec"
  have ok: "CandidateId args = int i" using ballot_invD(1) [OF b, of p] p by simp
  have "record_votes s' H (j, rv_Term args) = Some (CandidateId args)" if "VoteGranted reply"
    using RequestVote_granted [OF st that] record_current [of s' j H] ok by (simp add: s')
  then show "\<exists>et ec. ballot_inv n s' (record_votes s' H) et ec"
    using ballot_deliver [OF b le p q, of reply] s' by auto
qed

lemma safe_vote_granted:
  assumes inv: "safe_inv n H s" and p: "threads s p = VoteCall e i j (VChecked args reply)"
    and g: "VoteGranted reply" and c: "CurrentTerm (nodes s i) = rv_Term args"
    and st: "vote_granted (nvotes s e) (nodes s i) = Inr (rf, k, won)"
    and s': "s' = set_thread p (VoteCall e i j (VDone True)) (set_node i rf (s\<lparr>nvotes := (nvotes s)(e := k)\<rparr>))"
  shows "safe_inv n (record_votes s' H) s'"
proof (rule safe_witness [OF inv])
  note vg = vote_granted_cases [OF st]
  have d: "peer_ok n i (nodes s i)" by (rule data_invD(1) [OF safe_inv_data [OF inv]])
  show "data_inv n s'"
    unfolding s' using safe_inv_data [OF inv] peer_ok_ops(4) [OF d st] by (intro data_inv_updates) auto
  show "peer_step (nodes s v) (nodes s' v)" for v using vg s' by simp
  fix et ec assume le: "H \<subseteq>\<^sub>m record_votes s' H" and b: "ballot_inv n s H et ec"
  have "winThreshold (nodes s i) = int (n div 2 + 1)"
    using d by (simp add: winThreshold_def peer_ok_def)
  then show "\<exists>et ec. ballot_inv n s' (record_votes s' H) et ec"
    using ballot_granted [OF b le p g, of s'] vg c s' by (auto split: if_splits)
qed

lemma safe_vote_quiet:
  assumes inv: "safe_inv n H s" and d: "data_inv n s'"
    and p: "threads s p = VoteCall e i j ph"
    and f: "fade (VoteCall e i j ph) th"
    and s': "s' = set_thread p th (set_node v rf s)"
    and q: "quiet_step (nodes s v) rf"
  shows "safe_inv n (record_votes s' H) s'"
proof -
  have "p < fresh s" using safe_fresh [OF inv, of p] p by (metis leI thread.distinct(3))
  then show ?thesis using safe_fresh [OF inv] p f q s' by (intro safe_quiet [OF inv d]) auto
qed

lemma set_node_same [simp]: "set_node i (nodes s i) s = s"
  by (simp add: set_node_def)

lemma safe_vote:
  assumes inv: "safe_inv n H s" and p: "threads s p = VoteCall e i j ph"
    and r: "run_vote p e i j ph s = Some (Inr s')" and d: "data_inv n s'"
    and c: "calm (Run now p) s"
  shows "safe_inv n (record_votes s' H) s'"
proof (cases ph)
  case (VReplied args reply)
  show ?thesis
    by (rule safe_vote_quiet [OF inv d p, of
          "VoteCall e i j (if vote_is_stale args (nodes s i) then VDone False else VChecked args reply)"
          i "nodes s i"])
       (use r VReplied in \<open>auto simp: fade_def\<close>)
next
  case (VChecked args reply)
  have t: "CurrentTerm (nodes s i) = rv_Term args" using c p VChecked by (simp add: calm_def)
  show ?thesis
  proof (cases "VoteGranted reply")
    case False
    show ?thesis
      by (rule safe_vote_quiet [OF inv d p, of "VoteCall e i j (VDone False)" i "vote_denied reply (nodes s i)"])
         (use r VChecked False in \<open>auto simp: fade_def quiet_vote_denied\<close>)
  next
    case True
    then obtain rf k won where v: "vote_granted (nvotes s e) (nodes s i) = Inr (rf, k, won)"
      using r VChecked by (auto simp: go_simps)
    let ?s = "set_thread p (VoteCall e i j (VDone True)) (set_node i rf (s\<lparr>nvotes := (nvotes s)(e := k)\<rparr>))"
    have g: "safe_inv n (record_votes ?s H) ?s"
      using safe_vote_granted [OF inv _ True t v] p VChecked by simp
    have s': "s' = (if won then spawn (Heartbeat i HEnter) ?s else ?s)"
      using r VChecked True v by (simp add: Let_def)
    show ?thesis
    proof (cases won)
      case True
      then have "s' = spawn (Heartbeat i HEnter) ?s" using s' by simp
      then show ?thesis using safe_spawn [OF g, of "Heartbeat i HEnter"] d by (simp add: record_again)
    qed (use g s' in simp)
  qed
qed (use r in simp_all)

lemma safe_deliver:
  assumes inv: "safe_inv n H s" and st: "deliver t1 t2 p s = Some (Inr s')" and d: "data_inv n s'"
  shows "safe_inv n (record_votes s' H) s'"
proof (cases "threads s p")
  case (VoteCall e i j ph)
  show ?thesis
  proof (cases ph)
    case (VSent args)
    then obtain rf reply where r: "RequestVote t1 args (nodes s j) = Inr (rf, reply)"
        and s': "s' = set_thread p (VoteCall e i j (VReplied args reply)) (set_node j rf s)"
      using st VoteCall by (auto simp: deliver_def go_simps)
    show ?thesis using safe_vote_deliver [OF inv _ r s' d] VSent VoteCall by simp
  next
    case (VOrphan args)
    then obtain rf reply where "RequestVote t1 args (nodes s j) = Inr (rf, reply)"
        "s' = set_thread p (VoteCall e i j (VDone False)) (set_node j rf s)"
      using st VoteCall by (auto simp: deliver_def go_simps)
    then show ?thesis
      using safe_vote_quiet [OF inv d VoteCall, of "VoteCall e i j (VDone False)" j rf]
        quiet_RequestVote VOrphan by (auto simp: fade_def)
  qed (use st VoteCall in \<open>simp_all add: deliver_def\<close>)
next
  case (AppendCall k i j b ph)
  have pf: "p < fresh s" using safe_fresh [OF inv, of p] AppendCall by (metis leI thread.distinct(11))
  show ?thesis
    by (intro safe_quiet [OF inv d]; cases ph)
       (use st AppendCall pf safe_fresh [OF inv] in
         \<open>auto simp: deliver_def go_simps intro: quiet_AppendEntries\<close>)
qed (use st in \<open>simp_all add: deliver_def\<close>)

lemma safe_lose:
  assumes inv: "safe_inv n H s" and st: "lose p s = Some (Inr s')" and d: "data_inv n s'"
  shows "safe_inv n (record_votes s' H) s'"
proof -
  have "threads s p \<noteq> Idle" using st by (auto simp: lose_def)
  then have pf: "p < fresh s" using safe_fresh [OF inv, of p] by (meson leI)
  show ?thesis
    by (intro safe_quiet [OF inv d])
       (use st pf safe_fresh [OF inv] in
         \<open>auto simp: lose_def fade_lost split: thread.splits vphase.splits aphase.splits\<close>)
qed

lemma safe_crash:
  assumes inv: "safe_inv n H s" and st: "crash t i ps s = Inr s'" and ps: "length ps = n" and d: "data_inv n s'"
  shows "safe_inv n (record_votes s' H) s'"
proof -
  obtain rf' where s': "s' = set_node i rf' (s\<lparr>threads := (\<lambda>p. kill_thread i (threads s p)), applying := (applying s)(i := 0), applier := (applier s)(i := Awake)\<rparr>)"
      and q: "quiet_step (nodes s i) rf'"
    using crash_step [OF st data_invD(1) [OF safe_inv_data [OF inv]] ps] by auto
  show ?thesis
    by (intro safe_quiet [OF inv d]) (use q s' safe_fresh [OF inv] in auto)
qed

lemma safe_inv_step:
  assumes inv: "safe_inv n H s" and c: "calm a s" and st: "step a s = Some (Inr s')"
  shows "safe_inv n (record_votes s' H) s'"
proof -
  have d: "data_inv n s'" by (rule data_inv_step [OF safe_inv_data [OF inv] st])
  show ?thesis
  proof (cases a)
    case (Run now p)
    show ?thesis
    proof (cases "threads s p")
      case ElectionLoop
      then show ?thesis using safe_loop [OF inv _ _ d] st c Run by blast
    next
      case VoteCall
      then show ?thesis using safe_vote [OF inv _ _ d] st c Run by (simp add: run_thread_def)
    next
      case StartCall
      then show ?thesis using safe_start [OF inv StartCall] st d Run by (auto simp: run_thread_def)
    next
      case Heartbeat
      then show ?thesis using safe_heartbeat [OF inv Heartbeat] st d Run by (auto simp: run_thread_def)
    next
      case Bcast
      then show ?thesis using safe_bcast [OF inv Bcast] st d Run by (auto simp: run_thread_def)
    next
      case AppendCall
      then show ?thesis using safe_append [OF inv _ _ d] st c Run by (simp add: run_thread_def)
    qed (use st Run in \<open>simp add: run_thread_def\<close>)
  next
    case (Timeout t i)
    then show ?thesis using safe_timeout [OF inv _ d] st by simp
  next
    case (Pass i)
    show ?thesis
      by (intro safe_quiet [OF inv d])
         (use st Pass safe_fresh [OF inv] in \<open>auto split: if_splits\<close>)
  next
    case (Doze i)
    show ?thesis
      by (intro safe_quiet [OF inv d])
         (use st Doze safe_fresh [OF inv] in \<open>auto split: if_splits\<close>)
  next
    case (Wake i)
    show ?thesis
      by (intro safe_quiet [OF inv d])
         (use st Wake safe_fresh [OF inv] in \<open>auto split: if_splits\<close>)
  next
    case (Apply i)
    show ?thesis
      by (intro safe_quiet [OF inv d])
         (use st Apply safe_fresh [OF inv] in \<open>auto simp: go_simps quiet_apply split: if_splits\<close>)
  next
    case Deliver
    then show ?thesis using safe_deliver [OF inv _ d] st by simp
  next
    case Lose
    then show ?thesis using safe_lose [OF inv _ d] st by simp
  next
    case Crash
    then show ?thesis using safe_crash [OF inv _ _ d] st safe_inv_data [OF inv] by (auto simp: data_inv_def split: if_splits)
  qed (use st d safe_spawn [OF inv] in \<open>auto split: if_splits\<close>)
qed

lemma boot_state: "state (boot n ts v) = Follower"  "VoteFor (boot n ts v) = -1"
  by (simp_all add: boot_def Make_fresh)

lemma safe_inv_init: "safe_inv n (\<lambda>_. None) (cluster_init n ts)"
proof -
  have "history_inv (cluster_init n ts) (\<lambda>_. None)"
    by (simp add: history_inv_def cluster_init_def boot_state)
  moreover have "ballot_inv n (cluster_init n ts) (\<lambda>_. None) (\<lambda>_. 0) (\<lambda>_. 0)"
    by (simp add: ballot_inv_def cluster_init_def boot_state)
  ultimately show ?thesis using data_inv_init unfolding safe_inv_def by blast
qed

lemma safe_inv_reachable: "calm_reachable n s \<Longrightarrow> \<exists>H. safe_inv n H s"
  by (induction rule: calm_reachable.induct) (blast intro: safe_inv_init safe_inv_step)+

lemma leader_quorum:
  assumes "safe_inv n H s" and "state (nodes s i) = Leader" and "state (nodes s j) = Leader"
    and "CurrentTerm (nodes s i) = CurrentTerm (nodes s j)"
  shows "i = j"
proof -
  obtain et ec where b: "ballot_inv n s H et ec" using assms(1) by (auto simp: safe_inv_def)
  obtain Q where q: "majority_of n Q" "\<forall>u \<in> Q. H (u, CurrentTerm (nodes s i)) = Some (int i)"
    using ballot_invD(5) [OF b assms(2)] by blast
  obtain Q' where q': "majority_of n Q'" "\<forall>u \<in> Q'. H (u, CurrentTerm (nodes s i)) = Some (int j)"
    using ballot_invD(5) [OF b assms(3)] assms(4) by auto
  have "int i = int j"
    by (rule maj.unique_choice [OF q(1) q'(1), of "\<lambda>u. H (u, CurrentTerm (nodes s i))"])
       (use q(2) q'(2) in auto)
  then show ?thesis by simp
qed

text \<open>The effect of a calm step on the peers, from the classification of the critical sections.\<close>

lemma calm_peer_step:
  assumes inv: "safe_inv n H s" and c: "calm a s" and st: "step a s = Some (Inr s')"
  shows "peer_step (nodes s v) (nodes s' v)"
proof -
  obtain i rf where "peer_section True (nodes s i) rf" "nodes s' = (nodes s)(i := rf)"
    using step_one_section [OF st safe_inv_data [OF inv], of True] c by (auto simp: one_section_def)
  then show ?thesis
    using calm_section_step data_invD(1) [OF safe_inv_data [OF inv], of i] by auto
qed

section \<open>Properties\<close>

text \<open>
  C4. Election safety. In every calm run of a cluster, of any size and with any interleaving, message loss,
  reordering, delay and crashes, two leaders of the same term are the same peer.
\<close>

theorem election_safety:
  assumes "calm_reachable n s" and "state (nodes s i) = Leader" and "state (nodes s j) = Leader"
    and "CurrentTerm (nodes s i) = CurrentTerm (nodes s j)"
  shows "i = j"
  using safe_inv_reachable [OF assms(1)] leader_quorum [OF _ assms(2-4)] by blast

theorem election_safety_witness:
  "{j. state (nodes elected3 j) = Leader \<and> CurrentTerm (nodes elected3 j) = 1} = {0}"
proof -
  have z: "state (nodes elected3 0) = Leader \<and> CurrentTerm (nodes elected3 0) = 1" by code_simp
  then have "j = 0" if "state (nodes elected3 j) = Leader \<and> CurrentTerm (nodes elected3 j) = 1" for j
    using election_safety [OF elected3_reachable, of j 0] that by auto
  then show ?thesis using z by blast
qed

text \<open>
  In a calm run every step is, for every peer, one that never returns to an earlier term, never
  changes a vote cast in the current term, and leaves the persistent state on stable storage.
\<close>

theorem calm_steps_keep_votes:
  assumes "calm_reachable n s" and "calm a s" and "step a s = Some (Inr s')"
  shows "CurrentTerm (nodes s v) \<le> CurrentTerm (nodes s' v) \<and>
    (CurrentTerm (nodes s' v) = CurrentTerm (nodes s v) \<longrightarrow> VoteFor (nodes s v) \<noteq> -1 \<longrightarrow>
       VoteFor (nodes s' v) = VoteFor (nodes s v)) \<and> saved (nodes s' v)"
proof -
  obtain H where i: "safe_inv n H s" using safe_inv_reachable [OF assms(1)] by blast
  then have "safe_inv n (record_votes s' H) s'" by (rule safe_inv_step [OF _ assms(2,3)])
  then have "saved (nodes s' v)" by (simp add: safe_inv_def data_inv_def peer_ok_def)
  then show ?thesis using calm_peer_step [OF i assms(2,3), of v] by (simp add: peer_step_def)
qed

theorem calm_steps_keep_votes_witness:
  "\<exists>s'. step (Timeout t0 1) elected3 = Some (Inr s') \<and>
     CurrentTerm (nodes elected3 1) \<le> CurrentTerm (nodes s' 1) \<and> saved (nodes s' 1)"
proof -
  have "case step (Timeout t0 1) elected3 of Some (Inr s') \<Rightarrow> True | _ \<Rightarrow> False" by code_simp
  then obtain s' where s: "step (Timeout t0 1) elected3 = Some (Inr s')"
    by (auto split: option.splits sum.splits)
  have "calm (Timeout t0 1) elected3" by (simp add: calm_def)
  then show ?thesis using calm_steps_keep_votes [OF elected3_reachable _ s, of 1] s by auto
qed

end
