(* ===== verification/Raft_Races.thy ===== *)
theory Raft_Races
  imports Raft_Election_Safety
begin

text \<open>
  Runs of the cluster in which a goroutine acts on a test that no longer holds, because the code
  releases the mutex between the test and the action. Each run is a concrete schedule, evaluated by
  the simplifier; none of them is calm. Next to them stands a calm run, which shows that the
  hypotheses of the safety theorems can be met.
\<close>

section \<open>Schedules\<close>

definition start5 :: cluster where
  "start5 = cluster_init 5 (\<lambda>_. t0)"

text \<open>
  Peer 0 starts an election in term 1 and obtains the vote of peer 1; its election timer expires
  again before the loop has started the other calls, so the loop goes on with requests for term 2.
  The grants of peers 3 and 4 for term 2 are counted with the grant of peer 1 for term 1.
\<close>

definition mixed_ballot :: "action list" where
  "mixed_ballot =
     [Timeout t0 0, Run 0 0, Deliver t0 t0 1, Run 0 1, Run 0 1,
      Timeout t0 0, Run 0 0, Deliver t0 t0 3, Run 0 3, Run 0 3,
      Timeout t0 1, Run 0 5, Run 0 5, Run 0 5, Run 0 5,
      Deliver t0 t0 8, Run 0 8, Run 0 8, Deliver t0 t0 9, Run 0 9, Run 0 9]"

text \<open>
  Peer 0, leader of term 1, sends a heartbeat that peer 1, by then in term 2, rejects. Between the
  check of the reply's term and the use of the reply, peer 0 grants its vote in term 3 to peer 2;
  then it sets its term back to 2, forgets the vote, and votes for peer 1 in term 3 as well.
\<close>

definition term_backwards :: "action list" where
  "term_backwards =
     [Timeout t0 0, Run 0 0, Deliver t0 t0 1, Run 0 1, Run 0 1,
      Run 0 2, Run 0 2, Run 0 2, Run 0 3, Run 0 3, Run 0 3, Run 0 4, Run 0 4, Run 0 4,
      Timeout t0 1, Deliver t0 t0 4, Run 0 4,
      Timeout t0 2, Timeout t0 2, Timeout t0 2, Run 0 8, Deliver t0 t0 9, Run 0 9, Run 0 9,
      Run 0 4]"

definition second_vote :: "action list" where
  "second_vote = [Timeout t0 1, Run 0 11, Deliver t0 t0 12, Run 0 12, Run 0 12]"

text \<open>
  \<^verbatim>\<open>Start(10)\<close> on peer 0, leader of term 1, is interrupted after \<^verbatim>\<open>GetState\<close>; peer 1 becomes leader of
  term 2 with the vote of peer 0, which then appends 10 with term 2 to its log. Peer 1 appends 20
  with term 2 at the same index and replicates it to peer 2; a heartbeat tells peer 0 that index 1 is
  committed.
\<close>

definition late_start :: "action list" where
  "late_start =
     [Timeout t0 0, Run 0 0, Deliver t0 t0 1, Run 0 1, Run 0 1,
      Client 0 (Some (TInt, VInt 10)), Run 0 3,
      Timeout t0 1, Run 0 4, Deliver t0 t0 5, Run 0 5, Run 0 5, Run 0 3,
      Client 1 (Some (TInt, VInt 20)), Run 0 7, Run 0 7, Run 0 7,
      Run 0 8, Run 0 8, Run 0 8, Run 0 9, Run 0 9, Run 0 9, Deliver t0 t0 9, Run 0 9, Run 0 9, Pass 1, Apply 1,
      Run 0 10, Run 0 10, Run 0 10, Run 0 11, Run 0 11, Run 0 11, Run 0 12, Run 0 12, Run 0 12,
      Deliver t0 t0 12, Pass 0, Apply 0]"

section \<open>Runs and reachability\<close>

text \<open>A property that a run evaluates to holds in a reachable state.\<close>

definition ends_with :: "(cluster \<Rightarrow> bool) \<Rightarrow> action list \<Rightarrow> cluster \<Rightarrow> bool" where
  "ends_with P as s = (case exec as s of None \<Rightarrow> False | Some s' \<Rightarrow> P s')"

lemma ends_with_reachable:
  assumes "ends_with P as (cluster_init n ts)"
  shows "\<exists>s. reachable n s \<and> P s"
  using assms exec_reachable [OF _ reach_init] unfolding ends_with_def
  by (metis (no_types, lifting) option.case_eq_if option.collapse)

definition leads_in :: "nat \<Rightarrow> int \<Rightarrow> cluster \<Rightarrow> bool" where
  "leads_in i t s \<longleftrightarrow> state (nodes s i) = Leader \<and> CurrentTerm (nodes s i) = t"

section \<open>Properties\<close>

text \<open>
  C14. Without calmness election safety fails: a cluster of five peers reaches a state with two leaders of
  term 2, because the loop of \<^verbatim>\<open>startElection\<close> reads the current term again for every peer while all its
  replies are counted in one ballot.
\<close>

theorem two_leaders_mixed_ballot:
  "\<exists>s. reachable 5 s \<and> leads_in 0 2 s \<and> leads_in 1 2 s"
proof -
  have "ends_with (\<lambda>s. leads_in 0 2 s \<and> leads_in 1 2 s) mixed_ballot (cluster_init 5 (\<lambda>_. t0))"
    by code_simp
  then show ?thesis by (rule ends_with_reachable)
qed

text \<open>
  C15. A peer's term can go backwards, and it can vote twice in a term: a cluster of three peers reaches a
  state with two leaders of term 3, both elected with the vote of peer 0, because a rejected
  \<^verbatim>\<open>AppendEntries\<close> reply overwrites the current term and the vote after the mutex was released.
\<close>

theorem two_leaders_term_backwards:
  "\<exists>s. reachable 3 s \<and> leads_in 2 3 s \<and> CurrentTerm (nodes s 0) = 2 \<and> VoteFor (nodes s 0) = -1 \<and>
     (\<exists>s'. exec second_vote s = Some s' \<and> leads_in 1 3 s' \<and> leads_in 2 3 s')"
proof -
  have "ends_with (\<lambda>s. leads_in 2 3 s \<and> CurrentTerm (nodes s 0) = 2 \<and> VoteFor (nodes s 0) = -1 \<and>
      ends_with (\<lambda>s'. leads_in 1 3 s' \<and> leads_in 2 3 s') second_vote s)
    term_backwards (cluster_init 3 (\<lambda>_. t0))"
    by code_simp
  then obtain s where "reachable 3 s" "leads_in 2 3 s" "CurrentTerm (nodes s 0) = 2" "VoteFor (nodes s 0) = -1"
      and "ends_with (\<lambda>s'. leads_in 1 3 s' \<and> leads_in 2 3 s') second_vote s"
    using ends_with_reachable by blast
  moreover from this(5) have "\<exists>s'. exec second_vote s = Some s' \<and> leads_in 1 3 s' \<and> leads_in 2 3 s'"
    by (auto simp: ends_with_def split: option.splits)
  ultimately show ?thesis by blast
qed

text \<open>
  C16. State machine safety fails without calmness: a cluster of three peers reaches a state in which peer 0
  and peer 1 have applied different commands at index 1, because \<^verbatim>\<open>Start\<close> appends a command after releasing
  the mutex under which it checked that it is leader.
\<close>

theorem different_commands_applied:
  "\<exists>s. reachable 3 s \<and>
     applyCh (nodes s 0) = [\<lparr>CommandValid = True, Command_msg = Some (TInt, VInt 10), CommandIndex = 1\<rparr>] \<and>
     applyCh (nodes s 1) = [\<lparr>CommandValid = True, Command_msg = Some (TInt, VInt 20), CommandIndex = 1\<rparr>]"
proof -
  have "ends_with (\<lambda>s.
      applyCh (nodes s 0) = [\<lparr>CommandValid = True, Command_msg = Some (TInt, VInt 10), CommandIndex = 1\<rparr>] \<and>
      applyCh (nodes s 1) = [\<lparr>CommandValid = True, Command_msg = Some (TInt, VInt 20), CommandIndex = 1\<rparr>])
    late_start (cluster_init 3 (\<lambda>_. t0))"
    by code_simp
  then show ?thesis by (rule ends_with_reachable)
qed

end
