(* ===== verification/Raft_Timers.thy ===== *)
theory Raft_Timers
  imports Raft_Leader
begin

text \<open>
  The three long-running goroutines that drive a peer (\<^verbatim>\<open>src/src/raft/raft.go\<close>):
  \<^verbatim>\<open>electionTimeoutTick\<close>, \<^verbatim>\<open>heartbeatPeriodTick\<close> and \<^verbatim>\<open>eventLoop\<close>, with the mutex they share and the
  two unbuffered channels between them.

  Each goroutine is a program counter, and a step of the system is one of them moving; the two
  tickers hold the mutex while they block on a send, which is the point of modelling them this
  finely. Everything else a peer does (RPC handlers, elections, replication) takes the mutex for
  one critical section and is the step \<open>Other\<close>. Shown: the range of the election timeout and the
  quiet period it guarantees, and that the goroutines can reach a deadlock that no step leaves.
\<close>

section \<open>Deadlines\<close>

text \<open>Go's integer division truncates towards zero.\<close>

definition go_div :: "int \<Rightarrow> int \<Rightarrow> int" where
  "go_div a b = sgn a * sgn b * (\<bar>a\<bar> div \<bar>b\<bar>)"

definition Millisecond :: int where
  "Millisecond = 1000000"

definition election_due :: "int \<Rightarrow> Raft \<Rightarrow> bool" where
  "election_due now rf \<longleftrightarrow> go_div (now - latestHeardTime rf) Millisecond \<ge> electionTimeout rf"

definition heartbeat_due :: "int \<Rightarrow> Raft \<Rightarrow> bool" where
  "heartbeat_due now rf \<longleftrightarrow> go_div (now - latestIssueTime rf) Millisecond \<ge> heartbeatPeriod rf"

section \<open>The goroutines\<close>

datatype tick_pc = Top | Entering | Waiting nat | Check | Sending | Sleeping

datatype loop_pc = Select | GotElection | GotHeartbeat

datatype ticker = ElectionTicker | HeartbeatTicker

record timers =
  peer :: Raft
  mu :: "ticker option"
  epc :: tick_pc
  hpc :: tick_pc
  lpc :: loop_pc
  elections_started :: nat
  heartbeats_started :: nat

definition timers_init :: "Raft \<Rightarrow> timers" where
  "timers_init rf = \<lparr>peer = rf, mu = None, epc = Top, hpc = Top, lpc = Select,
     elections_started = 0, heartbeats_started = 0\<rparr>"

text \<open>
  The steps, by source line. A critical section that does not block is one step and needs the
  mutex free; a section that sends on a channel keeps the mutex from \<open>Check\<close> until the event loop
  receives. \<^verbatim>\<open>Cond.Wait\<close>, entered in a section of its own after the role was read, remembers the number
  of broadcasts so far and returns, with the mutex reacquired and released, once there are more.
\<close>

datatype timer_action =
    ETop | EWait | EWake | ECheck int | ESent | EAwake
  | HTop | HWait | HWake | HCheck int | HSent | HAwake
  | LElection | LHeartbeat
  | Other Raft

fun timer_step :: "timer_action \<Rightarrow> timers \<Rightarrow> timers option" where
  "timer_step ETop s =
     (if epc s = Top \<and> mu s = None
      then Some (s\<lparr>epc := (if snd (GetState (peer s)) then Entering else Check)\<rparr>)
      else None)"
| "timer_step EWait s =
     (if epc s = Entering \<and> mu s = None then Some (s\<lparr>epc := Waiting (nonLeaderCond (peer s))\<rparr>) else None)"
| "timer_step EWake s =
     (case epc s of
        Waiting g \<Rightarrow> if mu s = None \<and> g < nonLeaderCond (peer s) then Some (s\<lparr>epc := Top\<rparr>) else None
      | _ \<Rightarrow> None)"
| "timer_step (ECheck now) s =
     (if epc s = Check \<and> mu s = None
      then (if election_due now (peer s)
            then Some (s\<lparr>mu := Some ElectionTicker, epc := Sending\<rparr>)
            else Some (s\<lparr>epc := Sleeping\<rparr>))
      else None)"
| "timer_step ESent s =
     (if epc s = Sending \<and> lpc s = Select
      then Some (s\<lparr>mu := None, epc := Sleeping, lpc := GotElection\<rparr>) else None)"
| "timer_step EAwake s = (if epc s = Sleeping then Some (s\<lparr>epc := Top\<rparr>) else None)"
| "timer_step HTop s =
     (if hpc s = Top \<and> mu s = None
      then Some (s\<lparr>hpc := (if \<not> snd (GetState (peer s)) then Entering else Check)\<rparr>)
      else None)"
| "timer_step HWait s =
     (if hpc s = Entering \<and> mu s = None then Some (s\<lparr>hpc := Waiting (leaderCond (peer s))\<rparr>) else None)"
| "timer_step HWake s =
     (case hpc s of
        Waiting g \<Rightarrow> if mu s = None \<and> g < leaderCond (peer s) then Some (s\<lparr>hpc := Top\<rparr>) else None
      | _ \<Rightarrow> None)"
| "timer_step (HCheck now) s =
     (if hpc s = Check \<and> mu s = None
      then (if heartbeat_due now (peer s)
            then Some (s\<lparr>mu := Some HeartbeatTicker, hpc := Sending\<rparr>)
            else Some (s\<lparr>hpc := Sleeping\<rparr>))
      else None)"
| "timer_step HSent s =
     (if hpc s = Sending \<and> lpc s = Select
      then Some (s\<lparr>mu := None, hpc := Sleeping, lpc := GotHeartbeat\<rparr>) else None)"
| "timer_step HAwake s = (if hpc s = Sleeping then Some (s\<lparr>hpc := Top\<rparr>) else None)"
| "timer_step LElection s =
     (if lpc s = GotElection \<and> mu s = None
      then Some (s\<lparr>lpc := Select, elections_started := elections_started s + 1\<rparr>) else None)"
| "timer_step LHeartbeat s =
     (if lpc s = GotHeartbeat \<and> mu s = None
      then Some (s\<lparr>lpc := Select, heartbeats_started := heartbeats_started s + 1\<rparr>) else None)"
| "timer_step (Other rf) s = (if mu s = None then Some (s\<lparr>peer := rf\<rparr>) else None)"

fun timer_run :: "timer_action list \<Rightarrow> timers \<Rightarrow> timers option" where
  "timer_run [] s = Some s"
| "timer_run (a # as) s = (case timer_step a s of None \<Rightarrow> None | Some s' \<Rightarrow> timer_run as s')"

section \<open>The election timeout\<close>

lemma go_div_pos: "0 \<le> a \<Longrightarrow> 0 < b \<Longrightarrow> go_div a b = a div b"
  by (cases "a = 0") (simp_all add: go_div_def)

lemma reset_timeout_range:
  "heartbeatPeriod rf * 5 \<le> electionTimeout (resetElectionTimer t rf) \<and>
   electionTimeout (resetElectionTimer t rf) < heartbeatPeriod rf * 5 + 150"
  by (simp add: resetElectionTimer_def Intn_def)

lemma election_due_elapsed:
  assumes "election_due now rf" and "0 < electionTimeout rf"
  shows "electionTimeout rf * Millisecond \<le> now - latestHeardTime rf"
proof -
  let ?d = "now - latestHeardTime rf"
  have "0 < go_div ?d Millisecond" using assms by (simp add: election_due_def)
  then have "0 \<le> ?d" by (auto simp: go_div_def Millisecond_def sgn_if split: if_splits)
  then have "electionTimeout rf \<le> ?d div Millisecond"
    using assms by (simp add: election_due_def go_div_pos Millisecond_def)
  then show ?thesis by (simp add: Millisecond_def)
qed

section \<open>A deadlock\<close>

text \<open>
  The mutex is held by the election ticker, which waits for the event loop to receive; the event
  loop has received an earlier signal and waits for the mutex.
\<close>

definition deadlocked :: "timers \<Rightarrow> bool" where
  "deadlocked s \<longleftrightarrow> mu s = Some ElectionTicker \<and> epc s = Sending \<and> lpc s = GotElection \<and> hpc s \<noteq> Sending"

lemma deadlocked_step: "deadlocked s \<Longrightarrow> timer_step a s = Some s' \<Longrightarrow> deadlocked s' \<and> peer s' = peer s"
  by (cases a) (auto simp: deadlocked_def split: if_splits tick_pc.splits)

lemma deadlocked_run: "deadlocked s \<Longrightarrow> timer_run as s = Some s' \<Longrightarrow> deadlocked s' \<and> peer s' = peer s"
proof (induction as arbitrary: s)
  case (Cons a as)
  then show ?case using deadlocked_step by (fastforce split: option.splits)
qed simp

text \<open>The schedule: the event loop is slower than the ticker's 10 ms pause.\<close>

definition slow_loop :: "int \<Rightarrow> int \<Rightarrow> timer_action list" where
  "slow_loop now now' = [ETop, ECheck now, ESent, EAwake, ETop, ECheck now']"

lemma slow_loop_deadlocks:
  assumes "state rf \<noteq> Leader" and "election_due now rf" and "election_due now' rf"
  shows "\<exists>s. timer_run (slow_loop now now') (timers_init rf) = Some s \<and> deadlocked s \<and> peer s = rf"
  using assms by (simp add: slow_loop_def timers_init_def GetState_def deadlocked_def)

section \<open>A lost wakeup\<close>

text \<open>
  The election ticker waits for a broadcast that has already happened, and no signal is on its way to
  the event loop.
\<close>

definition asleep :: "timers \<Rightarrow> bool" where
  "asleep s \<longleftrightarrow> (\<exists>g. epc s = Waiting g \<and> nonLeaderCond (peer s) \<le> g) \<and> lpc s \<noteq> GotElection \<and>
     elections_started s = 0"

text \<open>A step in which nobody broadcasts on \<^verbatim>\<open>nonLeaderCond\<close>.\<close>

fun no_broadcast :: "nat \<Rightarrow> timer_action \<Rightarrow> bool" where
  "no_broadcast g (Other rf) = (nonLeaderCond rf = g)"
| "no_broadcast g a = True"

lemma asleep_step:
  assumes "asleep s" and "no_broadcast (nonLeaderCond (peer s)) a" and "timer_step a s = Some s'"
  shows "asleep s' \<and> nonLeaderCond (peer s') = nonLeaderCond (peer s)"
  using assms by (cases a) (auto simp: asleep_def split: if_splits tick_pc.splits)

lemma asleep_run:
  assumes "asleep s" and "\<forall>a \<in> set acts. no_broadcast (nonLeaderCond (peer s)) a" and "timer_run acts s = Some s'"
  shows "asleep s'"
  using assms
proof (induction acts arbitrary: s)
  case (Cons a acts)
  obtain s1 where s1: "timer_step a s = Some s1" "timer_run acts s1 = Some s'"
    using Cons.prems(3) by (auto split: option.splits)
  show ?case using asleep_step [OF Cons.prems(1) _ s1(1)] Cons.prems(2) Cons.IH [OF _ _ s1(2)] by auto
qed simp

section \<open>Properties\<close>

text \<open>
  The election timer is quiet: after it is reset at time \<open>h\<close>, with any random number, no election can be
  due before five heartbeat periods have passed, and once 150 ms more have passed an election is due.
\<close>

theorem election_timer_window:
  assumes "0 < heartbeatPeriod rf" and "rf' = resetElectionTimer (h, r) rf"
  shows "(election_due now rf' \<longrightarrow> heartbeatPeriod rf * 5 * Millisecond \<le> now - h) \<and>
    ((heartbeatPeriod rf * 5 + 150) * Millisecond \<le> now - h \<longrightarrow> election_due now rf')"
proof -
  have e: "heartbeatPeriod rf * 5 \<le> electionTimeout rf'" "electionTimeout rf' < heartbeatPeriod rf * 5 + 150"
    using reset_timeout_range [of rf "(h, r)"] assms(2) by auto
  have h: "latestHeardTime rf' = h" using assms(2) by (simp add: resetElectionTimer_def)
  have "heartbeatPeriod rf * 5 * Millisecond \<le> now - h" if "election_due now rf'"
  proof -
    have "electionTimeout rf' * Millisecond \<le> now - h"
      using election_due_elapsed [OF that] e assms(1) h by simp
    moreover have "heartbeatPeriod rf * 5 * Millisecond \<le> electionTimeout rf' * Millisecond"
      using e by (simp add: Millisecond_def)
    ultimately show ?thesis by linarith
  qed
  moreover have "election_due now rf'" if "(heartbeatPeriod rf * 5 + 150) * Millisecond \<le> now - h"
  proof -
    have "0 \<le> now - h" using that assms(1) by (simp add: Millisecond_def)
    moreover have "electionTimeout rf' \<le> (now - h) div Millisecond"
      using that e by (simp add: Millisecond_def)
    ultimately show ?thesis using h by (simp add: election_due_def go_div_pos Millisecond_def)
  qed
  ultimately show ?thesis by blast
qed

theorem election_timer_window_witness:
  "election_due 750000000 (resetElectionTimer (0, 7) sample_leader) \<and>
   \<not> election_due 599999999 (resetElectionTimer (0, 7) sample_leader)"
proof -
  have "heartbeatPeriod sample_leader = 120" by code_simp
  then show ?thesis
    using election_timer_window [of sample_leader "resetElectionTimer (0, 7) sample_leader" 0 7 750000000]
      election_timer_window [of sample_leader "resetElectionTimer (0, 7) sample_leader" 0 7 599999999]
    by (auto simp: Millisecond_def)
qed

text \<open>
  C24. The tickers can deadlock the peer. On a peer that is not leader and whose election timer has run out,
  if the event loop is descheduled for one tick between receiving a signal and taking the mutex, the
  election ticker takes the mutex and blocks on its next send, the event loop blocks on the mutex, and
  from then on no schedule releases the mutex, starts an election or changes the peer.
\<close>

theorem tickers_deadlock:
  assumes "state rf \<noteq> Leader" and "election_due now rf" and "election_due now' rf"
  shows "\<exists>s. timer_run (slow_loop now now') (timers_init rf) = Some s \<and>
    (\<forall>acts s'. timer_run acts s = Some s' \<longrightarrow>
       mu s' = Some ElectionTicker \<and> lpc s' = GotElection \<and> peer s' = rf)"
proof -
  obtain s where s: "timer_run (slow_loop now now') (timers_init rf) = Some s" "deadlocked s" "peer s = rf"
    using slow_loop_deadlocks [OF assms] by blast
  then show ?thesis using deadlocked_run [OF s(2)] by (auto simp: deadlocked_def)
qed

theorem tickers_deadlock_witness:
  "\<exists>s. timer_run (slow_loop 750000000 760000000) (timers_init sample_lagging) = Some s \<and>
     timer_run [HTop, LElection] s = None \<and> mu s = Some ElectionTicker"
proof -
  have d: "state sample_lagging \<noteq> Leader" "election_due 750000000 sample_lagging"
    "election_due 760000000 sample_lagging"
    by code_simp+
  obtain s where s: "timer_run (slow_loop 750000000 760000000) (timers_init sample_lagging) = Some s"
      and "\<forall>acts s'. timer_run acts s = Some s' \<longrightarrow>
       mu s' = Some ElectionTicker \<and> lpc s' = GotElection \<and> peer s' = sample_lagging"
    using tickers_deadlock [OF d] by blast
  then have "mu s = Some ElectionTicker" by (metis timer_run.simps(1))
  then show ?thesis using s by auto
qed

text \<open>
  The election ticker can miss its wakeup. If a leader steps down between the ticker's \<^verbatim>\<open>GetState\<close> and
  its \<^verbatim>\<open>nonLeaderCond.Wait\<close>, the broadcast is lost, and until the peer has become leader and stepped down
  again (the only other broadcast) it starts no election, whatever else happens.
\<close>

theorem lost_wakeup:
  assumes "state rf = Leader"
  shows "\<exists>s. timer_run [ETop, Other (switchTo Follower rf), EWait] (timers_init rf) = Some s \<and>
    state (peer s) = Follower \<and>
    (\<forall>acts s'. (\<forall>a \<in> set acts. no_broadcast (nonLeaderCond (peer s)) a) \<longrightarrow>
       timer_run acts s = Some s' \<longrightarrow> elections_started s' = 0 \<and> (\<exists>g. epc s' = Waiting g))"
proof -
  let ?s = "(timers_init rf)\<lparr>peer := switchTo Follower rf,
    epc := Waiting (nonLeaderCond (switchTo Follower rf))\<rparr>"
  have r: "timer_run [ETop, Other (switchTo Follower rf), EWait] (timers_init rf) = Some ?s"
    using assms by (simp add: timers_init_def GetState_def)
  have "asleep ?s" by (simp add: asleep_def timers_init_def)
  then have "asleep s'" if "\<forall>a \<in> set acts. no_broadcast (nonLeaderCond (peer ?s)) a" "timer_run acts ?s = Some s'"
    for acts s' using asleep_run [of ?s acts s'] that by blast
  moreover have "state (peer ?s) = Follower" by simp
  ultimately show ?thesis using r unfolding asleep_def by blast
qed

theorem lost_wakeup_witness:
  "\<exists>s. timer_run [ETop, Other (switchTo Follower sample_leader), EWait] (timers_init sample_leader) = Some s \<and>
     elections_started s = 0 \<and> state (peer s) = Follower"
proof -
  have "state sample_leader = Leader" by (simp add: sample_logs)
  from lost_wakeup [OF this] obtain s where
      s: "timer_run [ETop, Other (switchTo Follower sample_leader), EWait] (timers_init sample_leader) = Some s"
        "state (peer s) = Follower"
      and a: "\<forall>acts s'. (\<forall>a \<in> set acts. no_broadcast (nonLeaderCond (peer s)) a) \<longrightarrow>
         timer_run acts s = Some s' \<longrightarrow> elections_started s' = 0 \<and> (\<exists>g. epc s' = Waiting g)"
    by blast
  have "elections_started s = 0" using a [rule_format, of "[]" s] by simp
  then show ?thesis using s by blast
qed

end
