(* ===== verification/Raft_Protocol.thy ===== *)
theory Raft_Protocol
  imports Raft_Leader
begin

text \<open>
  The Raft protocol as an abstract specification: what the peers of a cluster may do, without goroutines,
  timers, messages under way or counters. Theory \<open>Raft_Refinement\<close> shows that every calm step of the program
  is a step of this protocol.

  A state has, for every peer, its term, role, log and the highest index it has been told is committed. The
  requests that have been sent are kept in sets from which they are never removed, so that they can be lost,
  delayed, reordered and repeated. The other components are history: who voted for whom in which term and
  with which log, who won a term and with which log, the log that the leader of a term has built so far, and
  how much of that log each peer has stored in that term.

  Shown: log matching, leader completeness (what a majority has stored in a term is in the log of the winner
  of every later term), and that any two committed prefixes agree.
\<close>

record proto =
  p_term :: "nat \<Rightarrow> int"
  p_role :: "nat \<Rightarrow> server_state"
  p_log :: "nat \<Rightarrow> log"
  p_commit :: "nat \<Rightarrow> int"
  p_vreqs :: "RequestVoteArgs set"
  p_areqs :: "AppendEntriesArgs set"
  p_votes :: "nat \<times> int \<Rightarrow> int option"
  p_vlog :: "nat \<times> int \<Rightarrow> log"
  p_won :: "int \<Rightarrow> (nat \<times> log) option"
  p_llog :: "int \<Rightarrow> log"
  p_acks :: "nat \<Rightarrow> int \<Rightarrow> nat"

section \<open>Steps\<close>

definition first_entry :: LogEntry where
  "first_entry = \<lparr>Command = None, Term = 0\<rparr>"

text \<open>All logs start with the same entry, as if the leader of term 0 had distributed it.\<close>

definition proto_init :: proto where
  "proto_init = \<lparr>p_term = (\<lambda>_. 0), p_role = (\<lambda>_. Follower), p_log = (\<lambda>_. [first_entry]), p_commit = (\<lambda>_. 0),
     p_vreqs = {}, p_areqs = {}, p_votes = (\<lambda>_. None), p_vlog = (\<lambda>_. []),
     p_won = [0 \<mapsto> (0, [first_entry])], p_llog = (\<lambda>T. if T = 0 then [first_entry] else []),
     p_acks = (\<lambda>_ T. if T = 0 then 1 else 0)\<rparr>"

definition sent_end :: "AppendEntriesArgs \<Rightarrow> nat" where
  "sent_end a = Suc (nat (PrevLogIndex a)) + length (Entries a)"

text \<open>A request that sends a segment of the log \<open>L\<close>.\<close>

definition segment :: "AppendEntriesArgs \<Rightarrow> log \<Rightarrow> bool" where
  "segment a L \<longleftrightarrow> 0 \<le> PrevLogIndex a \<and> sent_end a \<le> length L \<and>
     Entries a = take (length (Entries a)) (drop (Suc (nat (PrevLogIndex a))) L) \<and>
     PrevLogTerm a = Term (L ! nat (PrevLogIndex a))"

text \<open>The effects of the steps; \<open>T\<close> is the term in which a step takes place.\<close>

definition do_timeout :: "nat \<Rightarrow> proto \<Rightarrow> proto" where
  "do_timeout i x =
     (let T = p_term x i + 1 in
      x\<lparr>p_term := (p_term x)(i := T), p_role := (p_role x)(i := Candidate),
        p_votes := (p_votes x)((i, T) \<mapsto> int i), p_vlog := (p_vlog x)((i, T) := p_log x i)\<rparr>)"

definition do_grant :: "nat \<Rightarrow> int \<Rightarrow> int \<Rightarrow> proto \<Rightarrow> proto" where
  "do_grant v T c x =
     x\<lparr>p_term := (p_term x)(v := T), p_role := (p_role x)(v := Follower),
       p_votes := (p_votes x)((v, T) \<mapsto> c),
       p_vlog := (if p_votes x (v, T) = None then (p_vlog x)((v, T) := p_log x v) else p_vlog x)\<rparr>"

definition do_step_down :: "nat \<Rightarrow> int \<Rightarrow> proto \<Rightarrow> proto" where
  "do_step_down v T x = x\<lparr>p_term := (p_term x)(v := T), p_role := (p_role x)(v := Follower)\<rparr>"

definition do_win :: "nat \<Rightarrow> int \<Rightarrow> proto \<Rightarrow> proto" where
  "do_win i T x =
     x\<lparr>p_role := (p_role x)(i := Leader), p_won := (p_won x)(T \<mapsto> (i, p_log x i)),
       p_llog := (p_llog x)(T := p_log x i),
       p_acks := (p_acks x)(i := (p_acks x i)(T := length (p_log x i)))\<rparr>"

definition do_append :: "nat \<Rightarrow> int \<Rightarrow> LogEntry \<Rightarrow> proto \<Rightarrow> proto" where
  "do_append i T e x =
     x\<lparr>p_log := (p_log x)(i := p_log x i @ [e]), p_llog := (p_llog x)(T := p_log x i @ [e]),
       p_acks := (p_acks x)(i := (p_acks x i)(T := Suc (length (p_log x i))))\<rparr>"

definition do_accept :: "nat \<Rightarrow> AppendEntriesArgs \<Rightarrow> proto \<Rightarrow> proto" where
  "do_accept v a x =
     (let T = ae_Term a in
      x\<lparr>p_term := (p_term x)(v := T), p_role := (p_role x)(v := Follower),
        p_log := (p_log x)(v := splice (p_log x v) (PrevLogIndex a) (Entries a)),
        p_commit := (p_commit x)(v := max (p_commit x v) (min (LeaderCommit a) (int (sent_end a) - 1))),
        p_acks := (p_acks x)(v := (p_acks x v)(T := max (p_acks x v T) (sent_end a)))\<rparr>)"

definition do_restart :: "nat \<Rightarrow> proto \<Rightarrow> proto" where
  "do_restart v x = x\<lparr>p_role := (p_role x)(v := Follower), p_commit := (p_commit x)(v := 0)\<rparr>"

inductive pstep :: "nat \<Rightarrow> proto \<Rightarrow> proto \<Rightarrow> bool" for n where
  stutter: "pstep n x x"
| timeout: "i < n \<Longrightarrow> pstep n x (do_timeout i x)"
| ask: "CandidateId a = int i \<Longrightarrow> rv_Term a = p_term x i \<Longrightarrow>
    LastLogIndex a = len (p_log x i) - 1 \<Longrightarrow> LastLogTerm a = Term (last (p_log x i)) \<Longrightarrow>
    pstep n x (x\<lparr>p_vreqs := insert a (p_vreqs x)\<rparr>)"
| grant: "a \<in> p_vreqs x \<Longrightarrow> p_term x v \<le> rv_Term a \<Longrightarrow> up_to_date (p_log x v) a \<Longrightarrow>
    p_votes x (v, rv_Term a) \<in> {None, Some (CandidateId a)} \<Longrightarrow>
    pstep n x (do_grant v (rv_Term a) (CandidateId a) x)"
| step_down: "p_term x v \<le> T \<Longrightarrow> pstep n x (do_step_down v T x)"
| win: "p_role x i = Candidate \<Longrightarrow> majority_of n Q \<Longrightarrow> \<forall>v \<in> Q. p_votes x (v, p_term x i) = Some (int i) \<Longrightarrow>
    pstep n x (do_win i (p_term x i) x)"
| append: "p_role x i = Leader \<Longrightarrow> Term e = p_term x i \<Longrightarrow> pstep n x (do_append i (p_term x i) e x)"
| send: "p_role x i = Leader \<Longrightarrow> i < n \<Longrightarrow> ae_Term a = p_term x i \<Longrightarrow> segment a (p_log x i) \<Longrightarrow>
    LeaderCommit a \<le> p_commit x i \<Longrightarrow> pstep n x (x\<lparr>p_areqs := insert a (p_areqs x)\<rparr>)"
| accept: "a \<in> p_areqs x \<Longrightarrow> p_term x v \<le> ae_Term a \<Longrightarrow> PrevLogIndex a < len (p_log x v) \<Longrightarrow>
    Term (p_log x v ! nat (PrevLogIndex a)) = PrevLogTerm a \<Longrightarrow> pstep n x (do_accept v a x)"
| commit: "p_role x i = Leader \<Longrightarrow> k < length (p_log x i) \<Longrightarrow> Term (p_log x i ! k) = p_term x i \<Longrightarrow>
    p_commit x i < int k \<Longrightarrow> majority_of n Q \<Longrightarrow> \<forall>v \<in> Q. k < p_acks x v (p_term x i) \<Longrightarrow>
    pstep n x (x\<lparr>p_commit := (p_commit x)(i := int k)\<rparr>)"
| restart: "pstep n x (do_restart v x)"

inductive preach :: "nat \<Rightarrow> proto \<Rightarrow> bool" for n where
  preach_init: "preach n proto_init"
| preach_step: "preach n x \<Longrightarrow> pstep n x y \<Longrightarrow> preach n y"

section \<open>Logs that leaders have built\<close>

text \<open>\<open>L\<close> starts with the first \<open>m\<close> entries of the log that the leader of term \<open>T\<close> has built.\<close>

definition has :: "(int \<Rightarrow> log) \<Rightarrow> int \<Rightarrow> nat \<Rightarrow> log \<Rightarrow> bool" where
  "has G T m L \<longleftrightarrow> m \<le> length L \<and> m \<le> length (G T) \<and> take m L = take m (G T)"

text \<open>Every entry stands where the leader of its term has put it, after the same entries.\<close>

definition chain :: "(int \<Rightarrow> log) \<Rightarrow> log \<Rightarrow> bool" where
  "chain G L \<longleftrightarrow> L \<noteq> [] \<and> sorted (map Term L) \<and> (\<forall>k < length L. has G (Term (L ! k)) (Suc k) L)"

definition grows :: "(int \<Rightarrow> log) \<Rightarrow> (int \<Rightarrow> log) \<Rightarrow> bool" where
  "grows G G' \<longleftrightarrow> (\<forall>T. \<exists>X. G' T = G T @ X)"

lemma grows_refl [simp]: "grows G G"
  by (simp add: grows_def)

lemma has_grows:
  assumes "has G T m L" and "grows G G'"
  shows "has G' T m L"
proof -
  obtain X where "G' T = G T @ X" using assms(2) by (auto simp: grows_def)
  then show ?thesis using assms(1) by (simp add: has_def)
qed

lemma has_back:
  assumes "has G' T m L" and "grows G G'" and "m \<le> length (G T)"
  shows "has G T m L"
proof -
  obtain X where "G' T = G T @ X" using assms(2) by (auto simp: grows_def)
  then show ?thesis using assms(1,3) by (simp add: has_def)
qed

lemma has_le: "has G T m L \<Longrightarrow> k \<le> m \<Longrightarrow> has G T k L"
  unfolding has_def by (meson le_trans take_eq_le)

lemma has_nth: "has G T m L \<Longrightarrow> k < m \<Longrightarrow> L ! k = G T ! k"
  unfolding has_def by (metis less_le_trans take_eq_nth)

lemma has_append: "has G T m L \<Longrightarrow> has G T m (L @ X)"
  by (simp add: has_def)

lemma has_take: "has G T m L \<Longrightarrow> m \<le> k \<Longrightarrow> has G T m (take k L)"
  by (simp add: has_def min_absorb1)

lemma chain_grows: "chain G L \<Longrightarrow> grows G G' \<Longrightarrow> chain G' L"
  unfolding chain_def using has_grows by blast

lemma chain_has: "chain G L \<Longrightarrow> k < length L \<Longrightarrow> has G (Term (L ! k)) (Suc k) L"
  by (simp add: chain_def)

lemma chain_take:
  assumes "chain G L" and "0 < k"
  shows "chain G (take k L)"
proof -
  have "sorted (map Term (take k L))" using assms(1) unfolding chain_def by (metis sorted_wrt_take take_map)
  moreover have "has G (Term (take k L ! j)) (Suc j) (take k L)" if "j < length (take k L)" for j
    using chain_has [OF assms(1), of j] that by (simp add: has_take)
  ultimately show ?thesis using assms by (simp add: chain_def)
qed

lemma chain_last: "chain G L \<Longrightarrow> has G (Term (last L)) (length L) L"
  using chain_has [of G L "length L - 1"] by (simp add: chain_def last_conv_nth)

text \<open>Log matching: two such logs with entries of the same term at an index agree up to it.\<close>

lemma chain_matching:
  assumes "chain G L" and "chain G L'"
  shows "log_matching L L'"
  using assms chain_has unfolding log_matching_def has_def by (metis min_less_iff_conj)

lemma chain_sorted: "chain G L \<Longrightarrow> j \<le> k \<Longrightarrow> k < length L \<Longrightarrow> Term (L ! j) \<le> Term (L ! k)"
  unfolding chain_def by (metis (no_types, lifting) length_map nth_map order_le_less_trans sorted_iff_nth_mono)

section \<open>The invariant\<close>

text \<open>The winners of the terms between \<open>T\<close> and \<open>U\<close> started with the first \<open>m\<close> entries of the leader of \<open>T\<close>.\<close>

definition kept :: "proto \<Rightarrow> int \<Rightarrow> nat \<Rightarrow> int \<Rightarrow> bool" where
  "kept x T m U \<longleftrightarrow> (\<forall>T' i E. T < T' \<longrightarrow> T' < U \<longrightarrow> p_won x T' = Some (i, E) \<longrightarrow> has (p_llog x) T m E)"

text \<open>A majority has stored the first \<open>m\<close> entries of the leader of \<open>T\<close>, the last of them its own.\<close>

definition committed :: "nat \<Rightarrow> proto \<Rightarrow> int \<Rightarrow> nat \<Rightarrow> bool" where
  "committed n x T m \<longleftrightarrow> 0 < m \<and> m \<le> length (p_llog x T) \<and> Term (p_llog x T ! (m - 1)) = T \<and>
     p_won x T \<noteq> None \<and> (\<exists>Q. majority_of n Q \<and> (\<forall>v \<in> Q. m \<le> p_acks x v T))"

definition newer_log :: "log \<Rightarrow> log \<Rightarrow> bool" where
  "newer_log V L \<longleftrightarrow> Term (last V) < Term (last L) \<or> Term (last V) = Term (last L) \<and> length V \<le> length L"

text \<open>A vote in term \<open>U\<close> was cast with a log that has everything the voter had stored before.\<close>

definition voter_ok :: "proto \<Rightarrow> nat \<Rightarrow> int \<Rightarrow> bool" where
  "voter_ok x v U \<longleftrightarrow> chain (p_llog x) (p_vlog x (v, U)) \<and>
     (\<forall>T m. T < U \<longrightarrow> 0 < m \<longrightarrow> m \<le> p_acks x v T \<longrightarrow> kept x T m U \<longrightarrow> has (p_llog x) T m (p_vlog x (v, U)))"

definition node_inv :: "proto \<Rightarrow> nat \<Rightarrow> bool" where
  "node_inv x v \<longleftrightarrow>
     chain (p_llog x) (p_log x v) \<and> (\<forall>e \<in> set (p_log x v). Term e \<le> p_term x v) \<and> 0 \<le> p_term x v \<and>
     (p_role x v = Leader \<longrightarrow> (\<exists>E. p_won x (p_term x v) = Some (v, E)) \<and> 0 < p_term x v \<and>
        p_log x v = p_llog x (p_term x v) \<and> p_acks x v (p_term x v) = length (p_log x v)) \<and>
     (p_role x v = Candidate \<longrightarrow> 0 < p_term x v \<and> (\<forall>E. p_won x (p_term x v) \<noteq> Some (v, E))) \<and>
     (\<forall>T. p_votes x (v, T) \<noteq> None \<longrightarrow> T \<le> p_term x v) \<and>
     (\<forall>T. p_acks x v T \<le> length (p_llog x T) \<and> (0 < p_acks x v T \<longrightarrow> T \<le> p_term x v)) \<and>
     (\<forall>T m. 0 < m \<longrightarrow> m \<le> p_acks x v T \<longrightarrow> kept x T m (p_term x v + 1) \<longrightarrow> has (p_llog x) T m (p_log x v))"

definition commit_inv :: "nat \<Rightarrow> proto \<Rightarrow> nat \<Rightarrow> bool" where
  "commit_inv n x v \<longleftrightarrow> v < n \<longrightarrow> 0 \<le> p_commit x v \<and>
     (\<exists>T m. T \<le> p_term x v \<and> committed n x T m \<and> nat (p_commit x v) < m \<and>
        has (p_llog x) T (Suc (nat (p_commit x v))) (p_log x v))"

definition won_inv :: "nat \<Rightarrow> proto \<Rightarrow> int \<Rightarrow> bool" where
  "won_inv n x T \<longleftrightarrow>
     (case p_won x T of
        None \<Rightarrow> p_llog x T = []
      | Some (i, E) \<Rightarrow>
          0 \<le> T \<and> T \<le> p_term x i \<and> E \<noteq> [] \<and> chain (p_llog x) (p_llog x T) \<and>
          (\<forall>e \<in> set E. if T = 0 then Term e = 0 else Term e < T) \<and>
          (\<exists>X. p_llog x T = E @ X \<and> (\<forall>e \<in> set X. Term e = T)) \<and>
          (0 < T \<longrightarrow> (\<exists>Q. majority_of n Q \<and> (\<forall>v \<in> Q. p_votes x (v, T) = Some (int i) \<and> voter_ok x v T \<and>
             newer_log (p_vlog x (v, T)) E))))"

definition vote_inv :: "proto \<Rightarrow> nat \<Rightarrow> int \<Rightarrow> bool" where
  "vote_inv x v U \<longleftrightarrow>
     (\<forall>c. p_votes x (v, U) = Some c \<longrightarrow>
        (\<exists>j. c = int j \<and> U \<le> p_term x j \<and>
           (p_role x j = Candidate \<longrightarrow> p_term x j = U \<longrightarrow> newer_log (p_vlog x (v, U)) (p_log x j))) \<and>
        (p_won x U = None \<longrightarrow> voter_ok x v U))"

definition vreq_inv :: "proto \<Rightarrow> RequestVoteArgs \<Rightarrow> bool" where
  "vreq_inv x a \<longleftrightarrow> (\<exists>j. CandidateId a = int j \<and> rv_Term a \<le> p_term x j \<and>
     (p_role x j = Candidate \<longrightarrow> p_term x j = rv_Term a \<longrightarrow>
        LastLogIndex a = len (p_log x j) - 1 \<and> LastLogTerm a = Term (last (p_log x j))))"

definition areq_inv :: "nat \<Rightarrow> proto \<Rightarrow> AppendEntriesArgs \<Rightarrow> bool" where
  "areq_inv n x a \<longleftrightarrow> p_won x (ae_Term a) \<noteq> None \<and> segment a (p_llog x (ae_Term a)) \<and>
     (\<exists>T m. T \<le> ae_Term a \<and> committed n x T m \<and> LeaderCommit a < int m)"

definition pinv :: "nat \<Rightarrow> proto \<Rightarrow> bool" where
  "pinv n x \<longleftrightarrow> (\<forall>v. node_inv x v) \<and> (\<forall>v. commit_inv n x v) \<and> (\<forall>T. won_inv n x T) \<and> (\<forall>v U. vote_inv x v U) \<and>
     (\<forall>a \<in> p_vreqs x. vreq_inv x a) \<and> (\<forall>a \<in> p_areqs x. areq_inv n x a)"

lemma pinvD:
  assumes "pinv n x"
  shows "node_inv x v" "commit_inv n x v" "won_inv n x T" "vote_inv x v U"
    "a \<in> p_vreqs x \<Longrightarrow> vreq_inv x a" "b \<in> p_areqs x \<Longrightarrow> areq_inv n x b"
  using assms by (auto simp: pinv_def)

lemma node_invD:
  assumes "node_inv x v"
  shows "chain (p_llog x) (p_log x v)" "e \<in> set (p_log x v) \<Longrightarrow> Term e \<le> p_term x v" "0 \<le> p_term x v"
    "p_role x v = Leader \<Longrightarrow> \<exists>E. p_won x (p_term x v) = Some (v, E)"
    "p_role x v = Leader \<Longrightarrow> p_log x v = p_llog x (p_term x v)"
    "p_role x v = Leader \<Longrightarrow> p_acks x v (p_term x v) = length (p_log x v)"
    "p_role x v \<noteq> Follower \<Longrightarrow> 0 < p_term x v"
    "p_role x v = Candidate \<Longrightarrow> p_won x (p_term x v) \<noteq> Some (v, E)"
    "p_votes x (v, T) \<noteq> None \<Longrightarrow> T \<le> p_term x v"
    "p_acks x v T \<le> length (p_llog x T)" "0 < p_acks x v T \<Longrightarrow> T \<le> p_term x v"
    "0 < m \<Longrightarrow> m \<le> p_acks x v T \<Longrightarrow> kept x T m (p_term x v + 1) \<Longrightarrow> has (p_llog x) T m (p_log x v)"
proof -
  show "0 < p_term x v" if "p_role x v \<noteq> Follower"
    using assms that unfolding node_inv_def by (cases "p_role x v") simp_all
qed (use assms in \<open>simp_all add: node_inv_def\<close>)

lemma won_invD:
  assumes "won_inv n x T" and "p_won x T = Some (i, E)"
  shows "0 \<le> T" "T \<le> p_term x i" "E \<noteq> []" "chain (p_llog x) (p_llog x T)"
    "\<exists>X. p_llog x T = E @ X \<and> (\<forall>e \<in> set X. Term e = T)"
    "e \<in> set E \<Longrightarrow> Term e \<le> T" "0 < T \<Longrightarrow> e \<in> set E \<Longrightarrow> Term e < T"
    "0 < T \<Longrightarrow> \<exists>Q. majority_of n Q \<and> (\<forall>v \<in> Q. p_votes x (v, T) = Some (int i) \<and> voter_ok x v T \<and>
             newer_log (p_vlog x (v, T)) E)"
  using assms unfolding won_inv_def by (auto split: if_splits)

section \<open>Leader completeness\<close>

lemma newer_log_has:
  assumes V: "chain (p_llog x) V" and E: "chain (p_llog x) E" and "has (p_llog x) T m V"
    and "Term (last V) = Term (last E)" and "length V \<le> length E"
  shows "has (p_llog x) T m E"
proof -
  have "take (length V) E = V"
    using chain_last [OF V] chain_last [OF E] assms(4,5) unfolding has_def by (metis order_refl take_all take_eq_le)
  then show ?thesis using assms(3,5) unfolding has_def by (metis le_trans take_eq_le take_take min.absorb1)
qed

theorem leader_complete:
  assumes inv: "pinv n x" and c: "committed n x T m" and "T < U" and "p_won x U = Some (i, E)"
  shows "has (p_llog x) T m E"
  using assms(3,4)
proof (induction "nat (U - T)" arbitrary: U i E rule: less_induct)
  case less
  let ?G = "p_llog x"
  note w = won_invD [OF pinvD(3) [OF inv] less.prems(2)]
  have T: "0 \<le> T" using c won_invD(1) [OF pinvD(3) [OF inv]] by (auto simp: committed_def)
  have k: "kept x T m U" unfolding kept_def using less.hyps by simp
  obtain Q Q' where q: "majority_of n Q" "\<forall>v \<in> Q. m \<le> p_acks x v T"
      and q': "majority_of n Q'" "\<forall>v \<in> Q'. voter_ok x v U \<and> newer_log (p_vlog x (v, U)) E"
    using c w(8) T less.prems(1) unfolding committed_def by fastforce
  obtain v where v: "m \<le> p_acks x v T" "voter_ok x v U" "newer_log (p_vlog x (v, U)) E"
    using maj.quorum_meet [OF q(1) q'(1)] q(2) q'(2) by blast
  let ?V = "p_vlog x (v, U)"
  have V: "chain ?G ?V" "has ?G T m ?V"
    using v(1,2) k c less.prems(1) by (auto simp: voter_ok_def committed_def)
  obtain X where X: "?G U = E @ X" using w(5) by blast
  have E: "chain ?G E" using chain_take [OF w(4), of "length E"] w(3) X by simp
  show ?case
  proof (cases "Term (last ?V) < Term (last E)")
    case False
    then show ?thesis using v(3) newer_log_has [OF V(1) E V(2)] by (auto simp: newer_log_def)
  next
    case True
    let ?t = "Term (last E)"
    have m: "0 < m" "m \<le> length ?V" "Term (?V ! (m - 1)) = T"
      using c V(2) has_nth [OF V(2), of "m - 1"] by (auto simp: committed_def has_def)
    have "T \<le> Term (last ?V)"
      using chain_sorted [OF V(1), of "m - 1" "length ?V - 1"] m V(1) by (auto simp: chain_def last_conv_nth)
    then have t: "T < ?t" "?t < U" "0 < ?t" using True w(3,7) T less.prems(1) by auto
    have "?G ?t \<noteq> []" using chain_last [OF E] w(3) by (auto simp: has_def)
    then obtain j F where F: "p_won x ?t = Some (j, F)"
      using pinvD(3) [OF inv, of ?t] by (auto simp: won_inv_def split: option.splits)
    then have hF: "has ?G T m F" using less.hyps [of ?t] t by auto
    note f = won_invD [OF pinvD(3) [OF inv] F]
    obtain Y where Y: "?G ?t = F @ Y" using f(5) by blast
    have lE: "take (length E) (?G ?t) = E" "length E \<le> length (?G ?t)"
      using chain_last [OF E] by (auto simp: has_def)
    have "length F < length E"
    proof (rule ccontr)
      assume "\<not> ?thesis"
      then have "E = take (length E) F" using lE(1) Y by simp
      then have "last E \<in> set F" using w(3) by (metis in_set_takeD last_in_set)
      then show False using f(7) t(3) by auto
    qed
    then have "take m E = take m F" using lE(1) Y hF unfolding has_def
      by (metis append_eq_conv_conj le_trans less_imp_le take_eq_le take_take min.absorb1)
    then show ?thesis using hF \<open>length F < length E\<close> by (simp add: has_def)
  qed
qed

section \<open>What a step keeps\<close>

text \<open>The history only grows, and what a peer stored in an earlier term is settled.\<close>

definition extends :: "proto \<Rightarrow> proto \<Rightarrow> bool" where
  "extends x y \<longleftrightarrow>
     (\<forall>T. \<exists>X. p_llog y T = p_llog x T @ X \<and> (p_won x T \<noteq> None \<longrightarrow> (\<forall>e \<in> set X. Term e = T))) \<and>
     p_won x \<subseteq>\<^sub>m p_won y \<and> p_votes x \<subseteq>\<^sub>m p_votes y \<and>
     (\<forall>v T. p_votes x (v, T) \<noteq> None \<longrightarrow> p_vlog y (v, T) = p_vlog x (v, T)) \<and>
     (\<forall>v T. p_acks x v T \<le> p_acks y v T \<and> (T < p_term x v \<longrightarrow> p_acks y v T = p_acks x v T)) \<and>
     (\<forall>v. p_term x v \<le> p_term y v)"

lemma map_leD': "f \<subseteq>\<^sub>m g \<Longrightarrow> f a = Some b \<Longrightarrow> g a = Some b"
  by (metis domI map_le_def)

lemma extendsD:
  assumes "extends x y"
  shows "grows (p_llog x) (p_llog y)" "p_won x T = Some w \<Longrightarrow> p_won y T = Some w"
    "p_votes x (v, T) = Some c \<Longrightarrow> p_votes y (v, T) = Some c"
    "p_votes x (v, T) = Some c \<Longrightarrow> p_vlog y (v, T) = p_vlog x (v, T)"
    "p_acks x v T \<le> p_acks y v T" "T < p_term x v \<Longrightarrow> p_acks y v T = p_acks x v T"
    "p_term x v \<le> p_term y v"
    "p_won x T \<noteq> None \<Longrightarrow> \<exists>X. p_llog y T = p_llog x T @ X \<and> (\<forall>e \<in> set X. Term e = T)"
proof -
  show "grows (p_llog x) (p_llog y)"
    using assms unfolding extends_def grows_def by blast
  show "p_won y T = Some w" if "p_won x T = Some w"
    using map_leD' [of "p_won x" "p_won y"] assms that unfolding extends_def by blast
  show "p_votes y (v, T) = Some c" if "p_votes x (v, T) = Some c"
    using map_leD' [of "p_votes x" "p_votes y"] assms that unfolding extends_def by blast
  show "\<exists>X. p_llog y T = p_llog x T @ X \<and> (\<forall>e \<in> set X. Term e = T)" if "p_won x T \<noteq> None"
    using assms that unfolding extends_def by blast
qed (use assms in \<open>auto simp: extends_def\<close>)

lemma grows_nth: "grows G G' \<Longrightarrow> k < length (G T) \<Longrightarrow> G' T ! k = G T ! k"
  unfolding grows_def by (metis nth_append)

lemma grows_length: "grows G G' \<Longrightarrow> length (G T) \<le> length (G' T)"
  unfolding grows_def by (metis le_add1 length_append)

lemma kept_back:
  assumes "extends x y" and "kept y T m U" and "m \<le> length (p_llog x T)" and "U' \<le> U"
  shows "kept x T m U'"
  unfolding kept_def
proof (intro allI impI)
  fix T' i E assume "T < T'" "T' < U'" "p_won x T' = Some (i, E)"
  then have "has (p_llog y) T m E" using assms(2,4) extendsD(2) [OF assms(1)] unfolding kept_def by (metis order_less_le_trans)
  then show "has (p_llog x) T m E" by (rule has_back [OF _ extendsD(1) [OF assms(1)] assms(3)])
qed

lemma committed_extends:
  assumes "extends x y" and "committed n x T m"
  shows "committed n y T m"
proof -
  have "m - 1 < length (p_llog x T)" using assms(2) by (auto simp: committed_def)
  then have "p_llog y T ! (m - 1) = p_llog x T ! (m - 1)" by (rule grows_nth [OF extendsD(1) [OF assms(1)]])
  moreover have "m \<le> length (p_llog y T)"
    using assms(2) grows_length [OF extendsD(1) [OF assms(1)], of T] by (auto simp: committed_def)
  moreover have "p_won y T \<noteq> None" using assms extendsD(2) [OF assms(1)] unfolding committed_def by blast
  moreover have "\<exists>Q. majority_of n Q \<and> (\<forall>v \<in> Q. m \<le> p_acks y v T)"
    using assms(2) extendsD(5) [OF assms(1)] unfolding committed_def by (meson le_trans)
  ultimately show ?thesis using assms(2) by (simp add: committed_def)
qed

lemma segment_grows:
  assumes "segment a (G T)" and "grows G G'"
  shows "segment a (G' T)"
proof -
  obtain X where "G' T = G T @ X" using assms(2) by (auto simp: grows_def)
  then show ?thesis using assms(1) by (auto simp: segment_def sent_end_def nth_append)
qed

lemma areq_extends:
  assumes "extends x y" and "areq_inv n x a"
  shows "areq_inv n y a"
  using assms(2) segment_grows [OF _ extendsD(1) [OF assms(1)]] extendsD(2) [OF assms(1)] committed_extends [OF assms(1)]
  unfolding areq_inv_def by blast

lemma voter_extends:
  assumes ext: "extends x y" and n: "node_inv x v" and vote: "p_votes x (v, U) = Some c" and ok: "voter_ok x v U"
  shows "voter_ok y v U"
  unfolding voter_ok_def
proof (intro conjI allI impI)
  have vl: "p_vlog y (v, U) = p_vlog x (v, U)" by (rule extendsD(4) [OF ext vote])
  show "chain (p_llog y) (p_vlog y (v, U))"
    using ok chain_grows [OF _ extendsD(1) [OF ext]] by (simp add: vl voter_ok_def)
  fix T m assume t: "T < U" "0 < m" "m \<le> p_acks y v T" "kept y T m U"
  have "T < p_term x v" using node_invD(9) [OF n, of U] vote t(1) by simp
  then have a: "m \<le> p_acks x v T" using t(3) extendsD(6) [OF ext] by simp
  then have "m \<le> length (p_llog x T)" using node_invD(10) [OF n] le_trans by blast
  then have "has (p_llog x) T m (p_vlog x (v, U))"
    using ok t(1,2) a kept_back [OF ext t(4)] unfolding voter_ok_def by blast
  then show "has (p_llog y) T m (p_vlog y (v, U))" using has_grows [OF _ extendsD(1) [OF ext]] vl by simp
qed

lemma chain_append_own:
  assumes "chain G L" and "G T = L @ X" and "\<forall>e \<in> set X. Term e = T" and "\<forall>e \<in> set L. Term e \<le> T"
  shows "chain G (L @ X)"
proof -
  have "map Term X = replicate (length X) T" using assms(3) by (intro nth_equalityI) auto
  then have "sorted (map Term (L @ X))"
    using assms(1,4) unfolding chain_def by (auto simp: sorted_append)
  moreover have "has G (Term ((L @ X) ! k)) (Suc k) (L @ X)" if "k < length (L @ X)" for k
  proof (cases "k < length L")
    case True
    then show ?thesis using chain_has [OF assms(1), of k] by (simp add: nth_append has_append)
  next
    case False
    then have "(L @ X) ! k \<in> set X" using that by (simp add: nth_append)
    then show ?thesis using assms(2,3) that by (simp add: has_def)
  qed
  ultimately show ?thesis using assms(1) by (simp add: chain_def)
qed

lemma won_terms:
  assumes "won_inv n x T" and "p_won x T \<noteq> None"
  shows "\<forall>e \<in> set (p_llog x T). Term e \<le> T"
proof -
  obtain i E where "p_won x T = Some (i, E)" using assms(2) by auto
  note w = won_invD [OF assms(1) this]
  then obtain X where "p_llog x T = E @ X" "\<forall>e \<in> set X. Term e = T" by blast
  then show ?thesis using w(6) by auto
qed

lemma won_extends:
  assumes ext: "extends x y" and inv: "pinv n x" and w: "p_won x T = Some (i, E)"
  shows "won_inv n y T"
proof -
  note wx = won_invD [OF pinvD(3) [OF inv] w]
  have wy: "p_won y T = Some (i, E)" by (rule extendsD(2) [OF ext w])
  obtain X where X: "p_llog x T = E @ X" "\<forall>e \<in> set X. Term e = T" using wx(5) by blast
  obtain Y where Y: "p_llog y T = p_llog x T @ Y" "\<forall>e \<in> set Y. Term e = T"
    using extendsD(8) [OF ext, of T] w by auto
  have "chain (p_llog y) (p_llog x T @ Y)"
    using chain_append_own [OF chain_grows [OF wx(4) extendsD(1) [OF ext]] Y] won_terms [OF pinvD(3) [OF inv]] w
    by blast
  moreover have "\<exists>Q. majority_of n Q \<and> (\<forall>v \<in> Q. p_votes y (v, T) = Some (int i) \<and> voter_ok y v T \<and>
      newer_log (p_vlog y (v, T)) E)" if "0 < T"
    using wx(8) [OF that] extendsD(3,4) [OF ext] voter_extends [OF ext pinvD(1) [OF inv]] by metis
  moreover have "T \<le> p_term y i" using wx(2) extendsD(7) [OF ext, of i] by simp
  moreover have "\<forall>e \<in> set E. if T = 0 then Term e = 0 else Term e < T"
    using pinvD(3) [OF inv, of T] w by (simp add: won_inv_def)
  ultimately show ?thesis
    using wx(1,3) X Y unfolding won_inv_def wy by auto
qed

definition same_peer :: "proto \<Rightarrow> proto \<Rightarrow> nat \<Rightarrow> bool" where
  "same_peer x y v \<longleftrightarrow> p_term y v = p_term x v \<and> p_role y v = p_role x v \<and> p_log y v = p_log x v \<and>
     p_commit y v = p_commit x v \<and> p_acks y v = p_acks x v \<and> (\<forall>T. p_votes y (v, T) = p_votes x (v, T))"

text \<open>What a peer has stored, it keeps in its log.\<close>

lemma stored_extends:
  assumes ext: "extends x y" and n: "node_inv x v" and "p_acks y v T = p_acks x v T" "0 < m" "m \<le> p_acks y v T"
    and k: "kept y T m (p_term y v + 1)"
  shows "has (p_llog x) T m (p_log x v)"
proof -
  have a: "m \<le> p_acks x v T" using assms(3,5) by simp
  then have "m \<le> length (p_llog x T)" using node_invD(10) [OF n] le_trans by blast
  moreover have "p_term x v + 1 \<le> p_term y v + 1" using extendsD(7) [OF ext] by simp
  ultimately show ?thesis using node_invD(12) [OF n assms(4) a] kept_back [OF ext k] by blast
qed

lemma node_extends:
  assumes ext: "extends x y" and inv: "pinv n x" and same: "same_peer x y v"
    and fresh: "\<And>T E. p_won x T = None \<Longrightarrow> p_won y T \<noteq> Some (v, E)"
    and lead: "p_role x v = Leader \<Longrightarrow> p_llog y (p_term x v) = p_llog x (p_term x v)"
  shows "node_inv y v"
  unfolding node_inv_def
proof (intro conjI allI impI)
  note n = node_invD [OF pinvD(1) [OF inv, of v]]
  note sm = same [unfolded same_peer_def]
  note g = extendsD(1) [OF ext]
  show "chain (p_llog y) (p_log y v)" using chain_grows [OF n(1) g] sm by simp
  show "\<forall>e \<in> set (p_log y v). Term e \<le> p_term y v" "0 \<le> p_term y v" using n(2,3) sm by auto
  show "\<exists>E. p_won y (p_term y v) = Some (v, E)" "0 < p_term y v" "p_log y v = p_llog y (p_term y v)"
    "p_acks y v (p_term y v) = length (p_log y v)" if "p_role y v = Leader"
    using n(4,5,6,7) sm that lead extendsD(2) [OF ext] by auto
  show "p_won y (p_term y v) \<noteq> Some (v, E)" if "p_role y v = Candidate" for E
    using n(8) fresh sm that extendsD(2) [OF ext, of "p_term x v"] by (cases "p_won x (p_term x v)") auto
  show "0 < p_term y v" if "p_role y v = Candidate" using n(7) sm that by auto
  show "T \<le> p_term y v" if "p_votes y (v, T) \<noteq> None" for T using n(9) that sm by simp
  show "p_acks y v T \<le> length (p_llog y T)" for T
    using n(10) [of T] grows_length [OF g, of T] sm by auto
  show "T \<le> p_term y v" if "0 < p_acks y v T" for T using n(11) that sm by simp
  show "has (p_llog y) T m (p_log y v)"
    if "0 < m" "m \<le> p_acks y v T" "kept y T m (p_term y v + 1)" for T m
    using has_grows [OF stored_extends [OF ext pinvD(1) [OF inv] _ that] g] sm by simp
qed

lemma commit_extends:
  assumes ext: "extends x y" and inv: "commit_inv n x v" and c: "p_commit y v = p_commit x v"
    and log: "\<And>T. has (p_llog x) T (Suc (nat (p_commit x v))) (p_log x v) \<Longrightarrow>
       has (p_llog x) T (Suc (nat (p_commit x v))) (p_log y v)"
  shows "commit_inv n y v"
  using inv log committed_extends [OF ext] has_grows [OF _ extendsD(1) [OF ext]] extendsD(7) [OF ext, of v]
  unfolding commit_inv_def c by (meson order_trans)

lemma vote_extends:
  assumes ext: "extends x y" and inv: "pinv n x" and same: "\<And>v. v \<noteq> i \<Longrightarrow> same_peer x y v"
    and cand: "p_role y i = Candidate \<Longrightarrow> p_term x i < p_term y i \<or>
      p_role x i = Candidate \<and> p_term y i = p_term x i \<and> p_log y i = p_log x i"
    and v: "p_votes y (v, U) = p_votes x (v, U)"
  shows "vote_inv y v U"
  unfolding vote_inv_def
proof (intro allI impI conjI)
  fix c assume "p_votes y (v, U) = Some c"
  then have c: "p_votes x (v, U) = Some c" using v by simp
  have vl: "p_vlog y (v, U) = p_vlog x (v, U)" by (rule extendsD(4) [OF ext c])
  obtain j where j: "c = int j" "U \<le> p_term x j"
      "p_role x j = Candidate \<longrightarrow> p_term x j = U \<longrightarrow> newer_log (p_vlog x (v, U)) (p_log x j)"
    using pinvD(4) [OF inv, of v U] c unfolding vote_inv_def by blast
  have "p_role y j = Candidate \<longrightarrow> p_term y j = U \<longrightarrow> newer_log (p_vlog y (v, U)) (p_log y j)"
    using j cand same [of j] vl by (cases "j = i") (auto simp: same_peer_def)
  moreover have "U \<le> p_term y j" using j(2) extendsD(7) [OF ext, of j] by simp
  ultimately show "\<exists>j. c = int j \<and> U \<le> p_term y j \<and>
      (p_role y j = Candidate \<longrightarrow> p_term y j = U \<longrightarrow> newer_log (p_vlog y (v, U)) (p_log y j))"
    using j(1) by blast
  show "voter_ok y v U" if "p_won y U = None"
  proof -
    have "p_won x U = None" using extendsD(2) [OF ext, of U] that by (cases "p_won x U") auto
    then show ?thesis
      using pinvD(4) [OF inv, of v U] c voter_extends [OF ext pinvD(1) [OF inv] c] by (simp add: vote_inv_def)
  qed
qed

lemma vreq_extends:
  assumes ext: "extends x y" and inv: "vreq_inv x a" and same: "\<And>v. v \<noteq> i \<Longrightarrow> same_peer x y v"
    and cand: "p_role y i = Candidate \<Longrightarrow> p_term x i < p_term y i \<or>
      p_role x i = Candidate \<and> p_term y i = p_term x i \<and> p_log y i = p_log x i"
  shows "vreq_inv y a"
proof -
  obtain j where j: "CandidateId a = int j" "rv_Term a \<le> p_term x j"
      "p_role x j = Candidate \<longrightarrow> p_term x j = rv_Term a \<longrightarrow>
        LastLogIndex a = len (p_log x j) - 1 \<and> LastLogTerm a = Term (last (p_log x j))"
    using inv unfolding vreq_inv_def by blast
  have "p_role y j = Candidate \<longrightarrow> p_term y j = rv_Term a \<longrightarrow>
      LastLogIndex a = len (p_log y j) - 1 \<and> LastLogTerm a = Term (last (p_log y j))"
    using j cand same [of j] by (cases "j = i") (auto simp: same_peer_def)
  moreover have "rv_Term a \<le> p_term y j" using j(2) extendsD(7) [OF ext, of j] by simp
  ultimately show ?thesis using j(1) unfolding vreq_inv_def by blast
qed

text \<open>A step in which one peer acts: what remains to be shown of it.\<close>

lemma pinv_at:
  assumes ext: "extends x y" and inv: "pinv n x" and same: "\<And>v. v \<noteq> i \<Longrightarrow> same_peer x y v"
    and lead: "\<And>v. v \<noteq> i \<Longrightarrow> p_role x v = Leader \<Longrightarrow> p_llog y (p_term x v) = p_llog x (p_term x v)"
    and won: "\<And>T v E. p_won x T = None \<Longrightarrow> p_won y T = Some (v, E) \<Longrightarrow> v = i \<and> won_inv n y T"
    and none: "\<And>T. p_won y T = None \<Longrightarrow> p_llog y T = p_llog x T"
    and node: "node_inv y i" and com: "commit_inv n y i"
    and cand: "p_role y i = Candidate \<Longrightarrow> p_term x i < p_term y i \<or>
      p_role x i = Candidate \<and> p_term y i = p_term x i \<and> p_log y i = p_log x i"
    and votes: "\<And>v U. p_votes y (v, U) \<noteq> p_votes x (v, U) \<Longrightarrow> vote_inv y v U"
    and reqs: "p_vreqs y = p_vreqs x" "p_areqs y = p_areqs x"
  shows "pinv n y"
  unfolding pinv_def
proof (intro conjI allI ballI)
  fix v show "node_inv y v"
  proof (cases "v = i")
    case False
    then show ?thesis using node_extends [OF ext inv same [OF False]] lead won by blast
  qed (use node in simp)
  show "commit_inv n y v"
  proof (cases "v = i")
    case False
    then show ?thesis
      using commit_extends [OF ext pinvD(2) [OF inv, of v]] same [OF False] by (simp add: same_peer_def)
  qed (use com in simp)
next
  fix T show "won_inv n y T"
  proof (cases "p_won x T")
    case None
    show ?thesis
    proof (cases "p_won y T")
      case n: None
      have "p_llog x T = []" using pinvD(3) [OF inv, of T] None by (simp add: won_inv_def)
      then show ?thesis using n none by (simp add: won_inv_def)
    qed (use won None in auto)
  qed (use won_extends [OF ext inv] in auto)
next
  fix v U show "vote_inv y v U" using votes vote_extends [OF ext inv same cand] by blast
next
  fix a assume "a \<in> p_vreqs y"
  then show "vreq_inv y a" using vreq_extends [OF ext pinvD(5) [OF inv] same cand] reqs by simp
next
  fix a assume "a \<in> p_areqs y"
  then show "areq_inv n y a" using areq_extends [OF ext pinvD(6) [OF inv]] reqs by simp
qed

section \<open>Every step keeps the invariant\<close>

lemma extends_plain:
  assumes "p_llog y = p_llog x" "p_won y = p_won x" "p_votes y = p_votes x" "p_vlog y = p_vlog x" "p_acks y = p_acks x"
    "\<And>v. p_term x v \<le> p_term y v"
  shows "extends x y"
  using assms by (simp add: extends_def)

lemma winner_new:
  assumes inv: "pinv n x" and r: "p_role x i = Candidate" and Q: "majority_of n Q"
    and v: "\<forall>v \<in> Q. p_votes x (v, p_term x i) = Some (int i)"
  shows "p_won x (p_term x i) = None"
proof (rule ccontr)
  let ?T = "p_term x i"
  note n = node_invD [OF pinvD(1) [OF inv, of i]]
  have T: "0 < ?T" using n(7) r by simp
  assume "p_won x ?T \<noteq> None"
  then obtain j E where j: "p_won x ?T = Some (j, E)" by auto
  obtain Q' where q: "majority_of n Q'" "\<forall>v \<in> Q'. p_votes x (v, ?T) = Some (int j)"
    using won_invD(8) [OF pinvD(3) [OF inv] j T] by blast
  have "int i = int j"
    by (rule maj.unique_choice [OF Q q(1), of "\<lambda>v. p_votes x (v, ?T)"]) (use v q(2) in auto)
  then show False using n(8) r j by simp
qed

lemma unwon_empty:
  assumes "pinv n x" and "p_won x T = None"
  shows "p_llog x T = []" "p_acks x i T = 0"
proof -
  show e: "p_llog x T = []" using pinvD(3) [OF assms(1), of T] assms(2) by (simp add: won_inv_def)
  show "p_acks x i T = 0" using node_invD(10) [OF pinvD(1) [OF assms(1)], of i T] e by simp
qed

text \<open>Every step extends the history.\<close>

lemma pstep_extends: "pstep n x y \<Longrightarrow> pinv n x \<Longrightarrow> extends x y"
proof (induction rule: pstep.induct)
  case (timeout i x)
  have "p_votes x (i, p_term x i + 1) = None"
    using node_invD(9) [OF pinvD(1) [OF timeout.prems], of i "p_term x i + 1"]
    by (cases "p_votes x (i, p_term x i + 1)") auto
  then show ?case by (auto simp: extends_def do_timeout_def Let_def map_le_def)
next
  case (grant a x v)
  then show ?case by (auto simp: extends_def do_grant_def map_le_def)
next
  case (win x i Q)
  have "p_won x (p_term x i) = None" by (rule winner_new [OF win.prems win.hyps])
  then show ?case
    using unwon_empty [OF win.prems] by (auto simp: extends_def do_win_def map_le_def)
next
  case (append x i e)
  then show ?case
    using node_invD(4-6) [OF pinvD(1) [OF append.prems] append.hyps(1)]
    by (auto simp: extends_def do_append_def)
qed (auto simp: extends_def do_step_down_def do_accept_def do_restart_def Let_def)

text \<open>A peer becomes a follower of the same or a later term.\<close>

lemma node_follower:
  assumes ext: "extends x y" and inv: "node_inv x v" and "p_role y v = Follower" "p_log y v = p_log x v"
    and "p_acks y v = p_acks x v" and "p_llog y = p_llog x" and "\<And>T. p_votes y (v, T) \<noteq> None \<Longrightarrow> T \<le> p_term y v"
  shows "node_inv y v"
  unfolding node_inv_def
proof (intro conjI allI impI)
  note n = node_invD [OF inv]
  have t: "p_term x v \<le> p_term y v" by (rule extendsD(7) [OF ext])
  show "chain (p_llog y) (p_log y v)" "\<forall>e \<in> set (p_log y v). Term e \<le> p_term y v" "0 \<le> p_term y v"
    using n(1,2,3) t assms(4,6) by force+
  show "p_acks y v T \<le> length (p_llog y T)" for T using n(10) assms(5,6) by simp
  show "T \<le> p_term y v" if "0 < p_acks y v T" for T using n(11) that t assms(5) by (metis order_trans)
  show "has (p_llog y) T m (p_log y v)" if "0 < m" "m \<le> p_acks y v T" "kept y T m (p_term y v + 1)" for T m
    using stored_extends [OF ext inv _ that] assms(4-6) by simp
qed (use assms(3,7) in auto)

lemma pinv_step_down:
  assumes inv: "pinv n x" and t: "p_term x v \<le> T"
  shows "pinv n (do_step_down v T x)"
proof (rule pinv_at [where i = v])
  let ?y = "do_step_down v T x"
  show ext: "extends x ?y" by (rule pstep_extends [OF step_down [OF t] inv])
  show "node_inv ?y v"
    using node_invD(9) [OF pinvD(1) [OF inv]] t
    by (intro node_follower [OF ext pinvD(1) [OF inv]]) (auto simp: do_step_down_def intro: order_trans)
  show "commit_inv n ?y v"
    by (rule commit_extends [OF ext pinvD(2) [OF inv]]) (simp_all add: do_step_down_def)
qed (use inv in \<open>auto simp: do_step_down_def same_peer_def\<close>)

lemma committed_zero:
  assumes "pinv n x" and "v < n"
  shows "\<exists>T m. T \<le> p_term x v \<and> committed n x T m \<and> 0 < m \<and> has (p_llog x) T 1 (p_log x v)"
  using pinvD(2) [OF assms(1), of v] assms(2) has_le [of "p_llog x" _ "Suc (nat (p_commit x v))" "p_log x v" 1]
  unfolding commit_inv_def by (metis One_nat_def Suc_leI zero_less_Suc gr_zeroI less_nat_zero_code)

lemma pinv_restart:
  assumes inv: "pinv n x"
  shows "pinv n (do_restart v x)"
proof (rule pinv_at [where i = v])
  let ?y = "do_restart v x"
  show ext: "extends x ?y" by (rule pstep_extends [OF restart inv])
  show "node_inv ?y v"
    using node_invD(9) [OF pinvD(1) [OF inv]]
    by (intro node_follower [OF ext pinvD(1) [OF inv]]) (auto simp: do_restart_def)
  show "commit_inv n ?y v"
    using committed_zero [OF inv, of v] committed_extends [OF ext]
    by (simp add: commit_inv_def do_restart_def) blast
qed (use inv in \<open>auto simp: do_restart_def same_peer_def\<close>)

lemma pinv_timeout:
  assumes inv: "pinv n x" and "i < n"
  shows "pinv n (do_timeout i x)"
proof (rule pinv_at [where i = i])
  let ?y = "do_timeout i x" and ?T = "p_term x i + 1"
  note n = node_invD [OF pinvD(1) [OF inv, of i]]
  show ext: "extends x ?y" by (rule pstep_extends [OF timeout [OF assms(2)] inv])
  have nowin: "p_won x ?T \<noteq> Some (i, E)" for E using won_invD(2) [OF pinvD(3) [OF inv], of ?T i E] by auto
  show "node_inv ?y i"
    unfolding node_inv_def
  proof (intro conjI allI impI)
    show "chain (p_llog ?y) (p_log ?y i)" "\<forall>e \<in> set (p_log ?y i). Term e \<le> p_term ?y i" "0 \<le> p_term ?y i"
      "0 < p_term ?y i"
      using n(1,2,3) by (force simp: do_timeout_def Let_def)+
    show "p_won ?y (p_term ?y i) \<noteq> Some (i, E)" for E using nowin by (simp add: do_timeout_def Let_def)
    show "T \<le> p_term ?y i" if "p_votes ?y (i, T) \<noteq> None" for T
      using that n(9) [of T] by (auto simp: do_timeout_def Let_def split: if_splits)
    show "p_acks ?y i T \<le> length (p_llog ?y T)" for T using n(10) by (simp add: do_timeout_def Let_def)
    show "T \<le> p_term ?y i" if "0 < p_acks ?y i T" for T
      using n(11) [of T] that by (simp add: do_timeout_def Let_def)
    show "has (p_llog ?y) T m (p_log ?y i)" if "0 < m" "m \<le> p_acks ?y i T" "kept ?y T m (p_term ?y i + 1)" for T m
      using stored_extends [OF ext pinvD(1) [OF inv] _ that] by (simp add: do_timeout_def Let_def)
  qed (use n(3) in \<open>simp_all add: do_timeout_def Let_def\<close>)
  show "commit_inv n ?y i"
    by (rule commit_extends [OF ext pinvD(2) [OF inv]]) (simp_all add: do_timeout_def Let_def)
  show "vote_inv ?y v U" if "p_votes ?y (v, U) \<noteq> p_votes x (v, U)" for v U
  proof -
    have vu: "v = i" "U = ?T" using that by (auto simp: do_timeout_def Let_def split: if_splits)
    have y: "p_votes ?y (i, ?T) = Some (int i)" "p_vlog ?y (i, ?T) = p_log x i" "p_log ?y i = p_log x i"
        "p_term ?y i = ?T" "p_llog ?y = p_llog x" "p_acks ?y = p_acks x" "p_won ?y = p_won x"
      by (simp_all add: do_timeout_def Let_def)
    have "voter_ok ?y i ?T" if w: "p_won ?y ?T = None"
      unfolding voter_ok_def
    proof (intro conjI allI impI)
      show "chain (p_llog ?y) (p_vlog ?y (i, ?T))" using n(1) y by simp
      fix T m assume k: "0 < m" "m \<le> p_acks ?y i T" "kept ?y T m ?T"
      then have "kept x T m (p_term x i + 1)" by (simp add: kept_def y)
      then show "has (p_llog ?y) T m (p_vlog ?y (i, ?T))" using n(12) [OF k(1)] k(2) y by simp
    qed
    then show ?thesis using y vu by (auto simp: vote_inv_def newer_log_def)
  qed
qed (use inv in \<open>auto simp: do_timeout_def Let_def same_peer_def\<close>)

lemma pinv_grant:
  assumes inv: "pinv n x" and a: "a \<in> p_vreqs x" and t: "p_term x v \<le> rv_Term a"
    and up: "up_to_date (p_log x v) a" and free: "p_votes x (v, rv_Term a) \<in> {None, Some (CandidateId a)}"
  shows "pinv n (do_grant v (rv_Term a) (CandidateId a) x)"
proof (rule pinv_at [where i = v])
  let ?T = "rv_Term a" and ?c = "CandidateId a"
  let ?y = "do_grant v ?T ?c x"
  note n = node_invD [OF pinvD(1) [OF inv, of v]]
  show ext: "extends x ?y" by (rule pstep_extends [OF grant [OF a t up free] inv])
  show "node_inv ?y v"
    using n(9) t
    by (intro node_follower [OF ext pinvD(1) [OF inv]]) (auto simp: do_grant_def split: if_splits intro: order_trans)
  show "commit_inv n ?y v"
    by (rule commit_extends [OF ext pinvD(2) [OF inv]]) (simp_all add: do_grant_def)
  show "vote_inv ?y w U" if "p_votes ?y (w, U) \<noteq> p_votes x (w, U)" for w U
  proof -
    have wu: "w = v" "U = ?T" "p_votes x (v, ?T) = None"
      using that free by (auto simp: do_grant_def split: if_splits)
    have y: "p_votes ?y (v, ?T) = Some ?c" "p_vlog ?y (v, ?T) = p_log x v" "p_log ?y = p_log x"
        "p_llog ?y = p_llog x" "p_acks ?y = p_acks x" "p_won ?y = p_won x" "p_role ?y v = Follower"
        "\<And>j. j \<noteq> v \<Longrightarrow> p_term ?y j = p_term x j \<and> p_role ?y j = p_role x j" "p_term ?y v = ?T"
      using wu(3) by (simp_all add: do_grant_def)
    obtain j where j: "?c = int j" "?T \<le> p_term x j" "p_role x j = Candidate \<longrightarrow> p_term x j = ?T \<longrightarrow>
        LastLogIndex a = len (p_log x j) - 1 \<and> LastLogTerm a = Term (last (p_log x j))"
      using pinvD(5) [OF inv a] unfolding vreq_inv_def by blast
    have "newer_log (p_log x v) (p_log x j)" if "p_role x j = Candidate" "p_term x j = ?T"
      using up j(3) that by (auto simp: up_to_date_def newer_log_def)
    then have c: "?T \<le> p_term ?y j \<and> (p_role ?y j = Candidate \<longrightarrow> p_term ?y j = ?T \<longrightarrow>
        newer_log (p_vlog ?y (v, ?T)) (p_log ?y j))"
      using y(8) [of j] y j(2) by (cases "j = v") auto
    have "voter_ok ?y v ?T" if w: "p_won ?y ?T = None"
      unfolding voter_ok_def
    proof (intro conjI allI impI)
      show "chain (p_llog ?y) (p_vlog ?y (v, ?T))" using n(1) y by simp
      fix T m assume k: "0 < m" "m \<le> p_acks ?y v T" "kept ?y T m ?T"
      have "has (p_llog x) T m E" if "T < T'" "T' < p_term x v + 1" "p_won x T' = Some (i, E)" for T' i E
      proof -
        have "T' \<noteq> ?T" using that(3) w y by auto
        then show ?thesis using k(3) that t y by (auto simp: kept_def)
      qed
      then have "kept x T m (p_term x v + 1)" unfolding kept_def by blast
      then show "has (p_llog ?y) T m (p_vlog ?y (v, ?T))" using n(12) [OF k(1)] k(2) y by simp
    qed
    then show ?thesis using y(1) wu(1,2) j(1) c unfolding vote_inv_def by auto
  qed
qed (use inv in \<open>auto simp: do_grant_def same_peer_def split: if_splits\<close>)

lemma pinv_win:
  assumes inv: "pinv n x" and r: "p_role x i = Candidate" and Q: "majority_of n Q"
    and v: "\<forall>v \<in> Q. p_votes x (v, p_term x i) = Some (int i)"
  shows "pinv n (do_win i (p_term x i) x)"
proof (rule pinv_at [where i = i])
  let ?T = "p_term x i"
  let ?y = "do_win i ?T x"
  note n = node_invD [OF pinvD(1) [OF inv, of i]]
  have T: "0 < ?T" using n(7) r by simp
  have none: "p_won x ?T = None" by (rule winner_new [OF inv r Q v])
  have e: "p_llog x ?T = []" by (rule unwon_empty [OF inv none])
  have y: "p_log ?y = p_log x" "p_term ?y = p_term x" "p_llog ?y = (p_llog x)(?T := p_log x i)"
      "p_acks ?y i = (p_acks x i)(?T := length (p_log x i))" "p_won ?y ?T = Some (i, p_log x i)"
      "p_votes ?y = p_votes x" "p_vlog ?y = p_vlog x"
    by (simp_all add: do_win_def)
  show ext: "extends x ?y" by (rule pstep_extends [OF win [OF r Q v] inv])
  note g = extendsD(1) [OF ext]
  have old: "\<forall>e \<in> set (p_log x i). Term e < ?T"
  proof
    fix e assume "e \<in> set (p_log x i)"
    then obtain k where k: "k < length (p_log x i)" "e = p_log x i ! k" by (metis in_set_conv_nth)
    then have "Term e \<noteq> ?T" using chain_has [OF n(1) k(1)] e by (auto simp: has_def)
    then show "Term e < ?T" using n(2) \<open>e \<in> set (p_log x i)\<close> by force
  qed
  have ch: "chain (p_llog ?y) (p_log x i)" by (rule chain_grows [OF n(1) g])
  show w: "v = i \<and> won_inv n ?y U" if "p_won x U = None" "p_won ?y U = Some (v, E)" for U v E
  proof -
    have U: "U = ?T" "v = i" using that by (auto simp: do_win_def split: if_splits)
    have "\<exists>Q. majority_of n Q \<and> (\<forall>v \<in> Q. p_votes ?y (v, ?T) = Some (int i) \<and> voter_ok ?y v ?T \<and>
        newer_log (p_vlog ?y (v, ?T)) (p_log x i))"
    proof (intro exI conjI ballI)
      fix u assume "u \<in> Q"
      then have vu: "p_votes x (u, ?T) = Some (int i)" using v by simp
      then show "p_votes ?y (u, ?T) = Some (int i)" using y by simp
      have vi: "newer_log (p_vlog x (u, ?T)) (p_log x i)" "voter_ok x u ?T"
        using pinvD(4) [OF inv, of u ?T] vu r none unfolding vote_inv_def by auto
      then show "newer_log (p_vlog ?y (u, ?T)) (p_log x i)" using y by simp
      show "voter_ok ?y u ?T" by (rule voter_extends [OF ext pinvD(1) [OF inv] vu vi(2)])
    qed (rule Q)
    then show ?thesis
      using U y T ch old n(1) unfolding won_inv_def by (auto simp: chain_def)
  qed
  show "node_inv ?y i"
    unfolding node_inv_def
  proof (intro conjI allI impI)
    show "chain (p_llog ?y) (p_log ?y i)" using ch y by simp
    show "\<forall>e \<in> set (p_log ?y i). Term e \<le> p_term ?y i" "0 \<le> p_term ?y i" "0 < p_term ?y i"
      using n(2) T y by auto
    show "T \<le> p_term ?y i" if "p_votes ?y (i, T) \<noteq> None" for T using n(9) that y by simp
    show "p_acks ?y i T \<le> length (p_llog ?y T)" for T using n(10) [of T] y by simp
    show "T \<le> p_term ?y i" if "0 < p_acks ?y i T" for T using n(11) [of T] that y by (auto split: if_splits)
    show "has (p_llog ?y) T m (p_log ?y i)" if "0 < m" "m \<le> p_acks ?y i T" "kept ?y T m (p_term ?y i + 1)" for T m
    proof (cases "T = ?T")
      case True
      then show ?thesis using that y by (simp add: has_def)
    next
      case False
      then show ?thesis using has_grows [OF stored_extends [OF ext pinvD(1) [OF inv] _ that] g] y by simp
    qed
  qed (simp_all add: do_win_def)
  show "commit_inv n ?y i"
    by (rule commit_extends [OF ext pinvD(2) [OF inv]]) (simp_all add: do_win_def)
  show "p_llog ?y (p_term x v) = p_llog x (p_term x v)" if "v \<noteq> i" "p_role x v = Leader" for v
    using node_invD(4) [OF pinvD(1) [OF inv] that(2)] none y by auto
qed (use inv in \<open>auto simp: do_win_def same_peer_def\<close>)

lemma pinv_append:
  assumes inv: "pinv n x" and r: "p_role x i = Leader" and e: "Term e = p_term x i"
  shows "pinv n (do_append i (p_term x i) e x)"
proof (rule pinv_at [where i = i])
  let ?T = "p_term x i"
  let ?y = "do_append i ?T e x"
  note n = node_invD [OF pinvD(1) [OF inv, of i]]
  obtain E where w: "p_won x ?T = Some (i, E)" using n(4) r by blast
  have y: "p_log ?y i = p_log x i @ [e]" "p_term ?y = p_term x" "p_llog ?y = (p_llog x)(?T := p_llog x ?T @ [e])"
      "p_acks ?y i = (p_acks x i)(?T := Suc (length (p_log x i)))" "p_won ?y = p_won x"
      "p_votes ?y = p_votes x" "p_role ?y = p_role x"
    using n(5) r by (simp_all add: do_append_def)
  show ext: "extends x ?y" by (rule pstep_extends [OF append [OF r e] inv])
  note g = extendsD(1) [OF ext]
  have "chain (p_llog ?y) (p_llog ?y ?T)"
    using won_invD(4) [OF won_extends [OF ext inv w]] w y(5) by simp
  then have ch: "chain (p_llog ?y) (p_log ?y i)" using n(5) r y by simp
  show "node_inv ?y i"
    unfolding node_inv_def
  proof (intro conjI allI impI)
    show "chain (p_llog ?y) (p_log ?y i)" by (rule ch)
    show "\<forall>e \<in> set (p_log ?y i). Term e \<le> p_term ?y i" "0 \<le> p_term ?y i" "0 < p_term ?y i"
      "0 < p_term ?y i" using n(2,3,7) r e y by auto
    show "\<exists>E. p_won ?y (p_term ?y i) = Some (i, E)" using w y by simp
    show "T \<le> p_term ?y i" if "p_votes ?y (i, T) \<noteq> None" for T using n(9) that y by simp
    show "p_acks ?y i T \<le> length (p_llog ?y T)" for T using n(5) n(10) [of T] r y by simp
    show "T \<le> p_term ?y i" if "0 < p_acks ?y i T" for T using n(11) [of T] that y by (auto split: if_splits)
    show "has (p_llog ?y) T m (p_log ?y i)" if "0 < m" "m \<le> p_acks ?y i T" "kept ?y T m (p_term ?y i + 1)" for T m
    proof (cases "T = ?T")
      case True
      then show ?thesis using that y n(5) r by (simp add: has_def)
    next
      case False
      then have "has (p_llog ?y) T m (p_log x i)"
        using has_grows [OF stored_extends [OF ext pinvD(1) [OF inv] _ that] g] y by simp
      then show ?thesis using has_append y by simp
    qed
  qed (use y r n(5) in simp_all)
  show "commit_inv n ?y i"
    by (rule commit_extends [OF ext pinvD(2) [OF inv]]) (simp_all add: do_append_def has_append)
  show "p_llog ?y (p_term x v) = p_llog x (p_term x v)" if "v \<noteq> i" "p_role x v = Leader" for v
    using node_invD(4) [OF pinvD(1) [OF inv] that(2)] that(1) w y by auto
  show "p_llog ?y U = p_llog x U" if "p_won ?y U = None" for U using that w y by auto
qed (use inv r in \<open>auto simp: do_append_def same_peer_def\<close>)

lemma pinv_commit:
  assumes inv: "pinv n x" and r: "p_role x i = Leader" and k: "k < length (p_log x i)" "Term (p_log x i ! k) = p_term x i"
    and Q: "majority_of n Q" "\<forall>v \<in> Q. k < p_acks x v (p_term x i)"
  shows "pinv n (x\<lparr>p_commit := (p_commit x)(i := int k)\<rparr>)"
proof (rule pinv_at [where i = i])
  let ?y = "x\<lparr>p_commit := (p_commit x)(i := int k)\<rparr>"
  note n = node_invD [OF pinvD(1) [OF inv, of i]]
  show ext: "extends x ?y" by (intro extends_plain) simp_all
  have "kept ?y T m U = kept x T m U" for T m U by (simp add: kept_def)
  then show "node_inv ?y i" using pinvD(1) [OF inv, of i] by (simp add: node_inv_def)
  have "Suc k \<le> length (p_llog x (p_term x i))" using n(5) r k by simp
  then have c: "committed n x (p_term x i) (Suc k)"
    using n(4,5) r k Q unfolding committed_def by (auto simp: Suc_le_eq)
  have "has (p_llog x) (p_term x i) (Suc k) (p_log x i)" using n(5) r k by (simp add: has_def)
  then show "commit_inv n ?y i"
    using committed_extends [OF ext c] unfolding commit_inv_def by auto
qed (use inv r in \<open>auto simp: same_peer_def\<close>)

lemma pinv_requests:
  assumes inv: "pinv n x" and "\<And>a. a \<in> A \<Longrightarrow> vreq_inv x a" and "\<And>a. a \<in> B \<Longrightarrow> areq_inv n x a"
  shows "pinv n (x\<lparr>p_vreqs := A, p_areqs := B\<rparr>)"
proof -
  let ?y = "x\<lparr>p_vreqs := A, p_areqs := B\<rparr>"
  have k: "kept ?y T m U = kept x T m U" for T m U by (simp add: kept_def)
  have v: "voter_ok ?y v U = voter_ok x v U" for v U by (simp add: voter_ok_def k)
  have c: "committed n ?y T m = committed n x T m" for T m by (simp add: committed_def)
  have "node_inv ?y v = node_inv x v" "commit_inv n ?y v = commit_inv n x v" "vote_inv ?y v U = vote_inv x v U" for v U
    by (simp_all add: node_inv_def k commit_inv_def c vote_inv_def v)
  moreover have "won_inv n ?y T = won_inv n x T" for T by (simp add: won_inv_def v split: option.split)
  moreover have "vreq_inv ?y a = vreq_inv x a" "areq_inv n ?y b = areq_inv n x b" for a b
    by (simp_all add: vreq_inv_def areq_inv_def c)
  ultimately show ?thesis using assms by (simp add: pinv_def)
qed

lemma pinv_ask: "pinv n x \<Longrightarrow> vreq_inv x a \<Longrightarrow> pinv n (x\<lparr>p_vreqs := insert a (p_vreqs x)\<rparr>)"
  using pinv_requests [of n x "insert a (p_vreqs x)" "p_areqs x"] pinvD(5,6) by fastforce

lemma pinv_send: "pinv n x \<Longrightarrow> areq_inv n x a \<Longrightarrow> pinv n (x\<lparr>p_areqs := insert a (p_areqs x)\<rparr>)"
  using pinv_requests [of n x "p_vreqs x" "insert a (p_areqs x)"] pinvD(5,6) by fastforce

text \<open>A request of the leader of a term carries a commit index that the leader may claim.\<close>

lemma leader_request:
  assumes inv: "pinv n x" and r: "p_role x i = Leader" "i < n" and a: "ae_Term a = p_term x i"
    "segment a (p_log x i)" "LeaderCommit a \<le> p_commit x i"
  shows "areq_inv n x a"
proof -
  note n = node_invD [OF pinvD(1) [OF inv, of i]]
  obtain T m where "T \<le> p_term x i" "committed n x T m" "nat (p_commit x i) < m"
    using pinvD(2) [OF inv, of i] r(2) unfolding commit_inv_def by blast
  moreover have "LeaderCommit a < int m" using a(3) calculation(3) by linarith
  ultimately show ?thesis using n(4,5) r a unfolding areq_inv_def by fastforce
qed

text \<open>Storing a segment of the log of the leader of \<open>T\<close>.\<close>

lemma splice_segment:
  assumes L: "chain G L" and GT: "chain G (G T)" and a: "segment a (G T)"
    and p: "PrevLogIndex a < len L" "Term (L ! nat (PrevLogIndex a)) = PrevLogTerm a"
  defines "L' \<equiv> splice L (PrevLogIndex a) (Entries a)" and "N \<equiv> sent_end a"
  shows "has G T N L'" "L' = L \<or> L' = take N (G T) \<and> \<not> has G T N L"
proof -
  let ?p = "nat (PrevLogIndex a)" and ?es = "Entries a"
  have a': "0 \<le> PrevLogIndex a" "N = Suc ?p + length ?es" "N \<le> length (G T)"
      "?es = take (length ?es) (drop (Suc ?p) (G T))" "PrevLogTerm a = Term (G T ! ?p)"
    using a by (auto simp: segment_def N_def sent_end_def)
  have lm: "log_matching L (G T)" by (rule chain_matching [OF L GT])
  have pre: "take (Suc ?p) L = take (Suc ?p) (G T)" "?p < length L"
    using log_matchingD [OF lm, of ?p] p a' by auto
  have nth: "?es ! k = G T ! (Suc ?p + k)" if "k < length ?es" for k
  proof -
    have "?es ! k = take (length ?es) (drop (Suc ?p) (G T)) ! k" using a'(4) by (rule arg_cong)
    then show ?thesis using that a'(2,3) by simp
  qed
  have np: "nat (PrevLogIndex a + 1) = Suc ?p" using a'(1) by simp
  have he: "has_entries L (PrevLogIndex a + 1) ?es \<longleftrightarrow> N \<le> length L \<and> (\<forall>k < length ?es. Term (L ! (Suc ?p + k)) = Term (G T ! (Suc ?p + k)))"
    using a'(1,2) nth by (auto simp: has_entries_def np)
  have iff: "has_entries L (PrevLogIndex a + 1) ?es \<longleftrightarrow> has G T N L"
  proof
    assume h: "has_entries L (PrevLogIndex a + 1) ?es"
    then have l: "N \<le> length L" using he by simp
    show "has G T N L"
    proof (cases "?es = []")
      case True
      then show ?thesis using pre l a' by (simp add: has_def)
    next
      case False
      then have "length ?es - 1 < length ?es" "Suc ?p + (length ?es - 1) = N - 1" using a'(2) by auto
      then have "Term (L ! (N - 1)) = Term (G T ! (N - 1))" using he h by metis
      then have "take (Suc (N - 1)) L = take (Suc (N - 1)) (G T)"
        using log_matchingD [OF lm, of "N - 1"] l a'(2,3) by simp
      then show ?thesis using l a'(2,3) by (simp add: has_def)
    qed
  next
    assume h: "has G T N L"
    then have "L ! (Suc ?p + k) = G T ! (Suc ?p + k)" if "k < length ?es" for k
      using has_nth [OF h, of "Suc ?p + k"] that a'(2) by simp
    then show "has_entries L (PrevLogIndex a + 1) ?es" using he h by (simp add: has_def)
  qed
  have cut: "take (Suc ?p) L @ ?es = take N (G T)"
    using pre(1) a'(2,4) by (metis take_add)
  show "L' = L \<or> L' = take N (G T) \<and> \<not> has G T N L"
    using cut iff by (simp add: L'_def splice_def np)
  then show "has G T N L'" using iff cut a'(3) by (auto simp: L'_def splice_def np has_def)
qed

lemma has_trans: "has G T N L \<Longrightarrow> has G T' k (G T) \<Longrightarrow> k \<le> N \<Longrightarrow> has G T' k L"
  unfolding has_def by (metis le_trans take_eq_le)

lemma splice_keeps:
  assumes "L' = L \<or> L' = take N (G T) \<and> \<not> has G T N L" and "N \<le> length (G T)"
    and "has G T' m L" and "has G T' m (G T)"
  shows "has G T' m L'"
proof (cases "L' = L")
  case False
  then have L': "L' = take N (G T)" "\<not> has G T N L" using assms(1) by auto
  have "m \<le> N"
  proof (rule ccontr)
    assume "\<not> m \<le> N"
    moreover have "take m L = take m (G T)" "m \<le> length L" using assms(3,4) by (auto simp: has_def)
    ultimately have "has G T N L" using assms(2) take_eq_le [of m L "G T" N] by (simp add: has_def)
    then show False using L'(2) by simp
  qed
  then show ?thesis using assms(4) L'(1) has_take by blast
qed (use assms(3) in simp)

lemma committed_has:
  assumes inv: "pinv n x" and c: "committed n x T m" and "T \<le> U" and "p_won x U \<noteq> None"
  shows "has (p_llog x) T m (p_llog x U)"
proof (cases "T = U")
  case True
  then show ?thesis using c by (simp add: has_def committed_def)
next
  case False
  obtain i E where w: "p_won x U = Some (i, E)" using assms(4) by auto
  then have "has (p_llog x) T m E" using leader_complete [OF inv c _ w] assms(3) False by simp
  then show ?thesis using won_invD(5) [OF pinvD(3) [OF inv] w] has_append by auto
qed

lemma pinv_accept:
  assumes inv: "pinv n x" and a: "a \<in> p_areqs x" and t: "p_term x v \<le> ae_Term a"
    and p: "PrevLogIndex a < len (p_log x v)" "Term (p_log x v ! nat (PrevLogIndex a)) = PrevLogTerm a"
  shows "pinv n (do_accept v a x)"
proof (rule pinv_at [where i = v])
  let ?T = "ae_Term a" and ?y = "do_accept v a x" and ?G = "p_llog x" and ?L = "p_log x v" and ?N = "sent_end a"
  let ?L' = "splice ?L (PrevLogIndex a) (Entries a)"
  let ?c = "p_commit x v" and ?c' = "max (p_commit x v) (min (LeaderCommit a) (int (sent_end a) - 1))"
  note n = node_invD [OF pinvD(1) [OF inv, of v]]
  have req: "p_won x ?T \<noteq> None" "segment a (?G ?T)"
    using pinvD(6) [OF inv a] by (auto simp: areq_inv_def)
  then obtain i E where w: "p_won x ?T = Some (i, E)" by auto
  note wi = won_invD [OF pinvD(3) [OF inv] w]
  note L' = splice_segment [OF n(1) wi(4) req(2) p]
  have N: "?N \<le> length (?G ?T)" "0 < ?N" using req(2) by (auto simp: segment_def sent_end_def)
  have y: "p_log ?y v = ?L'" "p_term ?y v = ?T" "p_role ?y v = Follower" "p_llog ?y = ?G" "p_won ?y = p_won x"
      "p_votes ?y = p_votes x" "p_acks ?y v = (p_acks x v)(?T := max (p_acks x v ?T) ?N)" "p_commit ?y v = ?c'"
    by (simp_all add: do_accept_def Let_def)
  show ext: "extends x ?y" by (rule pstep_extends [OF accept [OF a t p] inv])
  have keep: "has ?G T m ?L'" if "has ?G T m ?L" "has ?G T m (?G ?T)" for T m
    by (rule splice_keeps [OF L'(2) N(1) that])
  show "node_inv ?y v"
    unfolding node_inv_def
  proof (intro conjI allI impI)
    show "chain (p_llog ?y) (p_log ?y v)" using L'(2) n(1) chain_take [OF wi(4) N(2)] y by auto
    have "Term e \<le> ?T" if "e \<in> set ?L'" for e
    proof -
      have "e \<in> set ?L \<or> e \<in> set (?G ?T)" using L'(2) that by (auto dest: in_set_takeD)
      then show ?thesis using n(2) [of e] t won_terms [OF pinvD(3) [OF inv] req(1)] by auto
    qed
    then show "\<forall>e \<in> set (p_log ?y v). Term e \<le> p_term ?y v" using y by simp
    show "0 \<le> p_term ?y v" using n(3) t y by simp
    show "T \<le> p_term ?y v" if "p_votes ?y (v, T) \<noteq> None" for T using n(9) [of T] that t y by simp
    show "p_acks ?y v T \<le> length (p_llog ?y T)" for T using n(10) [of T] N y by (cases "T = ?T") simp_all
    show "T \<le> p_term ?y v" if "0 < p_acks ?y v T" for T using n(11) [of T] that t y by (auto split: if_splits)
    fix T m assume m: "0 < m" "m \<le> p_acks ?y v T" and k: "kept ?y T m (p_term ?y v + 1)"
    show "has (p_llog ?y) T m (p_log ?y v)"
    proof (cases "m \<le> p_acks x v T")
      case True
      then have l: "m \<le> length (?G T)" "T \<le> p_term x v" using n(10,11) [of T] m(1) by auto
      have "kept x T m (p_term x v + 1)" using kept_back [OF ext k l(1)] t y by simp
      then have h: "has ?G T m ?L" by (rule n(12) [OF m(1) True])
      have "has ?G T m (?G ?T)"
      proof (cases "T = ?T")
        case False
        then have "T < ?T" using l(2) t by simp
        then have "has ?G T m E" using k w y unfolding kept_def by auto
        then show ?thesis using wi(5) has_append by auto
      qed (use l in \<open>simp add: has_def\<close>)
      then show ?thesis using keep [OF h] y by simp
    next
      case False
      then have "T = ?T" "m \<le> ?N" using m(2) y by (auto split: if_splits)
      then show ?thesis using has_le [OF L'(1)] y by simp
    qed
  qed (use y in simp_all)
  have com: "has ?G T m (?G ?T)" if "T \<le> ?T" "committed n x T m" for T m
    by (rule committed_has [OF inv that(2,1) req(1)])
  show "commit_inv n ?y v"
    unfolding commit_inv_def
  proof (intro impI conjI)
    assume "v < n"
    then obtain T0 m0 where c0: "0 \<le> ?c" "T0 \<le> p_term x v" "committed n x T0 m0" "nat ?c < m0"
        "has ?G T0 (Suc (nat ?c)) ?L"
      using pinvD(2) [OF inv, of v] unfolding commit_inv_def by blast
    obtain T1 m1 where c1: "T1 \<le> ?T" "committed n x T1 m1" "LeaderCommit a < int m1"
      using pinvD(6) [OF inv a] unfolding areq_inv_def by blast
    show "0 \<le> p_commit ?y v" using c0(1) y by simp
    show "\<exists>T m. T \<le> p_term ?y v \<and> committed n ?y T m \<and> nat (p_commit ?y v) < m \<and>
        has (p_llog ?y) T (Suc (nat (p_commit ?y v))) (p_log ?y v)"
    proof (cases "?c' = ?c")
      case True
      have "has ?G T0 (Suc (nat ?c)) ?L'"
        using keep [OF c0(5)] has_le [OF com [OF _ c0(3)], of "Suc (nat ?c)"] c0(2,4) t by simp
      then show ?thesis using True c0 t y committed_extends [OF ext c0(3)] by (intro exI [of _ T0] exI [of _ m0]) simp
    next
      case False
      then have k: "Suc (nat ?c') \<le> ?N" "nat ?c' < m1" using c0(1) c1(3) N(2) by linarith+
      have "has ?G T1 (Suc (nat ?c')) (?G ?T)" using has_le [OF com [OF c1(1,2)]] k(2) by simp
      then have "has ?G T1 (Suc (nat ?c')) ?L'" using has_trans [OF L'(1) _ k(1)] by blast
      then show ?thesis using c1(1) k(2) y committed_extends [OF ext c1(2)] by (intro exI [of _ T1] exI [of _ m1]) simp
    qed
  qed
qed (use inv in \<open>auto simp: do_accept_def Let_def same_peer_def\<close>)

lemma majority_all: "0 < n \<Longrightarrow> majority_of n {..<n}"
  by (simp add: majority_of_def)

lemma pinv_init:
  assumes "0 < n"
  shows "pinv n proto_init"
proof -
  let ?x = proto_init
  have x: "p_term ?x v = 0" "p_role ?x v = Follower" "p_log ?x v = [first_entry]" "p_commit ?x v = 0" "p_vreqs ?x = {}"
      "p_areqs ?x = {}" "p_votes ?x vt = None" "p_won ?x T = (if T = 0 then Some (0, [first_entry]) else None)"
      "p_llog ?x T = (if T = 0 then [first_entry] else [])" "p_acks ?x v T = (if T = 0 then 1 else 0)" for v vt T
    by (simp_all add: proto_init_def)
  have t: "Term first_entry = 0" by (simp add: first_entry_def)
  have h: "has (p_llog ?x) 0 (Suc 0) [first_entry]" by (simp add: has_def x)
  then have ch: "chain (p_llog ?x) [first_entry]" by (simp add: chain_def t)
  have "committed n ?x 0 1"
    using majority_all [OF assms] by (auto simp: committed_def x t)
  then have "commit_inv n ?x v" for v using h by (auto simp: commit_inv_def x)
  moreover have "has (p_llog ?x) T m (p_log ?x v)" if "0 < m" "m \<le> p_acks ?x v T" for T m v
    using that h by (auto simp: x split: if_splits dest: has_le)
  then have "node_inv ?x v" for v
    using ch unfolding node_inv_def by (simp add: x t)
  moreover have "won_inv n ?x T" for T using ch by (simp add: won_inv_def x t)
  ultimately show ?thesis by (simp add: pinv_def vote_inv_def x)
qed

lemma pinv_step: "pstep n x y \<Longrightarrow> pinv n x \<Longrightarrow> pinv n y"
proof (induction rule: pstep.induct)
  case (ask a i x)
  then have "vreq_inv x a" by (auto simp: vreq_inv_def)
  then show ?case using pinv_ask ask.prems by blast
next
  case (send x i a)
  then show ?case using pinv_send leader_request by blast
next
  case (win x i Q)
  then show ?case using pinv_win by blast
next
  case (accept a x v)
  then show ?case using pinv_accept by blast
next
  case (commit x i k Q)
  then show ?case using pinv_commit by blast
qed (auto intro: pinv_timeout pinv_grant pinv_step_down pinv_append pinv_restart)

lemma pinv_preach: "preach n x \<Longrightarrow> 0 < n \<Longrightarrow> pinv n x"
  by (induction rule: preach.induct) (auto intro: pinv_init pinv_step)

section \<open>Agreement\<close>

text \<open>What the protocol decides: an entry at an index.\<close>

definition decided :: "nat \<Rightarrow> proto \<Rightarrow> nat \<Rightarrow> LogEntry \<Rightarrow> bool" where
  "decided n x k e \<longleftrightarrow> (\<exists>T m. committed n x T m \<and> k < m \<and> e = p_llog x T ! k)"

lemma committed_agree:
  assumes inv: "pinv n x" and "committed n x T m" "committed n x T' m'" and "k < m" "k < m'" and "T \<le> T'"
  shows "p_llog x T ! k = p_llog x T' ! k"
  using has_nth [OF committed_has [OF inv assms(2,6)] assms(4)] assms(3) by (simp add: committed_def)

lemma decided_unique:
  assumes inv: "pinv n x" and "decided n x k e" and "decided n x k e'"
  shows "e = e'"
  using assms(2,3) committed_agree [OF inv] unfolding decided_def by (metis linorder_le_cases)

lemma decided_extends:
  assumes "extends x y" and "decided n x k e"
  shows "decided n y k e"
proof -
  obtain T m where c: "committed n x T m" "k < m" "e = p_llog x T ! k" using assms(2) by (auto simp: decided_def)
  then have "p_llog y T ! k = e" using grows_nth [OF extendsD(1) [OF assms(1)], of k T] by (simp add: committed_def)
  then show ?thesis using committed_extends [OF assms(1) c(1)] c(2) unfolding decided_def by blast
qed

lemma decided_log:
  assumes inv: "pinv n x" and "v < n" and "int k \<le> p_commit x v"
  shows "k < length (p_log x v) \<and> decided n x k (p_log x v ! k)"
proof -
  obtain T m where c: "committed n x T m" "nat (p_commit x v) < m" "has (p_llog x) T (Suc (nat (p_commit x v))) (p_log x v)"
    using pinvD(2) [OF inv, of v] assms(2) unfolding commit_inv_def by blast
  have k: "k < Suc (nat (p_commit x v))" using assms(3) by linarith
  then have "p_log x v ! k = p_llog x T ! k" by (rule has_nth [OF c(3)])
  moreover have "k < m" using k c(2) by simp
  moreover have "k < length (p_log x v)" using k c(3) by (simp add: has_def)
  ultimately show ?thesis using c(1) unfolding decided_def by blast
qed

end
