(* ===== verification/Raft_Refinement.thy ===== *)
theory Raft_Refinement
  imports Raft_Election_Safety Raft_Protocol
begin

text \<open>
  The program refines the protocol: every calm step of a cluster is a step of the abstract protocol of theory
  \<open>Raft_Protocol\<close>, or leaves it where it is.

  The relation \<open>sim\<close> between a cluster and a state of the protocol says that the peers agree on term, role and
  log, that commit index and apply bound are covered by what the protocol has committed, that the requests
  under way have been sent in the protocol, that the votes are the history of theory \<open>Raft_Election_Safety\<close>,
  and that the counter of a broadcast is one more than the number of peers that have stored its entries.
\<close>

section \<open>The relation\<close>

definition peer_match :: "Raft \<Rightarrow> int \<Rightarrow> proto \<Rightarrow> nat \<Rightarrow> bool" where
  "peer_match rf bound x v \<longleftrightarrow> p_term x v = CurrentTerm rf \<and> p_role x v = state rf \<and> p_log x v = Log rf \<and>
     commitIndex rf \<le> p_commit x v \<and> bound \<le> p_commit x v"

definition applied_ok :: "nat \<Rightarrow> proto \<Rightarrow> nat \<Rightarrow> Raft \<Rightarrow> bool" where
  "applied_ok n x v rf \<longleftrightarrow> v < n \<longrightarrow> (\<forall>msg \<in> set (applyCh rf).
     \<exists>k e. CommandIndex msg = int k \<and> decided n x k e \<and> Command_msg msg = Command e)"

text \<open>What is known of a goroutine: \<open>ow k\<close> is the peer and the arguments of broadcast \<open>k\<close>.\<close>

fun vote_goro :: "proto \<Rightarrow> vphase \<Rightarrow> bool" where
  "vote_goro x (VSent args) = (args \<in> p_vreqs x)"
| "vote_goro x (VOrphan args) = (args \<in> p_vreqs x)"
| "vote_goro x _ = True"

definition sent_by :: "proto \<Rightarrow> nat \<Rightarrow> broadcast \<Rightarrow> AppendEntriesArgs \<Rightarrow> bool" where
  "sent_by x i b args \<longleftrightarrow> args \<in> p_areqs x \<and> ae_Term args = bc_term b \<and> sent_end args \<le> p_acks x i (bc_term b)"

fun append_goro :: "proto \<Rightarrow> nat \<Rightarrow> nat \<Rightarrow> broadcast \<Rightarrow> aphase \<Rightarrow> bool" where
  "append_goro x i j b (ASent args next) = (sent_by x i b args \<and> bc_index b < int (sent_end args))"
| "append_goro x i j b (AOrphan args) = (args \<in> p_areqs x)"
| "append_goro x i j b (AReplied args reply next) =
     (sent_by x i b args \<and> (Success reply \<longrightarrow> bc_index b < int (p_acks x j (bc_term b))))"
| "append_goro x i j b (AChecked args reply next) =
     (sent_by x i b args \<and> (Success reply \<longrightarrow> bc_index b < int (p_acks x j (bc_term b))))"
| "append_goro x i j b _ = True"

text \<open>An index that is in the log of peer \<open>i\<close> as long as the peer is a candidate or leader of term \<open>T\<close>.\<close>

definition stands :: "proto \<Rightarrow> nat \<Rightarrow> int \<Rightarrow> int \<Rightarrow> bool" where
  "stands x i T index \<longleftrightarrow> T \<le> p_term x i \<and>
     (p_role x i \<noteq> Follower \<longrightarrow> p_term x i = T \<longrightarrow> index < len (p_log x i))"

fun goro_ok :: "nat \<Rightarrow> proto \<Rightarrow> nat \<Rightarrow> (nat \<Rightarrow> nat \<times> broadcast) \<Rightarrow> thread \<Rightarrow> bool" where
  "goro_ok n x m ow (VoteCall e i j ph) = vote_goro x ph"
| "goro_ok n x m ow (StartCall i c (SAppended index T)) = (i < n \<and> stands x i T index)"
| "goro_ok n x m ow (StartCall i c ph) = (i < n)"
| "goro_ok n x m ow (Heartbeat i ph) = (i < n)"
| "goro_ok n x m ow (Bcast k i b (BLoop js)) = (k < m \<and> ow k = (i, b) \<and> set js \<subseteq> {..<n} - {i} \<and> distinct js)"
| "goro_ok n x m ow (Bcast k i b ph) = (k < m \<and> ow k = (i, b))"
| "goro_ok n x m ow (AppendCall k i j b ph) = (k < m \<and> ow k = (i, b) \<and> j < n \<and> j \<noteq> i \<and> append_goro x i j b ph)"
| "goro_ok n x m ow _ = True"

text \<open>A broadcast with the peers counted so far.\<close>

definition bcast_ok :: "nat \<Rightarrow> proto \<Rightarrow> nat \<times> broadcast \<Rightarrow> nat set \<Rightarrow> tally \<Rightarrow> bool" where
  "bcast_ok n x ib C ta \<longleftrightarrow>
     (case ib of (i, b) \<Rightarrow> i < n \<and> stands x i (bc_term b) (bc_index b) \<and>
        (p_role x i \<noteq> Follower \<longrightarrow> p_term x i = bc_term b \<longrightarrow> bc_commit b \<le> p_commit x i) \<and>
        C \<subseteq> {..<n} - {i} \<and> nReplica ta = 1 + int (card C) \<and>
        (\<forall>j \<in> C. bc_index b < int (p_acks x j (bc_term b))))"

text \<open>The peers whose answer a goroutine of broadcast \<open>k\<close> may still count.\<close>

fun pending :: "nat \<Rightarrow> thread \<Rightarrow> nat set" where
  "pending k (AppendCall k' i j b ph) =
     (if k' = k \<and> (case ph of ADone \<Rightarrow> False | AOrphan a \<Rightarrow> False | _ \<Rightarrow> True) then {j} else {})"
| "pending k (Bcast k' i b (BLoop js)) = (if k' = k then set js else {})"
| "pending k (Bcast k' i b ph) = (if k' = k then UNIV else {})"
| "pending k _ = {}"

definition count_ok :: "cluster \<Rightarrow> (nat \<Rightarrow> nat set) \<Rightarrow> bool" where
  "count_ok s C \<longleftrightarrow> (\<forall>p q k. p \<noteq> q \<longrightarrow> pending k (threads s p) \<inter> pending k (threads s q) = {}) \<and>
     (\<forall>p k. pending k (threads s p) \<inter> C k = {})"

definition sim :: "nat \<Rightarrow> cluster \<Rightarrow> proto \<Rightarrow> (nat \<Rightarrow> nat \<times> broadcast) \<Rightarrow> (nat \<Rightarrow> nat set) \<Rightarrow> bool" where
  "sim n s x ow C \<longleftrightarrow> safe_inv n (p_votes x) s \<and> pinv n x \<and>
     (\<forall>v. peer_match (nodes s v) (applying s v) x v) \<and> (\<forall>v. applied_ok n x v (nodes s v)) \<and>
     (\<forall>p. goro_ok n x (fresh_bcast s) ow (threads s p)) \<and>
     (\<forall>k < fresh_bcast s. bcast_ok n x (ow k) (C k) (tallies s k)) \<and> count_ok s C"

lemma simD:
  assumes "sim n s x ow C"
  shows "safe_inv n (p_votes x) s" "pinv n x" "peer_match (nodes s v) (applying s v) x v" "applied_ok n x v (nodes s v)"
    "goro_ok n x (fresh_bcast s) ow (threads s p)" "k < fresh_bcast s \<Longrightarrow> bcast_ok n x (ow k) (C k) (tallies s k)"
    "count_ok s C"
  using assms by (auto simp: sim_def)

section \<open>What steps of the protocol keep\<close>

lemma pstep_requests: "pstep n x y \<Longrightarrow> p_vreqs x \<subseteq> p_vreqs y \<and> p_areqs x \<subseteq> p_areqs y"
  by (induction rule: pstep.induct)
     (auto simp: do_timeout_def do_grant_def do_step_down_def do_win_def do_append_def do_accept_def do_restart_def Let_def)

text \<open>A peer that is a candidate or leader after a step in the same term was one before.\<close>

lemma pstep_gentle:
  "pstep n x y \<Longrightarrow> p_role y v \<noteq> Follower \<Longrightarrow> p_term y v = p_term x v \<Longrightarrow>
   p_role x v \<noteq> Follower \<and> length (p_log x v) \<le> length (p_log y v) \<and> p_commit x v \<le> p_commit y v"
  by (induction rule: pstep.induct)
     (auto simp: do_timeout_def do_grant_def do_step_down_def do_win_def do_append_def do_accept_def do_restart_def Let_def
       split: if_splits)

lemma stands_step:
  assumes "pstep n x y" and "pinv n x" and "stands x i T index"
  shows "stands y i T index"
proof -
  have "p_term x i \<le> p_term y i" by (rule extendsD(7) [OF pstep_extends [OF assms(1,2)]])
  then show ?thesis using pstep_gentle [OF assms(1), of i] assms(3) by (fastforce simp: stands_def)
qed

lemma acks_step:
  assumes "pstep n x y" and "pinv n x" and "k < int (p_acks x j T)"
  shows "k < int (p_acks y j T)"
  using extendsD(5) [OF pstep_extends [OF assms(1,2)], of j T] assms(3) by linarith

lemma append_goro_step:
  assumes "pstep n x y" and "pinv n x" and "append_goro x i j b ph"
  shows "append_goro y i j b ph"
proof -
  have "sent_by y i b args" if "sent_by x i b args" for args
    using that pstep_requests [OF assms(1)] extendsD(5) [OF pstep_extends [OF assms(1,2)], of i "bc_term b"]
    by (auto simp: sent_by_def)
  then show ?thesis
    using assms(3) pstep_requests [OF assms(1)] acks_step [OF assms(1,2)] by (cases ph) auto
qed

lemma goro_step:
  assumes st: "pstep n x y" "pinv n x" and ok: "goro_ok n x m ow th"
  shows "goro_ok n y m ow th"
proof (cases th)
  case (VoteCall e i j ph)
  then show ?thesis using ok pstep_requests [OF st(1)] by (cases ph) auto
next
  case (StartCall i c ph)
  then show ?thesis using ok stands_step [OF st] by (cases ph) auto
next
  case (Bcast k i b ph)
  then show ?thesis using ok by (cases ph) auto
next
  case (AppendCall k i j b ph)
  then show ?thesis using ok append_goro_step [OF st] by simp
qed (use ok in auto)

lemma goro_more: "goro_ok n x m ow th \<Longrightarrow> m \<le> m' \<Longrightarrow> (\<And>k. k < m \<Longrightarrow> ow' k = ow k) \<Longrightarrow> goro_ok n x m' ow' th"
proof (cases th)
  case (StartCall i c ph)
  then show "goro_ok n x m ow th \<Longrightarrow> goro_ok n x m' ow' th" by (cases ph) auto
next
  case (Bcast k i b ph)
  then show "goro_ok n x m ow th \<Longrightarrow> m \<le> m' \<Longrightarrow> (\<And>k. k < m \<Longrightarrow> ow' k = ow k) \<Longrightarrow> goro_ok n x m' ow' th"
    by (cases ph) auto
qed auto

lemma goro_kill: "goro_ok n x m ow th \<Longrightarrow> goro_ok n x m ow (kill_thread c th)"
proof (cases th)
  case (VoteCall e i j ph)
  then show "goro_ok n x m ow th \<Longrightarrow> ?thesis" by (cases ph) auto
next
  case (AppendCall k i j b ph)
  then show "goro_ok n x m ow th \<Longrightarrow> ?thesis" by (cases ph) (auto simp: sent_by_def)
next
  case (StartCall i d ph)
  then show "goro_ok n x m ow th \<Longrightarrow> ?thesis" by (cases ph) auto
next
  case (Bcast k i b ph)
  then show "goro_ok n x m ow th \<Longrightarrow> ?thesis" by (cases ph) auto
qed auto

lemma pending_kill: "pending k (kill_thread c th) \<subseteq> pending k th"
proof (cases th)
  case (AppendCall k' i j b ph)
  then show ?thesis by (cases ph) auto
next
  case (Bcast k' i b ph)
  then show ?thesis by (cases ph) auto
qed auto

lemma bcast_step:
  assumes st: "pstep n x y" "pinv n x" and ok: "bcast_ok n x ib C ta"
  shows "bcast_ok n y ib C ta"
proof -
  obtain i b where ib: "ib = (i, b)" by fastforce
  have "p_role x i \<noteq> Follower \<and> p_commit x i \<le> p_commit y i" if "p_role y i \<noteq> Follower" "p_term y i = p_term x i"
    using pstep_gentle [OF st(1) that] by simp
  moreover have "p_term x i \<le> p_term y i" by (rule extendsD(7) [OF pstep_extends [OF st]])
  moreover have "bc_term b \<le> p_term x i" using ok by (simp add: bcast_ok_def ib stands_def)
  ultimately have "p_role y i \<noteq> Follower \<longrightarrow> p_term y i = bc_term b \<longrightarrow> bc_commit b \<le> p_commit y i"
    using ok by (force simp: bcast_ok_def ib)
  then show ?thesis using ok stands_step [OF st] acks_step [OF st] by (auto simp: bcast_ok_def ib)
qed

lemma applied_step: "pstep n x y \<Longrightarrow> pinv n x \<Longrightarrow> applied_ok n x v rf \<Longrightarrow> applied_ok n y v rf"
  unfolding applied_ok_def using decided_extends [OF pstep_extends] by meson

section \<open>Steps of the cluster\<close>

lemma sim_step:
  assumes sim: "sim n s x ow C" and st: "pstep n x y"
    and safe: "safe_inv n (record_votes s' (p_votes x)) s'" and votes: "p_votes y = record_votes s' (p_votes x)"
    and match: "\<And>v. peer_match (nodes s' v) (applying s' v) y v" and app: "\<And>v. applied_ok n y v (nodes s' v)"
    and same: "fresh_bcast s' = fresh_bcast s" "tallies s' = tallies s"
    and thr: "\<And>p. goro_ok n y (fresh_bcast s) ow (threads s p) \<Longrightarrow> goro_ok n y (fresh_bcast s) ow (threads s' p)"
    and pend: "\<And>p k. pending k (threads s' p) \<subseteq> pending k (threads s p)"
  shows "sim n s' y ow C"
  unfolding sim_def
proof (intro conjI allI impI)
  note inv = simD(2) [OF sim]
  show "safe_inv n (p_votes y) s'" using safe votes by simp
  show "pinv n y" by (rule pinv_step [OF st inv])
  show "peer_match (nodes s' v) (applying s' v) y v" "applied_ok n y v (nodes s' v)" for v by (rule match, rule app)
  show "goro_ok n y (fresh_bcast s') ow (threads s' p)" for p
    using thr [OF goro_step [OF st inv simD(5) [OF sim]]] same by simp
  show "bcast_ok n y (ow k) (C k) (tallies s' k)" if "k < fresh_bcast s'" for k
    using bcast_step [OF st inv simD(6) [OF sim]] that same by simp
  have c: "count_ok s C" by (rule simD(7) [OF sim])
  show "count_ok s' C"
    unfolding count_ok_def
  proof (intro conjI allI impI)
    fix p q k assume "p \<noteq> (q :: nat)"
    then show "pending k (threads s' p) \<inter> pending k (threads s' q) = {}"
      using c pend [of k p] pend [of k q] unfolding count_ok_def by blast
  next
    fix p k show "pending k (threads s' p) \<inter> C k = {}" using c pend [of k p] unfolding count_ok_def by blast
  qed
qed

lemma record_one:
  assumes "history_inv s H" and "nodes s' = (nodes s)(i := rf)"
  shows "record_votes s' H = (if VoteFor rf = -1 then H else H((i, CurrentTerm rf) \<mapsto> VoteFor rf))"
  using assms by (auto simp: record_votes_def history_inv_def fun_eq_iff)

lemma sim_history: "sim n s x ow C \<Longrightarrow> history_inv s (p_votes x)"
  using simD(1) by (auto simp: safe_inv_def)

lemma sim_data: "sim n s x ow C \<Longrightarrow> data_inv n s"
  using simD(1) safe_inv_data by blast

definition others_same :: "proto \<Rightarrow> proto \<Rightarrow> nat \<Rightarrow> bool" where
  "others_same x y i \<longleftrightarrow> (\<forall>v. v \<noteq> i \<longrightarrow> p_term y v = p_term x v \<and> p_role y v = p_role x v \<and> p_log y v = p_log x v \<and>
     p_commit y v = p_commit x v)"

text \<open>A step in which peer \<open>i\<close> acts and the goroutines of broadcasts do not move.\<close>

lemma sim_at:
  assumes sim: "sim n s x ow C" and safe: "safe_inv n (record_votes s' (p_votes x)) s'" and st: "pstep n x y"
    and nodes: "nodes s' = (nodes s)(i := rf)" "applying s' = applying s"
    and votes: "p_votes y = (if VoteFor rf = -1 then p_votes x else (p_votes x)((i, CurrentTerm rf) \<mapsto> VoteFor rf))"
    and at: "peer_match rf (applying s i) y i" "applyCh rf = applyCh (nodes s i)" and oth: "others_same x y i"
    and same: "fresh_bcast s' = fresh_bcast s" "tallies s' = tallies s"
    and thr: "\<And>p. goro_ok n y (fresh_bcast s) ow (threads s p) \<Longrightarrow> goro_ok n y (fresh_bcast s) ow (threads s' p)"
    and pend: "\<And>p k. pending k (threads s' p) \<subseteq> pending k (threads s p)"
  shows "sim n s' y ow C"
proof (rule sim_step [OF sim st safe _ _ _ same thr pend])
  show "p_votes y = record_votes s' (p_votes x)" using record_one [OF sim_history [OF sim] nodes(1)] votes by simp
  show "peer_match (nodes s' v) (applying s' v) y v" for v
    using simD(3) [OF sim, of v] at oth nodes by (cases "v = i") (auto simp: peer_match_def others_same_def)
  have "applied_ok n y v (nodes s v)" for v by (rule applied_step [OF st simD(2,4) [OF sim]])
  then show "applied_ok n y v (nodes s' v)" for v using nodes at(2) by (simp add: applied_ok_def)
qed

lemma same_vote:
  assumes "history_inv s H" and "CurrentTerm rf = CurrentTerm (nodes s i)" and "VoteFor rf = VoteFor (nodes s i)"
  shows "H = (if VoteFor rf = -1 then H else H((i, CurrentTerm rf) \<mapsto> VoteFor rf))"
  using assms by (auto simp: history_inv_def fun_eq_iff)

text \<open>A step in which no peer changes what the protocol sees.\<close>

definition unseen :: "Raft \<Rightarrow> Raft \<Rightarrow> bool" where
  "unseen rf rf' \<longleftrightarrow> CurrentTerm rf' = CurrentTerm rf \<and> VoteFor rf' = VoteFor rf \<and> state rf' = state rf \<and>
     Log rf' = Log rf \<and> commitIndex rf' = commitIndex rf \<and> applyCh rf' = applyCh rf"

lemma unseen_refl [simp]: "unseen rf rf"
  by (simp add: unseen_def)

definition peers_same :: "proto \<Rightarrow> proto \<Rightarrow> bool" where
  "peers_same x y \<longleftrightarrow> p_term y = p_term x \<and> p_role y = p_role x \<and> p_log y = p_log x \<and> p_commit y = p_commit x \<and>
     p_votes y = p_votes x"

lemma sim_unseen:
  assumes sim: "sim n s x ow C" and safe: "safe_inv n (record_votes s' (p_votes x)) s'" and st: "pstep n x y"
    and "peers_same x y" and nodes: "nodes s' = (nodes s)(i := rf)" "unseen (nodes s i) rf" "applying s' = applying s"
    and same: "fresh_bcast s' = fresh_bcast s" "tallies s' = tallies s"
    and thr: "\<And>p. goro_ok n y (fresh_bcast s) ow (threads s p) \<Longrightarrow> goro_ok n y (fresh_bcast s) ow (threads s' p)"
    and pend: "\<And>p k. pending k (threads s' p) \<subseteq> pending k (threads s p)"
  shows "sim n s' y ow C"
proof (rule sim_at [OF sim safe st nodes(1,3) _ _ _ _ same thr pend])
  show "p_votes y = (if VoteFor rf = -1 then p_votes x else (p_votes x)((i, CurrentTerm rf) \<mapsto> VoteFor rf))"
    using same_vote [OF sim_history [OF sim], of rf i] nodes(2) assms(4) by (simp add: unseen_def peers_same_def)
  show "peer_match rf (applying s i) y i" "applyCh rf = applyCh (nodes s i)" "others_same x y i"
    using simD(3) [OF sim, of i] nodes(2) assms(4) by (simp_all add: unseen_def peers_same_def peer_match_def others_same_def)
qed

lemmas sim_stutter = sim_unseen [OF _ _ stutter]

lemma peers_same_refl [simp]: "peers_same x x"
  by (simp add: peers_same_def)

lemma sim_fresh: "sim n s x ow C \<Longrightarrow> fresh s \<le> p \<Longrightarrow> threads s p = Idle"
  using simD(1) safe_fresh by blast

lemma sim_peer:
  assumes "sim n s x ow C"
  shows "p_term x v = CurrentTerm (nodes s v)" "p_role x v = state (nodes s v)" "p_log x v = Log (nodes s v)"
    "commitIndex (nodes s v) \<le> p_commit x v" "applying s v \<le> p_commit x v" "Log (nodes s v) \<noteq> []" "me (nodes s v) = int v"
proof -
  show "p_term x v = CurrentTerm (nodes s v)" "p_role x v = state (nodes s v)" and l: "p_log x v = Log (nodes s v)"
    and "commitIndex (nodes s v) \<le> p_commit x v" "applying s v \<le> p_commit x v"
    using simD(3) [OF assms, of v] by (auto simp: peer_match_def)
  show "Log (nodes s v) \<noteq> []" using node_invD(1) [OF pinvD(1) [OF simD(2) [OF assms]], of v] l by (simp add: chain_def)
  show "me (nodes s v) = int v" using data_invD(1) [OF sim_data [OF assms], of v] by (simp add: peer_ok_def)
qed

lemma sim_elections:
  assumes "sim n s x ow C"
  shows "threads s p = VoteCall e i j ph \<Longrightarrow> i < n \<and> j < n \<and> j \<noteq> i" "threads s p = ElectionLoop e i T js \<Longrightarrow> i < n"
proof -
  obtain et ec where b: "ballot_inv n s (p_votes x) et ec" using simD(1) [OF assms] by (auto simp: safe_inv_def)
  show "i < n \<and> j < n \<and> j \<noteq> i" if "threads s p = VoteCall e i j ph"
    using ballot_invD(1) [OF b, of p] ballot_invD(4) [OF b, of e] that by auto
  show "i < n" if "threads s p = ElectionLoop e i T js"
    using ballot_invD(1) [OF b, of p] ballot_invD(4) [OF b, of e] that by auto
qed

lemma applying_sel [simp]:
  "applying (set_node i rf s) = applying s" "applying (set_thread p th s) = applying s"
  "applying (spawn th s) = applying s" "applying (spawn_bcast i b s) = applying s"
  "fresh_bcast (spawn_bcast i b s) = fresh_bcast s + 1"
  "tallies (spawn_bcast i b s) = (tallies s)(fresh_bcast s := \<lparr>nReplica = 1, isAgree = False\<rparr>)"
  by (simp_all add: set_node_def set_thread_def spawn_def spawn_bcast_def Let_def)

definition follows :: "nat \<Rightarrow> proto \<Rightarrow> cluster \<Rightarrow> bool" where
  "follows n x s' \<longleftrightarrow> (\<exists>y ow C. pstep n x y \<and> sim n s' y ow C)"

lemma followsI: "pstep n x y \<Longrightarrow> sim n s' y ow C \<Longrightarrow> follows n x s'"
  unfolding follows_def by blast

text \<open>Steps of a goroutine that change nothing the protocol sees.\<close>

lemma follows_unseen:
  assumes sim: "sim n s x ow C" and safe: "safe_inv n (record_votes s' (p_votes x)) s'"
    and nodes: "nodes s' = (nodes s)(i := rf)" "unseen (nodes s i) rf" "applying s' = applying s"
    and same: "fresh_bcast s' = fresh_bcast s" "tallies s' = tallies s"
    and thr: "\<And>p. goro_ok n x (fresh_bcast s) ow (threads s p) \<Longrightarrow> goro_ok n x (fresh_bcast s) ow (threads s' p)"
    and pend: "\<And>p k. pending k (threads s' p) \<subseteq> pending k (threads s p)"
  shows "follows n x s'"
  using followsI [OF stutter sim_stutter [OF sim safe _ nodes same thr pend]] by simp

lemma follows_threads:
  assumes sim: "sim n s x ow C" and safe: "safe_inv n (record_votes s' (p_votes x)) s'"
    and nodes: "nodes s' = nodes s" "applying s' = applying s"
    and same: "fresh_bcast s' = fresh_bcast s" "tallies s' = tallies s"
    and thr: "\<And>p. goro_ok n x (fresh_bcast s) ow (threads s p) \<Longrightarrow> goro_ok n x (fresh_bcast s) ow (threads s' p)"
    and pend: "\<And>p k. pending k (threads s' p) \<subseteq> pending k (threads s p)"
  shows "follows n x s'"
  by (rule follows_unseen [OF sim safe _ _ nodes(2) same thr pend, of 0 "nodes s 0"]) (simp_all add: nodes(1))

lemma follows_timeout:
  assumes sim: "sim n s x ow C" and st: "step (Timeout t i) s = Some (Inr s')"
    and safe: "safe_inv n (record_votes s' (p_votes x)) s'"
  shows "follows n x s'"
proof -
  have i: "i < n" and sz: "size_of s = n" using sim_data [OF sim] st by (auto simp: data_inv_def split: if_splits)
  have s': "nodes s' = (nodes s)(i := startElection t (nodes s i))"
      "threads s' = (threads s)(fresh s := ElectionLoop (fresh_election s) i (CurrentTerm (nodes s i) + 1) (others n i))"
      "applying s' = applying s" "fresh_bcast s' = fresh_bcast s" "tallies s' = tallies s"
    using st i sz by (auto simp: Let_def)
  show ?thesis
  proof (rule followsI [OF timeout [OF i] sim_at [OF sim safe timeout [OF i] s'(1,3)]])
    show "peer_match (startElection t (nodes s i)) (applying s i) (do_timeout i x) i"
      using sim_peer [OF sim, of i] by (simp add: peer_match_def do_timeout_def Let_def)
  qed (use sim_peer [OF sim, of i] s' in \<open>auto simp: do_timeout_def Let_def others_same_def\<close>)
qed

lemma follows_loop:
  assumes sim: "sim n s x ow C" and p: "threads s p = ElectionLoop e i T js"
    and st: "run_thread now p s = Some (Inr s')" and safe: "safe_inv n (record_votes s' (p_votes x)) s'"
  shows "follows n x s'"
proof (cases js)
  case Nil
  then have "s' = set_thread p Idle s" using st p by (simp add: run_thread_def)
  then show ?thesis by (intro follows_threads [OF sim safe]) auto
next
  case (Cons j js')
  obtain args where args: "election_args (nodes s i) = Inr args"
      and s': "s' = set_thread p (ElectionLoop e i T js') (spawn (VoteCall e i j (VSent args)) s)"
    using st p Cons by (auto simp: run_thread_def go_simps)
  have "args = \<lparr>rv_Term = CurrentTerm (nodes s i), CandidateId = int i, LastLogIndex = len (Log (nodes s i)) - 1,
      LastLogTerm = Term (last (Log (nodes s i)))\<rparr>"
    using election_args_eq [OF sim_peer(6) [OF sim], of i] args sim_peer(7) [OF sim, of i] by simp
  then have ask: "pstep n x (x\<lparr>p_vreqs := insert args (p_vreqs x)\<rparr>)"
    using sim_peer [OF sim, of i] by (intro ask [of _ i]) simp_all
  show ?thesis
    by (rule followsI [OF ask sim_unseen [OF sim safe ask, of i "nodes s i"]])
       (use p in \<open>auto simp: s' peers_same_def\<close>)
qed

lemma RequestVote_outcome:
  assumes "RequestVote t args rf = Inr (rf', reply)" and "Log rf \<noteq> []"
  shows "rf' = rf \<or> may_vote args rf \<and> rf' = rv_grant t args (rv_term_updated args rf) \<or>
    CurrentTerm rf < rv_Term args \<and> rf' = rv_term_updated args rf"
proof -
  have "rv_term_updated args rf = rf \<or> CurrentTerm rf < rv_Term args" by (simp add: rv_term_updated_def)
  then show ?thesis using assms(1) unfolding RequestVote_eq [OF assms(2)] by (auto split: if_splits)
qed

lemma follows_request_vote:
  assumes sim: "sim n s x ow C" and r: "RequestVote t args (nodes s j) = Inr (rf, reply)" and a: "args \<in> p_vreqs x"
    and s': "s' = set_thread p (VoteCall e i j ph) (set_node j rf s)" and ph: "\<And>y. vote_goro y ph"
    and p: "threads s p = VoteCall e i j ph'"
    and safe: "safe_inv n (record_votes s' (p_votes x)) s'"
  shows "follows n x s'"
proof -
  let ?rf = "nodes s j" and ?T = "rv_Term args"
  note pe = sim_peer [OF sim, of j]
  have h: "history_inv s (p_votes x)" by (rule sim_history [OF sim])
  have same: "nodes s' = (nodes s)(j := rf)" "applying s' = applying s" "fresh_bcast s' = fresh_bcast s" "tallies s' = tallies s"
      "\<And>q. threads s' q = (if q = p then VoteCall e i j ph else threads s q)"
    using s' by auto
  have thr: "\<And>y q. goro_ok n y (fresh_bcast s) ow (threads s q) \<Longrightarrow> goro_ok n y (fresh_bcast s) ow (threads s' q)"
    and pend: "\<And>q k. pending k (threads s' q) \<subseteq> pending k (threads s q)"
    using ph p by (auto simp: same(5))
  consider (none) "rf = ?rf" | (grant) "may_vote args ?rf" "rf = rv_grant t args (rv_term_updated args ?rf)"
    | (newer) "CurrentTerm ?rf < ?T" "rf = rv_term_updated args ?rf"
    using RequestVote_outcome [OF r pe(6)] by blast
  then show ?thesis
  proof cases
    case none
    then show ?thesis by (intro follows_unseen [OF sim safe same(1) _ same(2-4) thr pend]) auto
  next
    case grant
    then have m: "CurrentTerm ?rf \<le> ?T" "up_to_date (Log ?rf) args"
        "CurrentTerm ?rf < ?T \<or> VoteFor ?rf = -1 \<or> VoteFor ?rf = CandidateId args"
      by (auto simp: may_vote_def)
    obtain c where c: "CandidateId args = int c" using pinvD(5) [OF simD(2) [OF sim] a] by (auto simp: vreq_inv_def)
    have "p_votes x (j, ?T) \<in> {None, Some (CandidateId args)}"
    proof (cases "CurrentTerm ?rf < ?T")
      case True
      then have "p_votes x (j, ?T) = None" using h by (force simp: history_inv_def)
      then show ?thesis by simp
    next
      case False
      then have "p_votes x (j, ?T) = (if VoteFor ?rf = -1 then None else Some (VoteFor ?rf))"
        using h m(1) unfolding history_inv_def by (metis order_le_less)
      then show ?thesis using m(3) False by auto
    qed
    then have st: "pstep n x (do_grant j ?T (CandidateId args) x)"
      using a m pe by (intro pstep.grant) simp_all
    show ?thesis
      by (rule followsI [OF st sim_at [OF sim safe st same(1,2) _ _ _ _ same(3,4) thr pend]])
         (use grant m c pe in \<open>auto simp: do_grant_def peer_match_def others_same_def\<close>)
  next
    case newer
    then have st: "pstep n x (do_step_down j ?T x)" using pe by (intro step_down) simp
    show ?thesis
      by (rule followsI [OF st sim_at [OF sim safe st same(1,2) _ _ _ _ same(3,4) thr pend]])
         (use newer pe in \<open>auto simp: do_step_down_def peer_match_def others_same_def\<close>)
  qed
qed

lemma follows_vote:
  assumes sim: "sim n s x ow C" and p: "threads s p = VoteCall e i j ph"
    and st: "run_vote p e i j ph s = Some (Inr s')" and safe: "safe_inv n (record_votes s' (p_votes x)) s'"
  shows "follows n x s'"
proof (cases ph)
  case (VReplied args reply)
  show ?thesis
    by (rule follows_threads [OF sim safe]) (use st p VReplied in \<open>auto split: if_splits\<close>)
next
  case (VChecked args reply)
  note pe = sim_peer [OF sim, of i]
  show ?thesis
  proof (cases "VoteGranted reply")
    case False
    let ?rf = "vote_denied reply (nodes s i)"
    have s': "s' = set_thread p (VoteCall e i j (VDone False)) (set_node i ?rf s)" using st VChecked False by simp
    show ?thesis
    proof (cases "CurrentTerm (nodes s i) < rvr_Term reply")
      case True
      then have stp: "pstep n x (do_step_down i (rvr_Term reply) x)" using pe by (intro step_down) simp
      show ?thesis
        by (rule followsI [OF stp sim_at [OF sim safe stp, of i ?rf]])
           (use True pe p s' in \<open>auto simp: do_step_down_def peer_match_def others_same_def\<close>)
    next
      case False
      then have "unseen (nodes s i) ?rf" by (simp add: unseen_def)
      then show ?thesis by (rule follows_unseen [OF sim safe, of i ?rf, rotated]) (use p s' in auto)
    qed
  next
    case True
    then obtain rf k won where v: "vote_granted (nvotes s e) (nodes s i) = Inr (rf, k, won)"
      using st VChecked by (auto simp: go_simps)
    note vg = vote_granted_cases [OF v]
    let ?s = "set_thread p (VoteCall e i j (VDone True)) (set_node i rf (s\<lparr>nvotes := (nvotes s)(e := k)\<rparr>))"
    have s': "s' = (if won then spawn (Heartbeat i HEnter) ?s else ?s)"
      using st VChecked True v by (simp add: Let_def)
    show ?thesis
    proof (cases won)
      case False
      then have "rf = nodes s i" using vg by simp
      then show ?thesis by (intro follows_threads [OF sim safe]) (use p s' False in auto)
    next
      case True
      have l: "Log rf = Log (nodes s i)" by (rule vote_granted_log [OF v])
      have c: "commitIndex rf = commitIndex (nodes s i)"
        using v by (auto simp: vote_granted_def Let_def go_simps split: if_splits dest!: init_indices_commit)
      have a: "applyCh rf = applyCh (nodes s i)"
        using v by (auto simp: vote_granted_def Let_def go_simps split: if_splits dest!: init_indices_applied)
      have w: "state (nodes s i) = Candidate" "state rf = Leader" "CurrentTerm rf = CurrentTerm (nodes s i)"
          "VoteFor rf = VoteFor (nodes s i)"
        using vg True by auto
      have n': "nodes s' = (nodes s)(i := rf)" using s' True by simp
      have rv: "record_votes s' (p_votes x) = p_votes x"
        using record_one [OF sim_history [OF sim] n'] same_vote [OF sim_history [OF sim] w(3,4)] by simp
      then obtain et ec where "ballot_inv n s' (p_votes x) et ec" using safe by (auto simp: safe_inv_def)
      then obtain Q where Q: "majority_of n Q" "\<forall>u \<in> Q. p_votes x (u, CurrentTerm (nodes s i)) = Some (int i)"
        using ballot_invD(5) [of n s' "p_votes x" et ec i] n' w by auto
      have stp: "pstep n x (do_win i (p_term x i) x)" using Q pe w by (intro win [of _ _ _ Q]) simp_all
      show ?thesis
      proof (rule followsI [OF stp sim_at [OF sim safe stp n']])
        show "p_votes (do_win i (p_term x i) x) = (if VoteFor rf = -1 then p_votes x
            else (p_votes x)((i, CurrentTerm rf) \<mapsto> VoteFor rf))"
          using same_vote [OF sim_history [OF sim] w(3,4)] by (simp add: do_win_def)
        show "peer_match rf (applying s i) (do_win i (p_term x i) x) i"
          using pe w l c by (simp add: peer_match_def do_win_def)
      qed (use p s' a True sim_elections(1) [OF sim p] sim_fresh [OF sim] in \<open>auto simp: do_win_def others_same_def\<close>)
    qed
  qed
qed (use st in simp_all)

lemma follows_start:
  assumes sim: "sim n s x ow C" and p: "threads s p = StartCall i c ph" and ph: "ph = SEnter \<or> ph = SLeader T"
    and calm: "calm (Run now p) s" and s': "s' = run_start now p i c ph s"
    and safe: "safe_inv n (record_votes s' (p_votes x)) s'"
  shows "follows n x s'"
proof (cases "ph = SEnter")
  case True
  have "i < n" using simD(5) [OF sim, of p] p True by simp
  then show ?thesis by (intro follows_threads [OF sim safe]) (use True p s' in \<open>auto simp: Let_def GetState_def\<close>)
next
  case False
  then have ph: "ph = SLeader T" using ph by simp
  note pe = sim_peer [OF sim, of i]
  let ?rf = "fst (start_append c now (nodes s i))" and ?e = "\<lparr>Command = c, Term = CurrentTerm (nodes s i)\<rparr>"
  have l: "state (nodes s i) = Leader" using calm p ph by (simp add: calm_def)
  have i: "i < n" using simD(5) [OF sim, of p] p ph by simp
  have rf: "Log ?rf = Log (nodes s i) @ [?e]" "CurrentTerm ?rf = CurrentTerm (nodes s i)" "VoteFor ?rf = VoteFor (nodes s i)"
      "state ?rf = state (nodes s i)" "commitIndex ?rf = commitIndex (nodes s i)" "applyCh ?rf = applyCh (nodes s i)"
      "snd (start_append c now (nodes s i)) = len (Log (nodes s i))"
    by (simp_all add: start_append_def Let_def)
  have stp: "pstep n x (do_append i (p_term x i) ?e x)" using pe l by (intro pstep.append) simp_all
  have "s' = set_thread p (StartCall i c (SAppended (len (Log (nodes s i))) (CurrentTerm (nodes s i)))) (set_node i ?rf s)"
    using s' ph rf by (simp add: Let_def split_beta)
  then show ?thesis
    by (intro followsI [OF stp sim_at [OF sim safe stp, of i ?rf]])
       (use same_vote [OF sim_history [OF sim] rf(2,3)] pe rf l p i in
         \<open>auto simp: do_append_def peer_match_def others_same_def stands_def\<close>)
qed

text \<open>A new broadcast: no peer is counted yet, and every peer may be.\<close>

lemma pending_old: "goro_ok n x m ow th \<Longrightarrow> m \<le> k \<Longrightarrow> pending k th = {}"
proof (cases th)
  case (Bcast k' i b ph)
  then show "goro_ok n x m ow th \<Longrightarrow> m \<le> k \<Longrightarrow> pending k th = {}" by (cases ph) auto
qed auto

lemma count_okI:
  "(\<And>p q k. p < q \<Longrightarrow> pending k (threads s p) \<inter> pending k (threads s q) = {}) \<Longrightarrow>
   (\<And>p k. pending k (threads s p) \<inter> C k = {}) \<Longrightarrow> count_ok s C"
  unfolding count_ok_def by (metis Int_commute linorder_neqE_nat)

lemma follows_new_bcast:
  assumes sim: "sim n s x ow C" and safe: "safe_inv n (record_votes s' (p_votes x)) s'"
    and p: "threads s p \<noteq> Idle" and s': "s' = set_thread p Idle (spawn_bcast i b s)"
    and b: "i < n" "stands x i (bc_term b) (bc_index b)" "bc_commit b \<le> p_commit x i"
  shows "follows n x s'"
proof -
  let ?k = "fresh_bcast s" and ?ow = "ow(fresh_bcast s := (i, b))" and ?C = "C(fresh_bcast s := {})"
  have pf: "p < fresh s" using p sim_fresh [OF sim, of p] by force
  have thr: "threads s' = (threads s)(fresh s := Bcast ?k i b BEnter, p := Idle)"
    and rest: "nodes s' = nodes s" "applying s' = applying s" "fresh_bcast s' = ?k + 1"
      "tallies s' = (tallies s)(?k := \<lparr>nReplica = 1, isAgree = False\<rparr>)"
    using s' pf by (auto simp: spawn_bcast_def spawn_def set_thread_def Let_def)
  have old: "pending k (threads s q) = {}" if "?k \<le> k" for q k using pending_old [OF simD(5) [OF sim] that] .
  have c: "count_ok s C" by (rule simD(7) [OF sim])
  have "sim n s' x ?ow ?C"
    unfolding sim_def
  proof (intro conjI allI impI)
    show "safe_inv n (p_votes x) s'"
      using safe record_one [OF sim_history [OF sim], of s' i "nodes s i"]
        same_vote [OF sim_history [OF sim], of "nodes s i" i] rest(1) by simp
    show "pinv n x" by (rule simD(2) [OF sim])
    show "peer_match (nodes s' v) (applying s' v) x v" "applied_ok n x v (nodes s' v)" for v
      using simD(3,4) [OF sim] rest by simp_all
    have "goro_ok n x (?k + 1) ?ow (threads s q)" for q by (rule goro_more [OF simD(5) [OF sim]]) simp_all
    then show "goro_ok n x (fresh_bcast s') ?ow (threads s' q)" for q using b by (simp add: thr rest)
    show "bcast_ok n x (?ow k) (?C k) (tallies s' k)" if "k < fresh_bcast s'" for k
      using simD(6) [OF sim, of k] that b by (auto simp: rest bcast_ok_def)
    show "count_ok s' ?C"
    proof (rule count_okI)
      show "pending k (threads s' q) \<inter> ?C k = {}" for q k using c by (auto simp: count_ok_def thr)
      show "pending k (threads s' q) \<inter> pending k (threads s' r) = {}" if "q < r" for q r k
        using c that old [of k q] old [of k r] by (auto simp: count_ok_def thr)
    qed
  qed
  then show ?thesis by (rule followsI [OF stutter])
qed

lemma follows_start_broadcast:
  assumes sim: "sim n s x ow C" and p: "threads s p = StartCall i c (SAppended index T)"
    and calm: "calm (Run now p) s" and s': "s' = run_start now p i c (SAppended index T) s"
    and safe: "safe_inv n (record_votes s' (p_votes x)) s'"
  shows "follows n x s'"
proof (rule follows_new_bcast [OF sim safe])
  let ?b = "start_broadcast index (nodes s i)"
  have g: "i < n" "stands x i T index" using simD(5) [OF sim, of p] p by simp_all
  have "CurrentTerm (nodes s i) = T" using calm p by (simp add: calm_def)
  then show "stands x i (bc_term ?b) (bc_index ?b)" using g(2) by (simp add: start_broadcast_def)
  show "bc_commit ?b \<le> p_commit x i" using sim_peer(4) [OF sim] by (simp add: start_broadcast_def)
  show "i < n" by (rule g(1))
qed (use p s' in auto)

lemma follows_heartbeat:
  assumes sim: "sim n s x ow C" and p: "threads s p = Heartbeat i ph" and s': "s' = run_heartbeat now p i ph s"
    and safe: "safe_inv n (record_votes s' (p_votes x)) s'"
  shows "follows n x s'"
proof -
  have i: "i < n" using simD(5) [OF sim, of p] p by simp
  show ?thesis
  proof (cases ph)
    case HEnter
    then show ?thesis by (intro follows_threads [OF sim safe]) (use p s' i in auto)
  next
    case HLeader
    have "unseen (nodes s i) ((nodes s i)\<lparr>latestIssueTime := now\<rparr>)" by (simp add: unseen_def)
    then show ?thesis by (rule follows_unseen [OF sim safe, of i, rotated]) (use HLeader p s' i in auto)
  next
    case HIssued
    let ?b = "start_broadcast (len (Log (nodes s i)) - 1) (nodes s i)"
    show ?thesis
      by (rule follows_new_bcast [OF sim safe _ _ i, of p ?b])
         (use HIssued p s' sim_peer [OF sim, of i] in \<open>auto simp: start_broadcast_def stands_def\<close>)
  qed
qed

text \<open>The loop of a broadcast hands one peer after the other to a goroutine of its own.\<close>

lemma follows_bcast_loop:
  assumes sim: "sim n s x ow C" and p: "threads s p = Bcast k i b (BLoop (j # js))"
    and s': "s' = run_bcast p k i b (BLoop (j # js)) s"
    and safe: "safe_inv n (record_votes s' (p_votes x)) s'"
  shows "follows n x s'"
proof -
  have pf: "p < fresh s" using p sim_fresh [OF sim, of p] by force
  have thr: "threads s' = (threads s)(fresh s := AppendCall k i j b ARetry, p := Bcast k i b (BLoop js))"
    and rest: "nodes s' = nodes s" "applying s' = applying s" "fresh_bcast s' = fresh_bcast s" "tallies s' = tallies s"
    using s' pf by (auto simp: spawn_def set_thread_def)
  have g: "k < fresh_bcast s" "ow k = (i, b)" "j < n" "j \<noteq> i" "j \<notin> set js" "set js \<subseteq> {..<n} - {i}" "distinct js"
    using simD(5) [OF sim, of p] p by auto
  have c: "pending k' (threads s q) \<inter> pending k' (threads s r) = {}" if "q \<noteq> r" for q r k'
    using simD(7) [OF sim] that by (simp add: count_ok_def)
  have cC: "pending k' (threads s q) \<inter> C k' = {}" for q k' using simD(7) [OF sim] by (simp add: count_ok_def)
  have "sim n s' x ow C"
    unfolding sim_def
  proof (intro conjI allI impI)
    show "safe_inv n (p_votes x) s'"
      using safe record_one [OF sim_history [OF sim], of s' i "nodes s i"]
        same_vote [OF sim_history [OF sim], of "nodes s i" i] rest(1) by simp
    show "pinv n x" by (rule simD(2) [OF sim])
    show "peer_match (nodes s' v) (applying s' v) x v" "applied_ok n x v (nodes s' v)" for v
      using simD(3,4) [OF sim] rest by simp_all
    show "goro_ok n x (fresh_bcast s') ow (threads s' q)" for q using simD(5) [OF sim, of q] g by (simp add: thr rest)
    show "bcast_ok n x (ow k') (C k') (tallies s' k')" if "k' < fresh_bcast s'" for k'
      using simD(6) [OF sim, of k'] that by (simp add: rest)
    show "count_ok s' C"
    proof (rule count_okI)
      show "pending k' (threads s' q) \<inter> C k' = {}" for q k' using cC [of k' q] cC [of k' p] p by (auto simp: thr)
      show "pending k' (threads s' q) \<inter> pending k' (threads s' r) = {}" if "q < r" for q r k'
        using c [of q r k'] c [of p r k'] c [of q p k'] that p g(5) pf by (auto simp: thr split: if_splits)
    qed
  qed
  then show ?thesis by (rule followsI [OF stutter])
qed

lemma follows_bcast:
  assumes sim: "sim n s x ow C" and p: "threads s p = Bcast k i b ph" and s': "s' = run_bcast p k i b ph s"
    and safe: "safe_inv n (record_votes s' (p_votes x)) s'"
  shows "follows n x s'"
proof -
  have sz: "size_of s = n" using sim_data [OF sim] by (simp add: data_inv_def)
  consider (enter) "ph = BEnter" | (leader) "ph = BLeader" | (empty) "ph = BLoop []" | (loop) j js where "ph = BLoop (j # js)"
    by (metis bphase.exhaust list.exhaust)
  then show ?thesis
  proof cases
    case enter
    then show ?thesis by (intro follows_threads [OF sim safe]) (use p s' in auto)
  next
    case leader
    then show ?thesis by (intro follows_threads [OF sim safe]) (use p s' sz in \<open>auto simp: others_def\<close>)
  next
    case empty
    then show ?thesis by (intro follows_threads [OF sim safe]) (use p s' in auto)
  next
    case (loop j js)
    then show ?thesis using follows_bcast_loop [OF sim _ _ safe] p s' by simp
  qed
qed

section \<open>Replication\<close>

lemma follows_append_entries:
  assumes sim: "sim n s x ow C" and r: "AppendEntries t1 t2 args (nodes s j) = Inr (rf, reply)" and a: "args \<in> p_areqs x"
    and s': "s' = set_thread p (AppendCall k i j b ph) (set_node j rf s)" and p: "threads s p = AppendCall k i j b ph'"
    and ph: "\<And>y. append_goro y i j b ph' \<Longrightarrow> (Success reply \<Longrightarrow> sent_end args \<le> p_acks y j (ae_Term args)) \<Longrightarrow> append_goro y i j b ph"
    and pe: "pending k (AppendCall k i j b ph) \<subseteq> pending k (AppendCall k i j b ph')"
    and safe: "safe_inv n (record_votes s' (p_votes x)) s'"
  shows "follows n x s'"
proof -
  let ?rf = "nodes s j" and ?T = "ae_Term args"
  note peer = sim_peer [OF sim, of j]
  have h: "history_inv s (p_votes x)" by (rule sim_history [OF sim])
  have same: "nodes s' = (nodes s)(j := rf)" "applying s' = applying s" "fresh_bcast s' = fresh_bcast s" "tallies s' = tallies s"
      "\<And>q. threads s' q = (if q = p then AppendCall k i j b ph else threads s q)"
    using s' by auto
  have thr: "\<And>q. goro_ok n y (fresh_bcast s) ow (threads s q) \<Longrightarrow> goro_ok n y (fresh_bcast s) ow (threads s' q)"
    if "Success reply \<Longrightarrow> sent_end args \<le> p_acks y j ?T" for y
    using ph [OF _ that] p by (auto simp: same(5))
  have pend: "\<And>q k. pending k (threads s' q) \<subseteq> pending k (threads s q)"
    using pe p by (auto simp: same(5) split: if_splits)
  show ?thesis
    using r
  proof (cases rule: AppendEntries_cases)
    case stale
    then show ?thesis by (intro follows_unseen [OF sim safe same(1) _ same(2-4) thr pend]) auto
  next
    case accept
    have st: "pstep n x (do_accept j args x)" using a accept peer by (intro pstep.accept) simp_all
    have v: "p_votes x = (if VoteFor rf = -1 then p_votes x else (p_votes x)((j, CurrentTerm rf) \<mapsto> VoteFor rf))"
    proof (cases "CurrentTerm ?rf < ?T")
      case False
      then show ?thesis using accept by (intro same_vote [OF h]) simp_all
    qed (use accept in simp)
    show ?thesis
      by (rule followsI [OF st sim_at [OF sim safe st same(1,2) _ _ _ _ same(3,4) thr pend]])
         (use v accept peer in \<open>auto simp: do_accept_def Let_def peer_match_def others_same_def sent_end_def\<close>)
  next
    case reject
    show ?thesis
    proof (cases "CurrentTerm ?rf < ?T")
      case True
      then have st: "pstep n x (do_step_down j ?T x)" using peer by (intro step_down) simp
      show ?thesis
        by (rule followsI [OF st sim_at [OF sim safe st same(1,2) _ _ _ _ same(3,4) thr pend]])
           (use True reject peer in \<open>auto simp: do_step_down_def peer_match_def others_same_def\<close>)
    next
      case False
      then have "rf = ?rf" using reject by (simp add: ae_term_updated_def)
      then show ?thesis by (intro follows_unseen [OF sim safe same(1) _ same(2-4) thr pend]) (use reject in auto)
    qed
  qed
qed

lemma build_args_segment:
  assumes "build_args i b rf = Inr (args, next)" and "bc_index b < len (Log rf)"
  shows "segment args (Log rf)" "ae_Term args = bc_term b" "LeaderCommit args = bc_commit b"
    "bc_index b < int (sent_end args)"
proof -
  obtain e where "go_index (Log rf) (next - 1) = Inr e" and nx: "ae_Term args = bc_term b" "LeaderCommit args = bc_commit b"
      "PrevLogIndex args = next - 1" "PrevLogTerm args = Term e"
      and es: "(if next < bc_index b + 1 then go_slice (Log rf) next (bc_index b + 1) else Inr []) = Inr (Entries args)"
    using assms(1) by (auto simp: build_args_def Let_def go_simps)
  then have e: "0 \<le> next - 1" "next - 1 < len (Log rf)" "e = Log rf ! nat (next - 1)" by (auto simp: go_simps)
  have s: "Suc (nat (next - 1)) = nat next" using e(1) by simp
  have en: "Entries args = take (nat (bc_index b + 1 - next)) (drop (nat next) (Log rf))"
    using es e assms(2) by (auto simp: go_slice_def split: if_splits)
  have "length (Entries args) = nat (bc_index b + 1 - next)" using en e assms(2) by simp
  then show "segment args (Log rf)" "bc_index b < int (sent_end args)"
    using en nx e assms(2) s by (auto simp: segment_def sent_end_def)
  show "ae_Term args = bc_term b" "LeaderCommit args = bc_commit b" by (fact nx)+
qed

lemma follows_send:
  assumes sim: "sim n s x ow C" and p: "threads s p = AppendCall k i j b ATerm" and calm: "calm (Run now p) s"
    and st: "run_append p k i j b ATerm s = Some (Inr s')" and safe: "safe_inv n (record_votes s' (p_votes x)) s'"
  shows "follows n x s'"
proof -
  obtain args nx where a: "build_args (int j) b (nodes s i) = Inr (args, nx)"
      and s': "s' = set_thread p (AppendCall k i j b (ASent args nx)) s"
    using st by (auto simp: go_simps)
  have g: "k < fresh_bcast s" "ow k = (i, b)" using simD(5) [OF sim, of p] p by auto
  have l: "state (nodes s i) = Leader" "CurrentTerm (nodes s i) = bc_term b" using calm p by (auto simp: calm_def)
  note pe = sim_peer [OF sim, of i]
  have b: "i < n" "bc_index b < len (Log (nodes s i))" "bc_commit b \<le> p_commit x i"
    using simD(6) [OF sim g(1)] l pe by (auto simp: bcast_ok_def g(2) stands_def)
  note seg = build_args_segment [OF a b(2)]
  have ac: "p_acks x i (bc_term b) = length (Log (nodes s i))"
    using node_invD(6) [OF pinvD(1) [OF simD(2) [OF sim]], of i] l pe by simp
  have sb: "sent_by (x\<lparr>p_areqs := insert args (p_areqs x)\<rparr>) i b args"
    using seg(1,2) ac by (simp add: sent_by_def segment_def)
  have stp: "pstep n x (x\<lparr>p_areqs := insert args (p_areqs x)\<rparr>)" using seg l pe b by (intro send [of _ i]) simp_all
  show ?thesis
    by (rule followsI [OF stp sim_unseen [OF sim safe stp, of i "nodes s i"]])
       (use p s' seg sb in \<open>auto simp: peers_same_def split: if_splits\<close>)
qed

lemma follows_rejected:
  assumes sim: "sim n s x ow C" and p: "threads s p = AppendCall k i j b (AChecked args reply nx)" and calm: "calm (Run now p) s"
    and r: "append_rejected (int j) args reply nx (nodes s i) = Inr (rf, retry)"
    and s': "s' = set_thread p (AppendCall k i j b (if retry then ARetry else ADone)) (set_node i rf s)"
    and safe: "safe_inv n (record_votes s' (p_votes x)) s'"
  shows "follows n x s'"
proof -
  note pe = sim_peer [OF sim, of i]
  have t: "CurrentTerm (nodes s i) = ae_Term args" using calm p by (simp add: calm_def)
  show ?thesis
  proof (cases "ae_Term args < aer_Term reply")
    case True
    then have stp: "pstep n x (do_step_down i (aer_Term reply) x)" using pe t by (intro step_down) simp
    show ?thesis
      by (rule followsI [OF stp sim_at [OF sim safe stp, of i rf]])
         (use True r pe p s' in \<open>auto simp: append_rejected_def Let_def do_step_down_def peer_match_def others_same_def\<close>)
  next
    case False
    then have "unseen (nodes s i) rf" using r by (auto simp: append_rejected_def Let_def go_simps unseen_def)
    then show ?thesis by (rule follows_unseen [OF sim safe, of i rf, rotated]) (use p s' in \<open>auto split: if_splits\<close>)
  qed
qed

text \<open>
  An accepted request is counted: the counter of the broadcast stands for the leader and the peers counted, so
  that a majority of the counter is a majority of peers that have stored the entries.
\<close>

lemma counted_majority:
  assumes sim: "sim n s x ow C" and k: "k < fresh_bcast s" "ow k = (i, b)" and j: "j < n" "j \<noteq> i" "j \<notin> C k"
    and acks: "bc_index b < int (p_acks x j (bc_term b))" and l: "state (nodes s i) = Leader" "CurrentTerm (nodes s i) = bc_term b"
    and maj: "majority (nodes s i) \<le> nReplica (tallies s k) + 1"
  shows "majority_of n (insert i (insert j (C k)))"
    "v \<in> insert i (insert j (C k)) \<Longrightarrow> bc_index b < int (p_acks x v (p_term x i))"
proof -
  note pe = sim_peer [OF sim, of i]
  have b: "i < n" "C k \<subseteq> {..<n} - {i}" "nReplica (tallies s k) = 1 + int (card (C k))" "stands x i (bc_term b) (bc_index b)"
      "\<forall>j \<in> C k. bc_index b < int (p_acks x j (bc_term b))"
    using simD(6) [OF sim k(1)] by (simp_all add: bcast_ok_def k(2))
  have "length (peers (nodes s i)) = n" using data_invD(1) [OF sim_data [OF sim], of i] by (simp add: peer_ok_def)
  then have "n div 2 + 1 \<le> card (C k) + 2" using maj b(3) by (simp add: majority_def zdiv_int flip: zdiv_int)
  moreover have "card (insert i (insert j (C k))) = card (C k) + 2"
    using b(2) j finite_subset [OF b(2)] by (subst card_insert_disjoint; force)
  ultimately show "majority_of n (insert i (insert j (C k)))" using b(1,2) j(1) by (auto simp: majority_of_def)
  have "p_acks x i (p_term x i) = length (p_log x i)"
    using node_invD(6) [OF pinvD(1) [OF simD(2) [OF sim]], of i] pe l by simp
  then have "bc_index b < int (p_acks x i (p_term x i))" using b(4) pe l by (simp add: stands_def)
  then show "bc_index b < int (p_acks x v (p_term x i))" if "v \<in> insert i (insert j (C k))"
    using that b(5) acks pe l by auto
qed

lemma append_accepted_cases:
  assumes "append_accepted i index ta rf = Inr (rf', ta', adv)"
  shows "nReplica ta' = nReplica ta + 1" "CurrentTerm rf' = CurrentTerm rf" "VoteFor rf' = VoteFor rf" "state rf' = state rf"
    "Log rf' = Log rf" "applyCh rf' = applyCh rf"
    "commitIndex rf' = commitIndex rf \<or> commitIndex rf' = index \<and> state rf = Leader \<and> majority rf \<le> nReplica ta + 1 \<and>
       0 \<le> index \<and> index < len (Log rf) \<and> Term (Log rf ! nat index) = CurrentTerm rf"
  using assms by (auto simp: append_accepted_def Let_def go_simps majority_def split: if_splits)

lemma sim_commit:
  assumes sim: "sim n s x ow C" and k: "k < fresh_bcast s" "ow k = (i, b)" and j: "j < n" "j \<noteq> i" "j \<notin> C k"
    and acks: "bc_index b < int (p_acks x j (bc_term b))" and t: "CurrentTerm (nodes s i) = bc_term b"
    and r: "append_accepted (int j) (bc_index b) (tallies s k) (nodes s i) = Inr (rf, ta, adv)"
  obtains y where "pstep n x y" "p_votes y = p_votes x" "p_acks y = p_acks x" "peer_match rf (applying s i) y i" "others_same x y i"
proof -
  note acc = append_accepted_cases [OF r] and pe = sim_peer [OF sim, of i]
  have m: "peer_match rf (applying s i) x i" if "commitIndex rf \<le> p_commit x i"
    using that acc pe by (simp add: peer_match_def)
  show thesis
  proof (cases "commitIndex rf \<le> p_commit x i")
    case True
    then show ?thesis using that [OF stutter] m by (simp add: others_same_def)
  next
    case False
    let ?i = "nat (bc_index b)" and ?Q = "insert i (insert j (C k))"
    let ?y = "x\<lparr>p_commit := (p_commit x)(i := int ?i)\<rparr>"
    have c: "commitIndex rf = bc_index b" "state (nodes s i) = Leader" "majority (nodes s i) \<le> nReplica (tallies s k) + 1"
        "0 \<le> bc_index b" "bc_index b < len (Log (nodes s i))" "Term (Log (nodes s i) ! ?i) = CurrentTerm (nodes s i)"
      using acc(7) False pe by auto
    note q = counted_majority [OF sim k j acks c(2) t c(3)]
    have "\<forall>v \<in> ?Q. ?i < p_acks x v (p_term x i)" using q(2) c(4) by force
    then have "pstep n x ?y" using q(1) c False pe by (intro commit [of _ _ _ _ ?Q]) auto
    moreover have "peer_match rf (applying s i) ?y i" using False c acc pe by (simp add: peer_match_def)
    ultimately show ?thesis using that [of ?y] by (simp add: others_same_def)
  qed
qed

lemma follows_accepted:
  assumes sim: "sim n s x ow C" and p: "threads s p = AppendCall k i j b (AChecked args reply nx)" and calm: "calm (Run now p) s"
    and ok: "Success reply" and r: "append_accepted (int j) (bc_index b) (tallies s k) (nodes s i) = Inr (rf, ta, adv)"
    and s': "s' = (let s = set_thread p (AppendCall k i j b ADone) (set_node i rf (s\<lparr>tallies := (tallies s)(k := ta)\<rparr>))
                   in if adv then spawn (Heartbeat i HEnter) s else s)"
    and safe: "safe_inv n (record_votes s' (p_votes x)) s'"
  shows "follows n x s'"
proof -
  let ?C = "C(k := insert j (C k))"
  note acc = append_accepted_cases [OF r]
  have g: "k < fresh_bcast s" "ow k = (i, b)" "j < n" "j \<noteq> i" "bc_index b < int (p_acks x j (bc_term b))"
    and t: "CurrentTerm (nodes s i) = bc_term b"
    using simD(5) [OF sim, of p] p ok calm by (auto simp: calm_def sent_by_def)
  have c: "pending k' (threads s q) \<inter> pending k' (threads s q') = {}" if "q \<noteq> q'" for q q' k'
    using simD(7) [OF sim] that by (simp add: count_ok_def)
  have cC: "pending k' (threads s q) \<inter> C k' = {}" for q k' using simD(7) [OF sim] by (simp add: count_ok_def)
  have j: "j \<notin> C k" using cC [of k p] p by simp
  obtain y where st: "pstep n x y" "p_votes y = p_votes x" "p_acks y = p_acks x" "peer_match rf (applying s i) y i" "others_same x y i"
    by (rule sim_commit [OF sim g(1-4) j g(5) t r])
  have i: "i < n" using simD(6) [OF sim g(1)] by (simp add: bcast_ok_def g(2))
  have pf: "p < fresh s" using p sim_fresh [OF sim, of p] by force
  define th where "th q = (if q = p then AppendCall k i j b ADone else if adv \<and> q = fresh s then Heartbeat i HEnter
    else threads s q)" for q
  have new: "nodes s' = (nodes s)(i := rf)" "applying s' = applying s" "fresh_bcast s' = fresh_bcast s"
      "tallies s' = (tallies s)(k := ta)" "\<And>q. threads s' q = th q"
    using s' pf by (auto simp: Let_def th_def)
  have v: "record_votes s' (p_votes x) = p_votes x"
    using record_one [OF sim_history [OF sim] new(1)] same_vote [OF sim_history [OF sim] acc(2,3)] by simp
  note old = goro_step [OF st(1) simD(2,5) [OF sim]] bcast_step [OF st(1) simD(2,6) [OF sim]]
    applied_step [OF st(1) simD(2,4) [OF sim]]
  have "sim n s' y ow ?C"
    unfolding sim_def
  proof (intro conjI allI impI)
    show "safe_inv n (p_votes y) s'" using safe v st(2) by simp
    show "pinv n y" by (rule pinv_step [OF st(1) simD(2) [OF sim]])
    show "peer_match (nodes s' w) (applying s' w) y w" for w
      using simD(3) [OF sim, of w] st(4,5) by (cases "w = i") (auto simp: new peer_match_def others_same_def)
    show "applied_ok n y w (nodes s' w)" for w using old(3) acc(6) by (simp add: new applied_ok_def)
    show "goro_ok n y (fresh_bcast s') ow (threads s' q)" for q using old(1) [of q] g i by (simp add: new th_def)
    show "bcast_ok n y (ow k') (?C k') (tallies s' k')" if "k' < fresh_bcast s'" for k'
    proof (cases "k' = k")
      case True
      have "finite (C k)" using old(2) [OF g(1)] by (auto simp: bcast_ok_def g(2) intro: finite_subset)
      then show ?thesis using old(2) [OF g(1)] g j acc(1) st(3) by (auto simp: True new bcast_ok_def)
    qed (use old(2) that new in simp)
    show "count_ok s' ?C"
    proof (rule count_okI)
      show "pending k' (threads s' q) \<inter> ?C k' = {}" for q k'
        using cC [of k' q] c [of p q k'] p by (auto simp: new th_def)
      show "pending k' (threads s' q) \<inter> pending k' (threads s' q') = {}" if "q < q'" for q q' k'
        using c [of q q' k'] that by (auto simp: new th_def)
    qed
  qed
  then show ?thesis by (rule followsI [OF st(1)])
qed

lemma follows_append:
  assumes sim: "sim n s x ow C" and p: "threads s p = AppendCall k i j b ph" and calm: "calm (Run now p) s"
    and st: "run_append p k i j b ph s = Some (Inr s')" and safe: "safe_inv n (record_votes s' (p_votes x)) s'"
  shows "follows n x s'"
proof (cases ph)
  case ARetry
  then show ?thesis by (intro follows_threads [OF sim safe]) (use p st in \<open>auto split: if_splits\<close>)
next
  case ALeader
  then show ?thesis by (intro follows_threads [OF sim safe]) (use p st in \<open>auto split: if_splits\<close>)
next
  case ATerm
  then show ?thesis using follows_send [OF sim _ calm _ safe] p st by blast
next
  case (AReplied args reply nx)
  then show ?thesis by (intro follows_threads [OF sim safe]) (use p st in \<open>auto split: if_splits\<close>)
next
  case (AChecked args reply nx)
  show ?thesis
  proof (cases "Success reply")
    case True
    then obtain rf ta adv where r: "append_accepted (int j) (bc_index b) (tallies s k) (nodes s i) = Inr (rf, ta, adv)"
      using st AChecked by (auto simp: go_simps)
    show ?thesis
      by (rule follows_accepted [OF sim p [unfolded AChecked] calm True r _ safe])
         (use AChecked st True r in \<open>auto simp: Let_def\<close>)
  next
    case False
    then obtain rf retry where r: "append_rejected (int j) args reply nx (nodes s i) = Inr (rf, retry)"
      using st AChecked by (auto simp: go_simps)
    show ?thesis
      by (rule follows_rejected [OF sim p [unfolded AChecked] calm r _ safe]) (use AChecked st False r in simp)
  qed
qed (use st in simp_all)

section \<open>Every calm step\<close>

lemma follows_run:
  assumes sim: "sim n s x ow C" and calm: "calm (Run now p) s" and st: "run_thread now p s = Some (Inr s')"
    and safe: "safe_inv n (record_votes s' (p_votes x)) s'"
  shows "follows n x s'"
proof (cases "threads s p")
  case Idle
  then show ?thesis using st by (simp add: run_thread_def)
next
  case (ElectionLoop e i T js)
  then show ?thesis using follows_loop [OF sim _ st safe] by blast
next
  case (VoteCall e i j ph)
  then show ?thesis using follows_vote [OF sim _ _ safe] st by (simp add: run_thread_def)
next
  case (StartCall i c ph)
  then have s': "s' = run_start now p i c ph s" using st by (simp add: run_thread_def)
  show ?thesis
  proof (cases ph)
    case (SAppended index T)
    then show ?thesis using follows_start_broadcast [OF sim _ calm _ safe] StartCall s' by blast
  qed (use follows_start [OF sim StartCall _ calm s' safe] in auto)
next
  case (Heartbeat i ph)
  show ?thesis by (rule follows_heartbeat [OF sim Heartbeat _ safe, of now]) (use st Heartbeat in \<open>simp add: run_thread_def\<close>)
next
  case (Bcast k i b ph)
  show ?thesis by (rule follows_bcast [OF sim Bcast _ safe]) (use st Bcast in \<open>simp add: run_thread_def\<close>)
next
  case (AppendCall k i j b ph)
  then show ?thesis using follows_append [OF sim _ calm _ safe] st by (simp add: run_thread_def)
qed

lemma follows_deliver:
  assumes sim: "sim n s x ow C" and st: "deliver t1 t2 p s = Some (Inr s')"
    and safe: "safe_inv n (record_votes s' (p_votes x)) s'"
  shows "follows n x s'"
proof -
  note g = simD(5) [OF sim, of p]
  consider (vote) e i j args where "threads s p = VoteCall e i j (VSent args)"
    | (orphan) e i j args where "threads s p = VoteCall e i j (VOrphan args)"
    | (app) k i j b args nx where "threads s p = AppendCall k i j b (ASent args nx)"
    | (late) k i j b args where "threads s p = AppendCall k i j b (AOrphan args)"
    using st by (auto simp: deliver_def split: thread.splits vphase.splits aphase.splits)
  then show ?thesis
  proof cases
    case vote
    then obtain rf reply where "RequestVote t1 args (nodes s j) = Inr (rf, reply)"
        "s' = set_thread p (VoteCall e i j (VReplied args reply)) (set_node j rf s)"
      using st by (auto simp: deliver_def go_simps)
    then show ?thesis using follows_request_vote [OF sim _ _ _ _ vote safe] g vote by simp
  next
    case orphan
    then obtain rf reply where "RequestVote t1 args (nodes s j) = Inr (rf, reply)"
        "s' = set_thread p (VoteCall e i j (VDone False)) (set_node j rf s)"
      using st by (auto simp: deliver_def go_simps)
    then show ?thesis using follows_request_vote [OF sim _ _ _ _ orphan safe] g orphan by simp
  next
    case app
    then obtain rf reply where r: "AppendEntries t1 t2 args (nodes s j) = Inr (rf, reply)"
        "s' = set_thread p (AppendCall k i j b (AReplied args reply nx)) (set_node j rf s)"
      using st by (auto simp: deliver_def go_simps)
    show ?thesis by (rule follows_append_entries [OF sim r(1) _ r(2) app _ _ safe]) (use g app in \<open>auto simp: sent_by_def\<close>)
  next
    case late
    then obtain rf reply where r: "AppendEntries t1 t2 args (nodes s j) = Inr (rf, reply)"
        "s' = set_thread p (AppendCall k i j b ADone) (set_node j rf s)"
      using st by (auto simp: deliver_def go_simps)
    show ?thesis by (rule follows_append_entries [OF sim r(1) _ r(2) late _ _ safe]) (use g late in auto)
  qed
qed

lemma follows_lose:
  assumes sim: "sim n s x ow C" and st: "lose p s = Some (Inr s')" and safe: "safe_inv n (record_votes s' (p_votes x)) s'"
  shows "follows n x s'"
  by (rule follows_threads [OF sim safe])
     (use st in \<open>auto simp: lose_def split: thread.splits vphase.splits aphase.splits if_splits\<close>)

lemma follows_spawn:
  assumes sim: "sim n s x ow C" and s': "s' = spawn th s" and th: "\<And>y. goro_ok n y (fresh_bcast s) ow th" "\<And>k. pending k th = {}"
    and safe: "safe_inv n (record_votes s' (p_votes x)) s'"
  shows "follows n x s'"
  by (rule follows_threads [OF sim safe]) (use s' th in \<open>auto split: if_splits\<close>)

lemma follows_pass:
  assumes sim: "sim n s x ow C" and s': "s' = s\<lparr>applying := (applying s)(i := commitIndex (nodes s i))\<rparr>"
    and safe: "safe_inv n (record_votes s' (p_votes x)) s'"
  shows "follows n x s'"
proof -
  have "sim n s' x ow C"
  proof (rule sim_step [OF sim stutter safe])
    show "p_votes x = record_votes s' (p_votes x)"
      using record_one [OF sim_history [OF sim], of s' i "nodes s i"] same_vote [OF sim_history [OF sim], of "nodes s i" i] s'
      by simp
    show "peer_match (nodes s' v) (applying s' v) x v" "applied_ok n x v (nodes s' v)" for v
      using simD(3,4) [OF sim, of v] s' by (auto simp: peer_match_def)
  qed (use s' in auto)
  then show ?thesis by (rule followsI [OF stutter])
qed

lemma follows_apply:
  assumes sim: "sim n s x ow C" and i: "i < n" and r: "apply_step (applying s i) (nodes s i) = Some (Inr rf)"
    and s': "s' = set_node i rf s" and safe: "safe_inv n (record_votes s' (p_votes x)) s'"
  shows "follows n x s'"
proof -
  let ?rf = "nodes s i" and ?k = "lastApplied (nodes s i) + 1"
  note pe = sim_peer [OF sim, of i]
  have a: "apply_entry ?k ?rf = Inr rf" "?k \<le> applying s i" using r by (auto simp: apply_step_def split: if_splits)
  then have k: "0 \<le> ?k" "?k < len (Log ?rf)" by (auto simp: apply_entry_def go_simps Let_def)
  then have rf: "rf = ?rf\<lparr>lastApplied := ?k, applyCh := applyCh ?rf @ [msg_at (Log ?rf) ?k]\<rparr>"
    using a(1) by (simp add: apply_entry_eq)
  have "decided n x (nat ?k) (Log ?rf ! nat ?k)"
    using decided_log [OF simD(2) [OF sim] i, of "nat ?k"] a(2) k pe by simp
  then have ap: "applied_ok n x i rf"
    using simD(4) [OF sim, of i] k(1) by (auto simp: applied_ok_def rf msg_at_def intro!: exI [of _ "nat ?k"])
  have n': "nodes s' = (nodes s)(i := rf)" using s' by simp
  have "sim n s' x ow C"
  proof (rule sim_step [OF sim stutter safe])
    show "p_votes x = record_votes s' (p_votes x)"
      using record_one [OF sim_history [OF sim] n'] same_vote [OF sim_history [OF sim], of rf i] rf by simp
    show "peer_match (nodes s' v) (applying s' v) x v" for v using simD(3) [OF sim, of v] s' rf by (auto simp: peer_match_def)
    show "applied_ok n x v (nodes s' v)" for v using simD(4) [OF sim, of v] ap n' by auto
  qed (use s' in auto)
  then show ?thesis by (rule followsI [OF stutter])
qed

lemma follows_crash:
  assumes sim: "sim n s x ow C" and st: "crash t i ps s = Inr s'" and i: "i < n"
    and safe: "safe_inv n (record_votes s' (p_votes x)) s'"
  shows "follows n x s'"
proof -
  note pe = sim_peer [OF sim, of i]
  have ok: "saved (nodes s i)" "sendable_log (Log (nodes s i))"
    using data_invD(1) [OF sim_data [OF sim], of i] by (auto simp: peer_ok_def)
  obtain rf where m: "Make ps (int i) (Copy (persister (nodes s i))) t = Inr rf"
      "CurrentTerm rf = CurrentTerm (nodes s i)" "VoteFor rf = VoteFor (nodes s i)" "Log rf = Log (nodes s i)"
      "state rf = Follower" "commitIndex rf = 0" "applyCh rf = []"
    using Make_recovers_state [OF ok, of ps "int i" t] by blast
  have s': "nodes s' = (nodes s)(i := rf)" "applying s' = (applying s)(i := 0)" "\<And>p. threads s' p = kill_thread i (threads s p)"
      "fresh_bcast s' = fresh_bcast s" "tallies s' = tallies s"
    using st m(1) by (auto simp: crash_def)
  have "sim n s' (do_restart i x) ow C"
  proof (rule sim_step [OF sim restart safe])
    show "p_votes (do_restart i x) = record_votes s' (p_votes x)"
      using record_one [OF sim_history [OF sim] s'(1)] same_vote [OF sim_history [OF sim] m(2,3)] by (simp add: do_restart_def)
    show "peer_match (nodes s' v) (applying s' v) (do_restart i x) v" for v
      using simD(3) [OF sim, of v] s' m by (auto simp: peer_match_def do_restart_def)
    show "applied_ok n (do_restart i x) v (nodes s' v)" for v
      using applied_step [OF restart simD(2,4) [OF sim]] s'(1) m(7) by (simp add: applied_ok_def)
  qed (use s' goro_kill pending_kill in auto)
  then show ?thesis by (rule followsI [OF restart])
qed

text \<open>Every calm step of the program is a step of the protocol or leaves it where it is.\<close>

theorem calm_follows:
  assumes sim: "sim n s x ow C" and calm: "calm a s" and st: "step a s = Some (Inr s')"
  shows "follows n x s'"
proof -
  have safe: "safe_inv n (record_votes s' (p_votes x)) s'" by (rule safe_inv_step [OF simD(1) [OF sim] calm st])
  have sz: "size_of s = n" using sim_data [OF sim] by (simp add: data_inv_def)
  show ?thesis
  proof (cases a)
    case (Run now p)
    then show ?thesis using follows_run [OF sim _ _ safe] calm st by simp
  next
    case (Deliver t1 t2 p)
    then show ?thesis using follows_deliver [OF sim _ safe] st by simp
  next
    case (Lose p)
    then show ?thesis using follows_lose [OF sim _ safe] st by simp
  next
    case (Timeout t i)
    then show ?thesis using follows_timeout [OF sim _ safe] st by simp
  next
    case (Client i c)
    then show ?thesis using st sz by (intro follows_spawn [OF sim _ _ _ safe, of "StartCall i c SEnter"]) (auto split: if_splits)
  next
    case (Beat i)
    then show ?thesis using st sz by (intro follows_spawn [OF sim _ _ _ safe, of "Heartbeat i HEnter"]) (auto split: if_splits)
  next
    case (Pass i)
    show ?thesis
    proof (cases "lastApplied (nodes s i) = commitIndex (nodes s i)")
      case True
      then show ?thesis using st Pass by (intro follows_threads [OF sim safe]) (auto split: if_splits)
    next
      case False
      then show ?thesis using st Pass by (intro follows_pass [OF sim _ safe]) (auto split: if_splits)
    qed
  next
    case (Doze i)
    then show ?thesis using st by (intro follows_threads [OF sim safe]) (auto split: if_splits)
  next
    case (Wake i)
    then show ?thesis using st by (intro follows_threads [OF sim safe]) (auto split: if_splits)
  next
    case (Apply i)
    then obtain rf where "i < n" "apply_step (applying s i) (nodes s i) = Some (Inr rf)" "s' = set_node i rf s"
      using st sz by (auto simp: go_simps split: if_splits)
    then show ?thesis using follows_apply [OF sim _ _ _ safe] by blast
  next
    case (Crash t i ps)
    then have "crash t i ps s = Inr s'" "i < n" using st sz by (auto split: if_splits)
    then show ?thesis using follows_crash [OF sim _ _ safe] by blast
  qed
qed

end
