(* ===== verification/Raft_NoPanic.thy ===== *)
theory Raft_NoPanic
  imports Raft_Safety
begin

text \<open>
  Calm runs do not panic: no slice index that a goroutine, a handler or a restart uses is ever out of range.
  The invariant adds to the refinement what the peers know about indices: the arrays \<^verbatim>\<open>nextIndex\<close> and
  \<^verbatim>\<open>matchIndex\<close> have one element per peer, the next index a leader keeps for a peer is in its log or one past
  it, and a rejected request carries the report of a well-formed log.
\<close>

section \<open>Well-formed logs\<close>

lemma first_llog:
  assumes "preach n x" and "0 < n"
  shows "length (p_llog x 0) = 1 \<and> committed n x 0 1 \<and> p_llog x 0 ! 0 = first_entry"
  using assms(1)
proof (induction rule: preach.induct)
  case preach_init
  have "majority_of n {..<n}" by (rule majority_all [OF assms(2)])
  then show ?case by (auto simp: proto_init_def committed_def first_entry_def)
next
  case (preach_step x y)
  have inv: "pinv n x" by (rule pinv_preach [OF preach_step(1) assms(2)])
  note nd = node_invD [OF pinvD(1) [OF inv]]
  have "length (p_llog y 0) = length (p_llog x 0)"
    using preach_step(2)
  proof (cases rule: pstep.cases)
    case (win i Q)
    then have "0 < p_term x i" by (intro nd(7)) simp
    then show ?thesis using win by (simp add: do_win_def)
  next
    case (append i e)
    then have "0 < p_term x i" by (intro nd(7)) simp
    then show ?thesis using append by (simp add: do_append_def)
  qed (simp_all add: do_timeout_def do_grant_def do_step_down_def do_accept_def do_restart_def Let_def)
  moreover have ext: "extends x y" by (rule pstep_extends [OF preach_step(2) inv])
  then have "p_llog y 0 ! 0 = p_llog x 0 ! 0"
    using grows_nth [OF extendsD(1) [OF ext], of 0 0] preach_step.IH by simp
  ultimately show ?case using preach_step.IH committed_extends [OF ext] by simp
qed

lemma preach_wf_log:
  assumes "preach n x" and "0 < n"
  shows "wf_log (p_log x v)"
proof -
  have inv: "pinv n x" by (rule pinv_preach [OF assms])
  note f = first_llog [OF assms]
  let ?L = "p_log x v"
  have ch: "chain (p_llog x) ?L" by (rule node_invD(1) [OF pinvD(1) [OF inv]])
  have won: "0 \<le> T \<and> p_won x T \<noteq> None" if "p_llog x T \<noteq> []" for T
    using that pinvD(3) [OF inv, of T] won_invD(1) [OF pinvD(3) [OF inv, of T]]
    by (cases "p_won x T") (auto simp: won_inv_def)
  have pos: "0 \<le> Term (?L ! k) \<and> p_won x (Term (?L ! k)) \<noteq> None \<and> (Term (?L ! k) = 0 \<longrightarrow> k = 0)" if "k < length ?L" for k
  proof -
    have h: "has (p_llog x) (Term (?L ! k)) (Suc k) ?L" by (rule chain_has [OF ch that])
    then have "p_llog x (Term (?L ! k)) \<noteq> []" by (auto simp: has_def)
    then show ?thesis using won h f by (auto simp: has_def)
  qed
  have ne: "0 < length ?L" using ch by (simp add: chain_def)
  let ?T = "Term (?L ! 0)"
  have "has (p_llog x) 0 1 (p_llog x ?T)" using committed_has [OF inv, of 0 1 ?T] f pos [OF ne] by simp
  then have "p_llog x ?T ! 0 = first_entry" using has_nth [of "p_llog x" 0 1 "p_llog x ?T" 0] f by simp
  moreover have "?L ! 0 = p_llog x ?T ! 0" using has_nth [OF chain_has [OF ch ne], of 0] by simp
  ultimately have "?L ! 0 = first_entry" by simp
  then have "?T = 0" by (simp add: first_entry_def)
  then show ?thesis using pos ne by (force simp: wf_log_def)
qed

section \<open>The invariant\<close>

definition indices_ok :: "nat \<Rightarrow> Raft \<Rightarrow> bool" where
  "indices_ok n rf \<longleftrightarrow> length (nextIndex rf) = n \<and> length (matchIndex rf) = n \<and> 0 \<le> commitIndex rf \<and>
     (state rf = Leader \<longrightarrow> (\<forall>j < n. 1 \<le> nextIndex rf ! j \<and> nextIndex rf ! j \<le> len (Log rf)))"

definition reported :: "AppendEntriesArgs \<Rightarrow> AppendEntriesReply \<Rightarrow> bool" where
  "reported args reply \<longleftrightarrow>
     Success reply \<or> ae_Term args < aer_Term reply \<or> (\<exists>F. wf_log F \<and> conflict_report F args reply)"

fun call_ok :: "thread \<Rightarrow> bool" where
  "call_ok (AppendCall k i j b (ASent args next)) = (next = PrevLogIndex args + 1)"
| "call_ok (AppendCall k i j b (AReplied args reply next)) = (next = PrevLogIndex args + 1 \<and> reported args reply)"
| "call_ok (AppendCall k i j b (AChecked args reply next)) = (next = PrevLogIndex args + 1 \<and> reported args reply)"
| "call_ok _ = True"

definition index_inv :: "nat \<Rightarrow> cluster \<Rightarrow> bool" where
  "index_inv n s \<longleftrightarrow> (\<forall>v. indices_ok n (nodes s v)) \<and> (\<forall>p. call_ok (threads s p))"

lemma index_invD: "index_inv n s \<Longrightarrow> indices_ok n (nodes s v)" "index_inv n s \<Longrightarrow> call_ok (threads s p)"
  by (simp_all add: index_inv_def)

lemma index_inv_updates [intro]:
  "index_inv n s \<Longrightarrow> indices_ok n rf \<Longrightarrow> index_inv n (set_node i rf s)"
  "index_inv n s \<Longrightarrow> call_ok th \<Longrightarrow> index_inv n (set_thread p th s)"
  "index_inv n s \<Longrightarrow> call_ok th \<Longrightarrow> index_inv n (spawn th s)"
  "index_inv n s \<Longrightarrow> index_inv n (s\<lparr>nvotes := nv\<rparr>)"
  "index_inv n s \<Longrightarrow> index_inv n (s\<lparr>nvotes := nv, fresh_election := e\<rparr>)"
  "index_inv n s \<Longrightarrow> index_inv n (s\<lparr>tallies := tt\<rparr>)"
  "index_inv n s \<Longrightarrow> index_inv n (s\<lparr>applying := aa\<rparr>)" "index_inv n s \<Longrightarrow> index_inv n (s\<lparr>applier := ap\<rparr>)"
  "index_inv n s \<Longrightarrow> index_inv n (spawn_bcast i b s)"
  by (auto simp: index_inv_def set_node_def set_thread_def spawn_def spawn_bcast_def Let_def)

lemma build_args_next: "build_args i b rf = Inr (args, next) \<Longrightarrow> next = PrevLogIndex args + 1"
  by (auto simp: build_args_def Let_def go_simps)

lemma indices_ops:
  assumes ok: "indices_ok n rf" and l: "Log rf \<noteq> []" "length (peers rf) = n"
  shows "RequestVote t args rf = Inr (rf', r) \<Longrightarrow> indices_ok n rf'"
    and "AppendEntries t1 t2 aargs rf = Inr (rf', ar) \<Longrightarrow> indices_ok n rf'"
    and "indices_ok n (vote_denied r rf)"
    and "vote_granted k rf = Inr (rf', x) \<Longrightarrow> indices_ok n rf'"
    and "append_rejected j aargs reply nx rf = Inr (rf', y) \<Longrightarrow> indices_ok n rf'"
    and "append_accepted j index ta rf = Inr (rf', z) \<Longrightarrow> (state rf = Leader \<Longrightarrow> index < len (Log rf)) \<Longrightarrow> indices_ok n rf'"
    and "indices_ok n (fst (start_append c now rf))" and "indices_ok n (rf\<lparr>latestIssueTime := now\<rparr>)"
    and "indices_ok n (startElection tk rf)" and "apply_step bd rf = Some (Inr rf') \<Longrightarrow> indices_ok n rf'"
proof -
  show "indices_ok n rf'" if "RequestVote t args rf = Inr (rf', r)"
    using that ok by (auto simp: RequestVote_eq [OF l(1)] indices_ok_def split: if_splits)
  show "indices_ok n rf'" if "AppendEntries t1 t2 aargs rf = Inr (rf', ar)"
    using that by (cases rule: AppendEntries_cases) (use ok in \<open>auto simp: indices_ok_def\<close>)
  show "indices_ok n rf'" if "vote_granted k rf = Inr (rf', x)"
  proof -
    have "sized rf" using ok l(2) by (simp add: sized_def indices_ok_def)
    moreover have "1 \<le> len (Log rf)" using l(1) by (cases "Log rf") auto
    ultimately show ?thesis using that ok l by (auto simp: vote_granted_eq indices_ok_def split: if_splits)
  qed
  show "indices_ok n rf'" if "append_rejected j aargs reply nx rf = Inr (rf', y)"
    using that ok by (auto simp: append_rejected_def Let_def go_simps indices_ok_def nth_list_update split: if_splits)
  show "indices_ok n rf'" if "append_accepted j index ta rf = Inr (rf', z)" "state rf = Leader \<Longrightarrow> index < len (Log rf)"
    using that ok by (force simp: append_accepted_def Let_def go_simps indices_ok_def nth_list_update split: if_splits)
  show "indices_ok n rf'" if "apply_step bd rf = Some (Inr rf')"
    using that ok by (auto simp: apply_step_def apply_entry_def Let_def go_simps indices_ok_def split: if_splits)
qed (use ok in \<open>auto simp: indices_ok_def startElection_def Let_def\<close>)

lemma kill_call_ok: "call_ok th \<Longrightarrow> call_ok (kill_thread c th)"
proof (cases th)
  case (AppendCall k i j b ph)
  then show "call_ok th \<Longrightarrow> call_ok (kill_thread c th)" by (cases ph) auto
qed auto

text \<open>The entry a request refers to is in the log of its sender as long as the sender is in that term.\<close>

lemma sent_prev:
  assumes sim: "sim n s x ow C" and sb: "sent_by x i b args" and t: "CurrentTerm (nodes s i) = bc_term b"
  shows "0 \<le> PrevLogIndex args" "PrevLogIndex args < len (Log (nodes s i))"
    "PrevLogTerm args = Term (Log (nodes s i) ! nat (PrevLogIndex args))"
proof -
  note pe = sim_peer [OF sim, of i] and inv = simD(2) [OF sim]
  let ?T = "bc_term b"
  have a: "args \<in> p_areqs x" "ae_Term args = ?T" "sent_end args \<le> p_acks x i ?T" using sb by (auto simp: sent_by_def)
  have seg: "segment args (p_llog x ?T)" using pinvD(6) [OF inv a(1)] a(2) by (simp add: areq_inv_def)
  have "has (p_llog x) ?T (sent_end args) (p_log x i)"
    using a(3) pe t by (intro node_invD(12) [OF pinvD(1) [OF inv]]) (auto simp: sent_end_def kept_def)
  then have h: "sent_end args \<le> length (Log (nodes s i))" "\<And>k. k < sent_end args \<Longrightarrow> Log (nodes s i) ! k = p_llog x ?T ! k"
    using has_nth pe by (auto simp: has_def)
  show "0 \<le> PrevLogIndex args" using seg by (simp add: segment_def)
  then show "PrevLogIndex args < len (Log (nodes s i))" using h(1) by (simp add: sent_end_def)
  show "PrevLogTerm args = Term (Log (nodes s i) ! nat (PrevLogIndex args))"
    using seg h(2) [of "nat (PrevLogIndex args)"] by (simp add: segment_def sent_end_def)
qed

lemma call_index:
  assumes sim: "sim n s x ow C" and p: "threads s p = AppendCall k i j b ph" and "state (nodes s i) = Leader"
    and "CurrentTerm (nodes s i) = bc_term b"
  shows "bc_index b < len (Log (nodes s i))"
proof -
  have "k < fresh_bcast s" "ow k = (i, b)" using simD(5) [OF sim, of p] p by auto
  then show ?thesis using simD(6) [OF sim, of k] sim_peer [OF sim, of i] assms(3,4) by (auto simp: bcast_ok_def stands_def)
qed

lemma reply_reported:
  assumes "AppendEntries t1 t2 args rf = Inr (rf', reply)" and "wf_log (Log rf)"
  shows "reported args reply"
proof (cases "Success reply \<or> ae_Term args < CurrentTerm rf")
  case True
  then show ?thesis using assms(1) by (auto simp: reported_def AppendEntries_stale)
next
  case False
  then have "0 \<le> PrevLogIndex args" using assms(1) AppendEntries_negative [of rf args t1 t2] by force
  then show ?thesis using reject_report [OF assms(1)] False assms(2) by (auto simp: reported_def)
qed

section \<open>Steps keep the invariant\<close>

lemma index_deliver:
  assumes inv: "index_inv n s" and sim: "sim n s x ow C" and wf: "\<And>v. wf_log (Log (nodes s v))"
    and st: "deliver t1 t2 p s = Some (Inr s')"
  shows "index_inv n s'"
proof -
  have ln: "length (peers (nodes s v)) = n" for v using data_invD(1) [OF sim_data [OF sim], of v] by (simp add: peer_ok_def)
  have ops: "RequestVote t args (nodes s j) = Inr (rf, r) \<Longrightarrow> indices_ok n rf"
      "AppendEntries t t' aargs (nodes s j) = Inr (rf, ar) \<Longrightarrow> indices_ok n rf \<and> reported aargs ar" for t t' args aargs j rf r ar
    using indices_ops(1,2) [OF index_invD(1) [OF inv] sim_peer(6) [OF sim] ln] reply_reported [OF _ wf] by blast+
  show ?thesis
    using st inv index_invD(2) [OF inv, of p]
    by (auto simp: deliver_def go_simps split: thread.splits vphase.splits aphase.splits intro!: index_inv_updates dest!: ops)
qed

lemma index_run:
  assumes inv: "index_inv n s" and sim: "sim n s x ow C" and calm: "calm (Run now p) s"
    and st: "run_thread now p s = Some (Inr s')"
  shows "index_inv n s'"
proof -
  have ln: "length (peers (nodes s v)) = n" for v using data_invD(1) [OF sim_data [OF sim], of v] by (simp add: peer_ok_def)
  note ops = indices_ops [OF index_invD(1) [OF inv] sim_peer(6) [OF sim] ln] and c = index_invD(2) [OF inv, of p]
  show ?thesis
  proof (cases "threads s p")
    case (ElectionLoop e i T js)
    then show ?thesis using st inv by (cases js) (auto simp: run_thread_def go_simps intro!: index_inv_updates)
  next
    case (VoteCall e i j ph)
    then show ?thesis using st inv
      by (cases ph) (auto simp: run_thread_def go_simps Let_def split: if_splits intro!: index_inv_updates intro: ops(3,4))
  next
    case (StartCall i d ph)
    then show ?thesis using st inv
      by (cases ph) (auto simp: run_thread_def Let_def split_beta intro!: index_inv_updates intro: ops(7))
  next
    case (Heartbeat i ph)
    then show ?thesis using st inv
      by (cases ph) (auto simp: run_thread_def intro!: index_inv_updates intro: ops(8))
  next
    case (Bcast k i b ph)
    then show ?thesis using st inv
      by (cases "(p, k, i, b, ph, s)" rule: run_bcast.cases) (auto simp: run_thread_def intro!: index_inv_updates)
  next
    case (AppendCall k i j b ph)
    have ix: "state (nodes s i) = Leader \<Longrightarrow> bc_index b < len (Log (nodes s i))" if "ph = AChecked args reply nx" for args reply nx
      using call_index [OF sim AppendCall] calm simD(5) [OF sim, of p] AppendCall that by (simp add: calm_def sent_by_def)
    show ?thesis using st inv c AppendCall ix
      by (cases ph) (auto simp: run_thread_def go_simps Let_def split: if_splits intro!: index_inv_updates
          intro: ops(5,6) build_args_next)
  qed (use st in \<open>simp add: run_thread_def\<close>)
qed

lemma index_crash:
  assumes inv: "index_inv n s" and sim: "sim n s x ow C" and st: "crash t i ps s = Inr s'" and ps: "length ps = n"
  shows "index_inv n s'"
proof -
  have ok: "saved (nodes s i)" "sendable_log (Log (nodes s i))"
    using data_invD(1) [OF sim_data [OF sim], of i] by (auto simp: peer_ok_def)
  obtain rf where m: "Make ps (int i) (Copy (persister (nodes s i))) t = Inr rf"
      "state rf = Follower" "commitIndex rf = 0"
    using Make_recovers_state [OF ok, of ps "int i" t] by blast
  have "length (nextIndex rf) = n \<and> length (matchIndex rf) = n"
    using m(1) ps by (auto simp: Make_def readPersist_def Let_def go_simps resetElectionTimer_def split: if_splits option.splits)
  then have "indices_ok n rf" using m by (simp add: indices_ok_def)
  then show ?thesis using st m(1) inv by (auto simp: crash_def index_inv_def set_node_def intro!: kill_call_ok)
qed

lemma index_inv_step:
  assumes inv: "index_inv n s" and sim: "sim n s x ow C" and wf: "\<And>v. wf_log (Log (nodes s v))"
    and calm: "calm a s" and st: "step a s = Some (Inr s')"
  shows "index_inv n s'"
proof -
  have ln: "length (peers (nodes s v)) = n" for v using data_invD(1) [OF sim_data [OF sim], of v] by (simp add: peer_ok_def)
  note ops = indices_ops [OF index_invD(1) [OF inv] sim_peer(6) [OF sim] ln]
  show ?thesis
  proof (cases a)
    case (Run now p)
    then show ?thesis using index_run [OF inv sim] calm st by simp
  next
    case (Deliver t1 t2 p)
    then show ?thesis using index_deliver [OF inv sim wf] st by simp
  next
    case (Lose p)
    then show ?thesis using st inv by (auto simp: lose_def split: thread.splits vphase.splits aphase.splits)
  next
    case (Timeout t i)
    then show ?thesis using st inv by (auto simp: Let_def split: if_splits intro!: index_inv_updates ops(9))
  next
    case (Apply i)
    then show ?thesis using st inv by (auto simp: go_simps split: if_splits intro!: index_inv_updates intro: ops(10))
  next
    case (Crash t i ps)
    then show ?thesis using index_crash [OF inv sim] st sim_data [OF sim] by (auto simp: data_inv_def split: if_splits)
  qed (use st inv in \<open>auto split: if_splits\<close>)
qed

lemma index_inv_init: "index_inv n (cluster_init n ts)"
  by (simp add: index_inv_def cluster_init_def indices_ok_def boot_def Make_fresh)

lemma index_inv_reachable: "calm_reachable n s \<Longrightarrow> 0 < n \<Longrightarrow> index_inv n s"
proof (induction rule: calm_reachable.induct)
  case (calm_step s a s')
  obtain x ow C where x: "preach n x" "sim n s x ow C" by (rule sim_reachable [OF calm_step(1) calm_step.prems])
  have "wf_log (Log (nodes s v))" for v
    using preach_wf_log [OF x(1) calm_step.prems, of v] sim_peer(3) [OF x(2), of v] by simp
  then show ?case using index_inv_step [OF _ x(2) _ calm_step(2,3)] calm_step.IH calm_step.prems by blast
qed (rule index_inv_init)

section \<open>Nothing is out of range\<close>

lemma build_args_safe:
  assumes ok: "indices_ok n rf" and "state rf = Leader" and "j < n" and "bc_index b < len (Log rf)"
  shows "build_args (int j) b rf \<noteq> Inl e"
proof -
  have "1 \<le> nextIndex rf ! j" "nextIndex rf ! j \<le> len (Log rf)" "length (nextIndex rf) = n"
    using assms by (auto simp: indices_ok_def)
  then show ?thesis using build_args_eq [of "int j" rf "nextIndex rf ! j" b] assms(3,4) by simp
qed

lemma rejected_safe:
  assumes ok: "indices_ok n rf" and "j < n" and rep: "reported args reply" "\<not> Success reply" and wf: "wf_log (Log rf)"
    and prev: "0 \<le> PrevLogIndex args" "PrevLogIndex args < len (Log rf)"
      "PrevLogTerm args = Term (Log rf ! nat (PrevLogIndex args))"
  shows "append_rejected (int j) args reply (PrevLogIndex args + 1) rf \<noteq> Inl e"
proof (cases "ae_Term args < aer_Term reply")
  case True
  then show ?thesis by (simp add: append_rejected_def Let_def)
next
  case False
  then obtain F where F: "wf_log F" "conflict_report F args reply" using rep by (auto simp: reported_def)
  obtain m where m: "getNextIndex reply (PrevLogIndex args + 1) (Log rf) = Inr m" "1 \<le> m" "m \<le> PrevLogIndex args"
    using getNextIndex_progress [OF F(2,1) wf prev] by blast
  show ?thesis
    using m False assms(2) ok prev by (simp add: append_rejected_def Let_def go_update_def go_index_def indices_ok_def)
qed

lemma accepted_safe:
  assumes ok: "indices_ok n rf" and "j < n" and "state rf = Leader \<Longrightarrow> index < len (Log rf)"
  shows "append_accepted (int j) index ta rf \<noteq> Inl e"
  using assms by (auto simp: append_accepted_def Let_def go_update_def go_index_def indices_ok_def)

lemma append_safe:
  assumes inv: "index_inv n s" and sim: "sim n s x ow C" and wf: "wf_log (Log (nodes s i))"
    and calm: "calm (Run now p) s" and p: "threads s p = AppendCall k i j b ph"
  shows "run_append p k i j b ph s \<noteq> Some (Inl e)"
proof -
  have ok: "indices_ok n (nodes s i)" by (rule index_invD(1) [OF inv])
  have g: "j < n" "append_goro x i j b ph" using simD(5) [OF sim, of p] p by auto
  show ?thesis
  proof (cases ph)
    case ATerm
    then have l: "state (nodes s i) = Leader" "CurrentTerm (nodes s i) = bc_term b" using calm p by (auto simp: calm_def)
    then show ?thesis
      using ATerm build_args_safe [OF ok l(1) g(1) call_index [OF sim p l]]
      by (cases "build_args (int j) b (nodes s i)") auto
  next
    case (AChecked args reply nx)
    then have t: "CurrentTerm (nodes s i) = bc_term b" and sb: "sent_by x i b args"
      using calm p g by (auto simp: calm_def sent_by_def)
    have c: "nx = PrevLogIndex args + 1" "reported args reply" using index_invD(2) [OF inv, of p] p AChecked by auto
    show ?thesis
    proof (cases "Success reply")
      case True
      then show ?thesis
        using AChecked accepted_safe [OF ok g(1), of "bc_index b" "tallies s k"] call_index [OF sim p _ t]
        by (cases "append_accepted (int j) (bc_index b) (tallies s k) (nodes s i)") (auto simp: Let_def)
    next
      case False
      then show ?thesis
        using AChecked c rejected_safe [OF ok g(1) c(2) False wf sent_prev [OF sim sb t]]
        by (cases "append_rejected (int j) args reply nx (nodes s i)") auto
    qed
  qed simp_all
qed

lemma deliver_safe:
  assumes sim: "sim n s x ow C"
  shows "deliver t1 t2 p s \<noteq> Some (Inl e)"
proof -
  have v: "RequestVote t args (nodes s j) \<noteq> Inl e" for t args j
    using RequestVote_eq [OF sim_peer(6) [OF sim], of t args j] by (auto split: if_splits)
  have a: "AppendEntries t1 t2 args (nodes s j) \<noteq> Inl e" if "args \<in> p_areqs x" for args j
    using AppendEntries_total [of args t1 t2 "nodes s j"] pinvD(6) [OF simD(2) [OF sim] that]
    by (auto simp: areq_inv_def segment_def)
  show ?thesis
  proof (cases "threads s p")
    case (VoteCall e' i j ph)
    then show ?thesis using v [of t1 _ j] by (cases ph) (auto simp: deliver_def bindE_Inl_iff)
  next
    case (AppendCall k i j b ph)
    then show ?thesis using simD(5) [OF sim, of p] a [of _ j] by (cases ph) (auto simp: deliver_def sent_by_def bindE_Inl_iff)
  qed (simp_all add: deliver_def)
qed

lemma run_safe:
  assumes inv: "index_inv n s" and sim: "sim n s x ow C" and wf: "\<And>v. wf_log (Log (nodes s v))" and calm: "calm (Run now p) s"
  shows "run_thread now p s \<noteq> Some (Inl e)"
proof (cases "threads s p")
  case (ElectionLoop e' i T js)
  then show ?thesis using election_args_eq [OF sim_peer(6) [OF sim], of i] by (cases js) (simp_all add: run_thread_def)
next
  case (VoteCall e' i j ph)
  have "sized (nodes s i)"
    using index_invD(1) [OF inv, of i] data_invD(1) [OF sim_data [OF sim], of i] by (simp add: sized_def indices_ok_def peer_ok_def)
  then show ?thesis using VoteCall by (cases ph) (auto simp: run_thread_def vote_granted_eq Let_def)
next
  case (AppendCall k i j b ph)
  then show ?thesis using append_safe [OF inv sim wf calm AppendCall, of e] by (simp add: run_thread_def)
qed (simp_all add: run_thread_def)

lemma apply_safe:
  assumes sim: "sim n s x ow C" and "i < n" and "0 \<le> lastApplied (nodes s i)"
  shows "apply_step (applying s i) (nodes s i) \<noteq> Some (Inl e)"
proof -
  have "nat (lastApplied (nodes s i) + 1) < length (Log (nodes s i))" if "lastApplied (nodes s i) < applying s i"
    using decided_log [OF simD(2) [OF sim] assms(2), of "nat (lastApplied (nodes s i) + 1)"] sim_peer [OF sim, of i] that assms(3)
    by simp
  then show ?thesis using assms(3) by (auto simp: apply_step_def apply_entry_eq split: if_splits)
qed

lemma calm_plain: "calm_reachable n s \<Longrightarrow> reachable n s"
  by (induction rule: calm_reachable.induct) (auto intro: reach_init reach_step)

lemma calm_step_safe:
  assumes "calm_reachable n s" and "0 < n" and "calm a s"
  shows "step a s \<noteq> Some (Inl e)"
proof -
  obtain x ow C where x: "preach n x" and sim: "sim n s x ow C" by (rule sim_reachable [OF assms(1,2)])
  have wf: "wf_log (Log (nodes s v))" for v using preach_wf_log [OF x assms(2), of v] sim_peer(3) [OF sim, of v] by simp
  have inv: "index_inv n s" by (rule index_inv_reachable [OF assms(1,2)])
  have sz: "size_of s = n" using sim_data [OF sim] by (simp add: data_inv_def)
  show ?thesis
  proof (cases a)
    case (Run now p)
    then show ?thesis using run_safe [OF inv sim wf] assms(3) by simp
  next
    case (Deliver t1 t2 p)
    then show ?thesis using deliver_safe [OF sim] by simp
  next
    case (Lose p)
    then show ?thesis by (auto simp: lose_def split: thread.splits vphase.splits aphase.splits)
  next
    case (Apply i)
    have "0 \<le> lastApplied (nodes s i)"
      using peers_invariant [of applied_in_order n s i, OF boot_in_order in_order_section calm_plain [OF assms(1)]]
      by (simp add: applied_in_order_def)
    then show ?thesis using Apply sz apply_safe [OF sim, of i e] by (auto simp: bindE_Inl_iff)
  next
    case (Crash t i ps)
    have "saved (nodes s i)" "sendable_log (Log (nodes s i))"
      using data_invD(1) [OF sim_data [OF sim], of i] by (auto simp: peer_ok_def)
    then show ?thesis using Crash Make_recovers_state [of "nodes s i" ps "int i" t] by (auto simp: crash_def)
  qed (auto simp: Let_def)
qed

section \<open>Properties\<close>



end
