(* ===== verification/Raft_Elections.thy ===== *)
theory Raft_Elections
  imports Raft_NoPanic
begin

text \<open>
  Elections can succeed. From every state of a calm run of a cluster with at least two peers, a peer whose log is
  as up to date as any becomes leader of a new term within a calm run in which no message is lost and no peer
  crashes: its timer expires until its term is the largest, and its requests for votes are answered. In a
  cluster of one peer nobody ever becomes leader: the votes are counted only when a reply arrives.
\<close>

section \<open>Undisturbed runs\<close>

fun undisturbed :: "action \<Rightarrow> bool" where
  "undisturbed (Crash t i ps) = False"
| "undisturbed (Lose p) = False"
| "undisturbed a = True"

definition leads_to :: "cluster \<Rightarrow> cluster \<Rightarrow> bool" where
  "leads_to s s' \<longleftrightarrow> (\<exists>as. exec as s = Some s' \<and> calm_run as s \<and> (\<forall>a \<in> set as. undisturbed a))"

lemma leads_refl [simp]: "leads_to s s"
  unfolding leads_to_def by (intro exI [of _ "[]"]) simp

lemma leads_trans: "leads_to s s1 \<Longrightarrow> leads_to s1 s2 \<Longrightarrow> leads_to s s2"
proof -
  assume "leads_to s s1" "leads_to s1 s2"
  then obtain as bs where "exec as s = Some s1" "calm_run as s" "\<forall>a \<in> set as. undisturbed a"
      "exec bs s1 = Some s2" "calm_run bs s1" "\<forall>a \<in> set bs. undisturbed a"
    unfolding leads_to_def by blast
  then show "leads_to s s2"
    unfolding leads_to_def by (intro exI [of _ "as @ bs"]) (auto simp: exec_append calm_run_append)
qed

lemma leads_step: "step a s = Some (Inr s') \<Longrightarrow> calm a s \<Longrightarrow> undisturbed a \<Longrightarrow> leads_to s s'"
  unfolding leads_to_def by (intro exI [of _ "[a]"]) simp

lemma leads_reachable: "leads_to s s' \<Longrightarrow> calm_reachable n s \<Longrightarrow> calm_reachable n s'"
  unfolding leads_to_def using exec_calm by blast

lemma calm_facts:
  assumes "calm_reachable n s" and "0 < n"
  shows "size_of s = n" "Log (nodes s v) \<noteq> []" "me (nodes s v) = int v" "length (peers (nodes s v)) = n"
    "sized (nodes s v)" "indices_ok n (nodes s v)" "wf_log (Log (nodes s v))"
proof -
  obtain x ow C where x: "preach n x" and sim: "sim n s x ow C" by (rule sim_reachable [OF assms])
  show "size_of s = n" using sim_data [OF sim] by (simp add: data_inv_def)
  show "Log (nodes s v) \<noteq> []" "me (nodes s v) = int v" using sim_peer [OF sim] by simp_all
  show l: "length (peers (nodes s v)) = n" using data_invD(1) [OF sim_data [OF sim], of v] by (simp add: peer_ok_def)
  show i: "indices_ok n (nodes s v)" by (rule index_invD(1) [OF index_inv_reachable [OF assms]])
  show "sized (nodes s v)" using i l by (simp add: sized_def indices_ok_def)
  show "wf_log (Log (nodes s v))" using preach_wf_log [OF x assms(2), of v] sim_peer(3) [OF sim, of v] by simp
qed

section \<open>Asking one peer\<close>

text \<open>The goroutine \<open>p\<close> of election \<open>e\<close> of peer \<open>i\<close> in term \<open>T\<close> has still to ask the peers \<open>js\<close>.\<close>

definition campaign :: "nat \<Rightarrow> nat \<Rightarrow> int \<Rightarrow> nat \<Rightarrow> nat list \<Rightarrow> cluster \<Rightarrow> bool" where
  "campaign e i T p js s \<longleftrightarrow> threads s p = ElectionLoop e i T js \<and> p < fresh s \<and> CurrentTerm (nodes s i) = T \<and>
     state (nodes s i) = (if nvotes s e \<ge> int (size_of s) div 2 + 1 then Leader else Candidate)"

definition as_good :: "Raft \<Rightarrow> Raft \<Rightarrow> bool" where
  "as_good rf rf' \<longleftrightarrow> Term (last (Log rf')) < Term (last (Log rf)) \<or>
     Term (last (Log rf')) = Term (last (Log rf)) \<and> length (Log rf') \<le> length (Log rf)"

lemmas cluster_defs = set_node_def set_thread_def spawn_def

lemma ask_one:
  assumes reach: "calm_reachable n s" and camp: "campaign e i T p (j # js) s" and ij: "i < n" "j < n" "j \<noteq> i"
    and j: "CurrentTerm (nodes s j) < T" "as_good (nodes s i) (nodes s j)"
  shows "\<exists>s'. leads_to s s' \<and> campaign e i T p js s' \<and> nvotes s' e = nvotes s e + 1 \<and>
    CurrentTerm (nodes s' j) = T \<and> state (nodes s' j) = Follower \<and> (\<forall>v. Log (nodes s' v) = Log (nodes s v)) \<and>
    (\<forall>v. v \<noteq> i \<longrightarrow> v \<noteq> j \<longrightarrow> nodes s' v = nodes s v)"
proof -
  have n: "0 < n" using ij by simp
  note f = calm_facts [OF reach n]
  let ?q = "fresh s" and ?rf = "nodes s i"
  have c: "threads s p = ElectionLoop e i T (j # js)" "p < ?q" "CurrentTerm ?rf = T"
      "state ?rf = (if nvotes s e \<ge> int n div 2 + 1 then Leader else Candidate)"
    using camp f(1) by (simp_all add: campaign_def)
  define args where "args = \<lparr>rv_Term = T, CandidateId = int i, LastLogIndex = len (Log ?rf) - 1,
    LastLogTerm = Term (last (Log ?rf))\<rparr>"
  define reply where "reply = \<lparr>rvr_Term = T, VoteGranted = True\<rparr>"
  define rfj where "rfj = rv_grant t0 args (rv_term_updated args (nodes s j))"
  have vote: "RequestVote t0 args (nodes s j) = Inr (rfj, reply)"
    using j f(2) by (auto simp: RequestVote_eq may_vote_def up_to_date_def as_good_def args_def reply_def rfj_def)
  have rfj: "CurrentTerm rfj = T" "state rfj = Follower" "Log rfj = Log (nodes s j)"
    using j(1) by (simp_all add: rfj_def args_def)
  define s1 where "s1 = set_thread p (ElectionLoop e i T js) (spawn (VoteCall e i j (VSent args)) s)"
  define s2 where "s2 = set_thread ?q (VoteCall e i j (VReplied args reply)) (set_node j rfj s1)"
  define s3 where "s3 = set_thread ?q (VoteCall e i j (VChecked args reply)) s2"
  have 1: "leads_to s s1"
    by (rule leads_step [of "Run 0 p"])
       (use c f(2,3) in \<open>simp_all add: run_thread_def election_args_eq s1_def args_def calm_def\<close>)
  have 2: "leads_to s1 s2"
    by (rule leads_step [of "Deliver t0 t0 ?q"])
       (use c(2) vote ij in \<open>simp_all add: deliver_def s1_def s2_def cluster_defs calm_def\<close>)
  have 3: "leads_to s2 s3"
    by (rule leads_step [of "Run 0 ?q"])
       (use c(2,3) ij in \<open>simp_all add: run_thread_def s1_def s2_def s3_def cluster_defs calm_def vote_is_stale_def args_def\<close>)
  have s3: "nodes s3 i = ?rf" "threads s3 ?q = VoteCall e i j (VChecked args reply)" "nvotes s3 = nvotes s"
      "threads s3 p = ElectionLoop e i T js" "fresh s3 = ?q + 1" "size_of s3 = n" "nodes s3 j = rfj"
      "\<And>v. v \<noteq> i \<Longrightarrow> v \<noteq> j \<Longrightarrow> nodes s3 v = nodes s v"
    using c(2) ij f(1) by (simp_all add: s1_def s2_def s3_def cluster_defs)
  let ?win = "state ?rf = Candidate \<and> nvotes s e + 1 \<ge> int n div 2 + 1"
  let ?rf' = "if ?win then elected ?rf else ?rf"
  have g: "vote_granted (nvotes s e) ?rf = Inr (?rf', nvotes s e + 1, ?win)"
    using vote_granted_eq [OF f(5), of "nvotes s e" i] f(4) by (simp add: winThreshold_def)
  define s4 where "s4 = (let s' = set_thread ?q (VoteCall e i j (VDone True))
    (set_node i ?rf' (s3\<lparr>nvotes := (nvotes s3)(e := nvotes s e + 1)\<rparr>)) in if ?win then spawn (Heartbeat i HEnter) s' else s')"
  have "run_thread 0 ?q s3 = Some (Inr s4)"
    using s3 g by (simp add: run_thread_def s4_def reply_def Let_def del: One_nat_def)
  then have 4: "leads_to s3 s4"
    by (intro leads_step [of "Run 0 ?q"]) (use s3 c(3) in \<open>simp_all add: calm_def args_def\<close>)
  have s4: "nodes s4 = (nodes s3)(i := ?rf')" "threads s4 p = ElectionLoop e i T js" "p < fresh s4" "size_of s4 = n"
      "nvotes s4 e = nvotes s e + 1"
    using s3 c(2) by (auto simp: s4_def cluster_defs Let_def)
  have "campaign e i T p js s4" using s4 c(3,4) by (auto simp: campaign_def)
  moreover have "leads_to s s4" using 1 2 3 4 leads_trans by blast
  moreover have "Log (nodes s4 v) = Log (nodes s v)" for v
    using s4(1) s3 rfj(3) by (cases "v = i"; cases "v = j") auto
  ultimately show ?thesis
    using s4 s3 rfj ij by (intro exI [of _ s4]) auto
qed

section \<open>An election\<close>

lemma ask_all:
  assumes "calm_reachable n s" and "campaign e i T p js s" and "i < n" and "distinct js"
    and "\<forall>j \<in> set js. j < n \<and> j \<noteq> i \<and> CurrentTerm (nodes s j) < T \<and> as_good (nodes s i) (nodes s j)"
  shows "\<exists>s'. leads_to s s' \<and> campaign e i T p [] s' \<and> nvotes s' e = nvotes s e + len js \<and>
    (\<forall>v. Log (nodes s' v) = Log (nodes s v)) \<and>
    (\<forall>v \<in> set js. CurrentTerm (nodes s' v) = T \<and> state (nodes s' v) = Follower) \<and>
    (\<forall>v. v \<noteq> i \<longrightarrow> v \<notin> set js \<longrightarrow> nodes s' v = nodes s v)"
  using assms
proof (induction js arbitrary: s)
  case Nil
  then show ?case by (intro exI [of _ s]) simp
next
  case (Cons j js)
  then obtain s1 where 1: "leads_to s s1" "campaign e i T p js s1" "nvotes s1 e = nvotes s e + 1"
      "CurrentTerm (nodes s1 j) = T" "state (nodes s1 j) = Follower" "\<forall>v. Log (nodes s1 v) = Log (nodes s v)"
      "\<forall>v. v \<noteq> i \<longrightarrow> v \<noteq> j \<longrightarrow> nodes s1 v = nodes s v"
    using ask_one [of n s e i T p j js] by auto
  have reach: "calm_reachable n s1" by (rule leads_reachable [OF 1(1) Cons.prems(1)])
  have rest: "\<forall>v \<in> set js. v < n \<and> v \<noteq> i \<and> CurrentTerm (nodes s1 v) < T \<and> as_good (nodes s1 i) (nodes s1 v)"
    using Cons.prems(4,5) 1(6,7) by (auto simp: as_good_def)
  obtain s2 where 2: "leads_to s1 s2" "campaign e i T p [] s2" "nvotes s2 e = nvotes s1 e + len js"
      "\<forall>v. Log (nodes s2 v) = Log (nodes s1 v)"
      "\<forall>v \<in> set js. CurrentTerm (nodes s2 v) = T \<and> state (nodes s2 v) = Follower"
      "\<forall>v. v \<noteq> i \<longrightarrow> v \<notin> set js \<longrightarrow> nodes s2 v = nodes s1 v"
    using Cons.IH [OF reach 1(2) Cons.prems(3) _ rest] Cons.prems(4) by auto
  have "j \<notin> set js" "j \<noteq> i" using Cons.prems(4,5) by auto
  then show ?case
    using 1 2 leads_trans [OF 1(1) 2(1)] by (intro exI [of _ s2]) auto
qed

text \<open>The timer of a peer expires, once and until the peer has reached a term.\<close>

lemma timeout_once:
  assumes "calm_reachable n s" and "i < n" and "2 \<le> n"
  shows "\<exists>s' e p. leads_to s s' \<and> campaign e i (CurrentTerm (nodes s i) + 1) p (others n i) s' \<and>
    nvotes s' e = 1 \<and> (\<forall>v. Log (nodes s' v) = Log (nodes s v)) \<and> (\<forall>v. v \<noteq> i \<longrightarrow> nodes s' v = nodes s v)"
proof -
  have sz: "size_of s = n" using calm_facts(1) [OF assms(1)] assms(2) by simp
  let ?s = "spawn (ElectionLoop (fresh_election s) i (CurrentTerm (nodes s i) + 1) (others n i))
    (set_node i (startElection t0 (nodes s i)) (s\<lparr>nvotes := (nvotes s)(fresh_election s := 1), fresh_election := fresh_election s + 1\<rparr>))"
  have "leads_to s ?s"
    by (rule leads_step [of "Timeout t0 i"]) (use assms(2) sz in \<open>simp_all add: Let_def calm_def set_node_def\<close>)
  moreover have "\<not> 1 \<ge> int n div 2 + 1" using assms(3) by linarith
  ultimately show ?thesis
    using sz by (intro exI [of _ ?s] exI [of _ "fresh_election s"] exI [of _ "fresh s"])
      (simp add: campaign_def cluster_defs)
qed

lemma reach_term:
  assumes "calm_reachable n s" and "i < n" and "2 \<le> n"
  shows "\<exists>s' e p. leads_to s s' \<and> campaign e i (CurrentTerm (nodes s i) + int (Suc k)) p (others n i) s' \<and>
    nvotes s' e = 1 \<and> (\<forall>v. Log (nodes s' v) = Log (nodes s v)) \<and> (\<forall>v. v \<noteq> i \<longrightarrow> nodes s' v = nodes s v)"
  using assms
proof (induction k arbitrary: s)
  case 0
  then show ?case using timeout_once [OF 0] by simp
next
  case (Suc k)
  obtain s1 e p where 1: "leads_to s s1" "campaign e i (CurrentTerm (nodes s i) + 1) p (others n i) s1"
      "\<forall>v. Log (nodes s1 v) = Log (nodes s v)" "\<forall>v. v \<noteq> i \<longrightarrow> nodes s1 v = nodes s v"
    using timeout_once [OF Suc.prems] by blast
  have T: "CurrentTerm (nodes s1 i) + int (Suc k) = CurrentTerm (nodes s i) + int (Suc (Suc k))"
    using 1(2) by (simp add: campaign_def)
  obtain s2 e2 p2 where 2: "leads_to s1 s2" "campaign e2 i (CurrentTerm (nodes s1 i) + int (Suc k)) p2 (others n i) s2"
      "nvotes s2 e2 = 1" "\<forall>v. Log (nodes s2 v) = Log (nodes s1 v)" "\<forall>v. v \<noteq> i \<longrightarrow> nodes s2 v = nodes s1 v"
    using Suc.IH [OF leads_reachable [OF 1(1) Suc.prems(1)] Suc.prems(2,3)] by blast
  show ?case
    using leads_trans [OF 1(1) 2(1)] 2(2-5) 1(3,4) unfolding T by (intro exI [of _ s2] exI [of _ e2] exI [of _ p2]) simp
qed

text \<open>A peer whose log is as good as every other log.\<close>

lemma finite_greatest:
  fixes f :: "'a \<Rightarrow> 'b :: linorder"
  assumes "finite A" and "A \<noteq> {}"
  shows "\<exists>x \<in> A. \<forall>y \<in> A. f y \<le> f x"
proof -
  have "Max (f ` A) \<in> f ` A" using assms by (intro Max_in) simp_all
  then obtain x where "x \<in> A" "Max (f ` A) = f x" by blast
  then show ?thesis using assms(1) by (metis Max_ge finite_imageI imageI)
qed

lemma best_peer:
  assumes "0 < n"
  shows "\<exists>i < n. \<forall>j < n. as_good (nodes s i) (nodes s j)"
proof -
  let ?T = "\<lambda>v. Term (last (Log (nodes s v)))" and ?L = "\<lambda>v. length (Log (nodes s v))"
  obtain a where a: "a < n" "\<forall>v < n. ?T v \<le> ?T a" using finite_greatest [of "{..<n}" ?T] assms by auto
  obtain i where i: "i < n" "?T i = ?T a" "\<forall>v. v < n \<and> ?T v = ?T a \<longrightarrow> ?L v \<le> ?L i"
    using finite_greatest [of "{v. v < n \<and> ?T v = ?T a}" ?L] a(1) by auto
  have "as_good (nodes s i) (nodes s j)" if "j < n" for j
    using a(2) i(2,3) that by (force simp: as_good_def)
  then show ?thesis using i(1) by blast
qed

definition leads_all :: "nat \<Rightarrow> nat \<Rightarrow> int \<Rightarrow> cluster \<Rightarrow> bool" where
  "leads_all n i T s \<longleftrightarrow> i < n \<and> state (nodes s i) = Leader \<and> CurrentTerm (nodes s i) = T \<and>
     (\<forall>v < n. v \<noteq> i \<longrightarrow> CurrentTerm (nodes s v) = T \<and> state (nodes s v) = Follower)"

lemma others_facts: "set (others n i) = {v. v < n \<and> v \<noteq> i}" "distinct (others n i)" "i < n \<Longrightarrow> length (others n i) = n - 1"
proof -
  show s: "set (others n i) = {v. v < n \<and> v \<noteq> i}" and d: "distinct (others n i)" by (auto simp: others_def)
  have "set (others n i) = {..<n} - {i}" using s by auto
  then show "length (others n i) = n - 1" if "i < n" using distinct_card [OF d] that by simp
qed

lemma election_succeeds:
  assumes reach: "calm_reachable n s" and n: "2 \<le> n" and i: "i < n" and best: "\<forall>j < n. as_good (nodes s i) (nodes s j)"
    and T: "\<forall>v < n. CurrentTerm (nodes s v) < T"
  shows "\<exists>s'. leads_to s s' \<and> leads_all n i T s' \<and> (\<forall>v. Log (nodes s' v) = Log (nodes s v))"
proof -
  define k where "k = nat (T - CurrentTerm (nodes s i) - 1)"
  have k: "CurrentTerm (nodes s i) + int (Suc k) = T" using T i by (simp add: k_def)
  obtain s1 e p where 1: "leads_to s s1" "campaign e i T p (others n i) s1" "nvotes s1 e = 1"
      "\<forall>v. Log (nodes s1 v) = Log (nodes s v)" "\<forall>v. v \<noteq> i \<longrightarrow> nodes s1 v = nodes s v"
    using reach_term [OF reach i n, of k] unfolding k by blast
  have r1: "calm_reachable n s1" by (rule leads_reachable [OF 1(1) reach])
  note o = others_facts(1,2) [of n i] others_facts(3) [OF i]
  obtain s2 where 2: "leads_to s1 s2" "campaign e i T p [] s2" "nvotes s2 e = nvotes s1 e + len (others n i)"
      "\<forall>v. Log (nodes s2 v) = Log (nodes s1 v)"
      "\<forall>v \<in> set (others n i). CurrentTerm (nodes s2 v) = T \<and> state (nodes s2 v) = Follower"
    using ask_all [OF r1 1(2) i o(2)] 1(4,5) T best by (auto simp: o(1) as_good_def)
  have "nvotes s2 e = int n" using 2(3) 1(3) o(3) n by simp
  moreover have "size_of s2 = n" using calm_facts(1) [OF leads_reachable [OF 2(1) r1]] n by simp
  ultimately have "state (nodes s2 i) = Leader" using 2(2) n by (auto simp: campaign_def)
  then have "leads_all n i T s2" using 2(2,5) i by (simp add: leads_all_def campaign_def o(1))
  then show ?thesis using leads_trans [OF 1(1) 2(1)] 2(4) 1(4) by auto
qed

lemma leader_possible:
  assumes "calm_reachable n s" and "2 \<le> n"
  shows "\<exists>s' i T. leads_to s s' \<and> leads_all n i T s' \<and> (\<forall>v < n. CurrentTerm (nodes s v) < T) \<and>
    (\<forall>v. Log (nodes s' v) = Log (nodes s v))"
proof -
  have n: "0 < n" using assms(2) by simp
  obtain i where i: "i < n" "\<forall>j < n. as_good (nodes s i) (nodes s j)" using best_peer [OF n, of s] by blast
  obtain a where a: "\<forall>v < n. CurrentTerm (nodes s v) \<le> CurrentTerm (nodes s a)"
    using finite_greatest [of "{..<n}" "\<lambda>v. CurrentTerm (nodes s v)"] n by auto
  define T where "T = CurrentTerm (nodes s a) + 1"
  have T: "\<forall>v < n. CurrentTerm (nodes s v) < T" using a by (auto simp: T_def)
  show ?thesis using election_succeeds [OF assms i T] T by blast
qed

section \<open>One peer\<close>

fun no_vote :: "thread \<Rightarrow> bool" where
  "no_vote (VoteCall e i j ph) = False"
| "no_vote (ElectionLoop e i T js) = (js = [])"
| "no_vote th = True"

definition solo :: "cluster \<Rightarrow> bool" where
  "solo s \<longleftrightarrow> size_of s = 1 \<and> (\<forall>p. no_vote (threads s p)) \<and> (\<forall>v. state (nodes s v) \<noteq> Leader)"

lemma not_leader_ops:
  assumes "state rf \<noteq> Leader"
  shows "AppendEntries t1 t2 aargs rf = Inr (rf', ar) \<Longrightarrow> state rf' \<noteq> Leader"
    and "append_accepted i index ta rf = Inr (rf', y) \<Longrightarrow> state rf' \<noteq> Leader"
    and "append_rejected i aargs ar next rf = Inr (rf', z) \<Longrightarrow> state rf' \<noteq> Leader"
    and "state (fst (start_append c now rf)) \<noteq> Leader"
    and "apply_step bd rf = Some (Inr rf') \<Longrightarrow> state rf' \<noteq> Leader"
    and "Make ps v per t = Inr rf' \<Longrightarrow> state rf' \<noteq> Leader"
  using assms
  by (auto simp: AppendEntries_def ae_accept_def ae_newer_term_def advance_commit_def append_accepted_def
      append_rejected_def start_append_def apply_step_def apply_entry_def Make_def readPersist_def raft_defs
      go_simps Let_def split: if_splits option.splits)

lemma solo_updates [intro]:
  "solo s \<Longrightarrow> state rf \<noteq> Leader \<Longrightarrow> solo (set_node i rf s)"
  "solo s \<Longrightarrow> no_vote th \<Longrightarrow> solo (set_thread p th s)"
  "solo s \<Longrightarrow> no_vote th \<Longrightarrow> solo (spawn th s)"
  "solo s \<Longrightarrow> solo (s\<lparr>nvotes := nv, fresh_election := e\<rparr>)"
  "solo s \<Longrightarrow> solo (s\<lparr>tallies := tt\<rparr>)" "solo s \<Longrightarrow> solo (s\<lparr>applying := aa\<rparr>)" "solo s \<Longrightarrow> solo (s\<lparr>applier := ap\<rparr>)"
  "solo s \<Longrightarrow> solo (spawn_bcast i b s)"
  by (auto simp: solo_def cluster_defs spawn_bcast_def Let_def)

lemma soloD: "solo s \<Longrightarrow> size_of s = 1" "solo s \<Longrightarrow> no_vote (threads s p)" "solo s \<Longrightarrow> state (nodes s v) \<noteq> Leader"
  by (simp_all add: solo_def)
lemma solo_run:
  assumes "solo s" and "run_thread now p s = Some (Inr s')"
  shows "solo s'"
proof (cases "threads s p")
  case (ElectionLoop e i T js)
  then show ?thesis using assms soloD(2) [OF assms(1), of p] by (auto simp: run_thread_def)
next
  case (VoteCall e i j ph)
  then show ?thesis using soloD(2) [OF assms(1), of p] by simp
next
  case (StartCall i c ph)
  note no = not_leader_ops(4) [OF soloD(3) [OF assms(1)], of c now i]
  show ?thesis
    using assms StartCall no
    by (cases ph) (auto simp: run_thread_def Let_def split_beta intro!: solo_updates split: if_splits)
next
  case (Heartbeat i ph)
  then show ?thesis using assms soloD(3) [OF assms(1), of i] by (cases ph) (auto simp: run_thread_def intro!: solo_updates)
next
  case (Bcast k i b ph)
  show ?thesis
  proof (cases ph)
    case (BLoop js)
    then show ?thesis using assms Bcast by (cases js) (auto simp: run_thread_def intro!: solo_updates)
  qed (use assms Bcast in \<open>auto simp: run_thread_def\<close>)
next
  case (AppendCall k i j b ph)
  note no = not_leader_ops(2,3) [OF soloD(3) [OF assms(1), of i]]
  show ?thesis
    using assms AppendCall
    by (cases ph) (auto simp: run_thread_def bindE_Inr_iff Let_def intro!: solo_updates dest: no split: if_splits)
qed (use assms in \<open>simp add: run_thread_def\<close>)

lemma kill_no_vote: "no_vote th \<Longrightarrow> no_vote (kill_thread i th)"
  by (cases th) auto

lemma solo_step:
  assumes "solo s" and "step a s = Some (Inr s')"
  shows "solo s'"
proof (cases a)
  case (Run now p)
  then show ?thesis using assms solo_run by simp
next
  case (Deliver t1 t2 p)
  note no = not_leader_ops(1) [OF soloD(3) [OF assms(1)]]
  show ?thesis
    using assms(2) Deliver soloD(2) [OF assms(1), of p]
    by (auto simp: deliver_def bindE_Inr_iff split: thread.splits vphase.splits aphase.splits
        intro!: solo_updates assms(1) dest: no)
next
  case (Lose p)
  then show ?thesis
    using assms soloD(2) [OF assms(1), of p]
    by (auto simp: lose_def split: thread.splits vphase.splits aphase.splits)
next
  case (Timeout t i)
  have "others 1 0 = []" by (simp add: others_def)
  then show ?thesis
    using assms Timeout soloD(1) [OF assms(1)]
    by (auto simp: Let_def solo_def cluster_defs split: if_splits)
next
  case (Apply i)
  then show ?thesis
    using assms not_leader_ops(5) [OF soloD(3) [OF assms(1)]]
    by (auto simp: bindE_Inr_iff split: if_splits intro!: solo_updates)
next
  case (Crash t i ps)
  then obtain rf where rf: "Make ps (int i) (Copy (persister (nodes s i))) t = Inr rf"
      "s' = set_node i rf (s\<lparr>threads := (\<lambda>p. kill_thread i (threads s p)), applying := (applying s)(i := 0),
         applier := (applier s)(i := Awake)\<rparr>)"
    using assms(2) by (auto simp: crash_def bindE_Inr_iff split: if_splits)
  then show ?thesis
    using assms(1) not_leader_ops(6) [OF _ rf(1), of "boot 1 (\<lambda>_. t) 0"] kill_no_vote
    by (auto simp: solo_def set_node_def boot_def Make_fresh)
qed (use assms in \<open>auto split: if_splits\<close>)

lemma solo_reachable: "reachable 1 s \<Longrightarrow> solo s"
proof (induction rule: reachable.induct)
  case (reach_init ts)
  then show ?case by (simp add: solo_def cluster_init_def boot_def Make_fresh)
qed (use solo_step in blast)

section \<open>Properties\<close>

text \<open>
  Elections can succeed. From every state of a calm run of a cluster with at least two peers there is a calm run,
  without lost messages and crashes, after which one peer is leader and all others are its followers in the same
  term, which is larger than every term before; the logs are as they were.
\<close>

theorem election_possible:
  assumes "calm_reachable n s" and "2 \<le> n"
  shows "\<exists>as s' i T. exec as s = Some s' \<and> calm_run as s \<and> (\<forall>a \<in> set as. undisturbed a) \<and> i < n \<and>
    state (nodes s' i) = Leader \<and> CurrentTerm (nodes s' i) = T \<and>
    (\<forall>v < n. v \<noteq> i \<longrightarrow> state (nodes s' v) = Follower \<and> CurrentTerm (nodes s' v) = T) \<and>
    (\<forall>v < n. CurrentTerm (nodes s v) < T \<and> Log (nodes s' v) = Log (nodes s v))"
proof -
  obtain s' i T where "leads_to s s'" "leads_all n i T s'" "\<forall>v < n. CurrentTerm (nodes s v) < T" "\<forall>v. Log (nodes s' v) = Log (nodes s v)"
    using leader_possible [OF assms] by blast
  then show ?thesis unfolding leads_to_def leads_all_def by blast
qed

theorem election_possible_witness:
  "\<exists>as s' i. exec as elected3 = Some s' \<and> i < 3 \<and> state (nodes s' i) = Leader \<and> CurrentTerm (nodes s' i) > 1"
proof -
  have "CurrentTerm (nodes elected3 0) = 1" by code_simp
  moreover obtain as s' i T where "exec as elected3 = Some s'" "i < 3" "state (nodes s' i) = Leader" "CurrentTerm (nodes s' i) = T"
      "\<forall>v < 3. CurrentTerm (nodes elected3 v) < T \<and> Log (nodes s' v) = Log (nodes elected3 v)"
    using election_possible [OF elected3_reachable] by auto
  ultimately show ?thesis by (metis zero_less_numeral)
qed

text \<open>
  C25. A cluster of one peer never has a leader, whatever happens: the peer votes for itself and has the majority
  then, but the code looks at the number of votes only when it handles the reply of another peer.
\<close>

theorem single_peer_never_leads:
  assumes "reachable 1 s"
  shows "state (nodes s v) \<noteq> Leader"
  using soloD(3) solo_reachable [OF assms] by blast

theorem single_peer_never_leads_witness:
  "state (nodes (the (exec [Timeout t0 0, Run 0 0] (cluster_init 1 (\<lambda>_. t0)))) 0) = Candidate \<and>
   state (nodes (the (exec [Timeout t0 0, Run 0 0] (cluster_init 1 (\<lambda>_. t0)))) 0) \<noteq> Leader"
proof -
  let ?s = "the (exec [Timeout t0 0, Run 0 0] (cluster_init 1 (\<lambda>_. t0)))"
  have "exec [Timeout t0 0, Run 0 0] (cluster_init 1 (\<lambda>_. t0)) \<noteq> None" by code_simp
  then have "exec [Timeout t0 0, Run 0 0] (cluster_init 1 (\<lambda>_. t0)) = Some ?s" by simp
  from exec_reachable [OF this reach_init] have "reachable 1 ?s" .
  moreover have "state (nodes ?s 0) = Candidate" by code_simp
  ultimately show ?thesis using single_peer_never_leads by blast
qed
end
