(* ===== verification/Raft_Progress.thy ===== *)
theory Raft_Progress
  imports Raft_NoPanic
begin

text \<open>
  Progress of \<^verbatim>\<open>applyEntries\<close>: in calm runs the goroutine, as long as it is running or has been woken, can go on
  until everything the peer knows to be committed has been delivered, and delivers exactly the entries of the log
  in between. It can also miss the broadcast that should wake it.
\<close>

definition delivered :: "nat \<Rightarrow> Raft \<Rightarrow> Raft" where
  "delivered k rf = rf\<lparr>lastApplied := lastApplied rf + int k,
     applyCh := applyCh rf @ map (msg_at (Log rf)) [lastApplied rf + 1..lastApplied rf + int k]\<rparr>"

lemma delivered_sel [simp]:
  "lastApplied (delivered k rf) = lastApplied rf + int k" "Log (delivered k rf) = Log rf"
  "commitIndex (delivered k rf) = commitIndex rf" "CurrentTerm (delivered k rf) = CurrentTerm rf"
  "applyCh (delivered k rf) = applyCh rf @ map (msg_at (Log rf)) [lastApplied rf + 1..lastApplied rf + int k]"
  by (simp_all add: delivered_def)

lemma delivered_zero [simp]: "delivered 0 rf = rf"
  by (simp add: delivered_def)

lemma delivered_one:
  "0 \<le> lastApplied rf \<Longrightarrow> lastApplied rf + 1 < len (Log rf) \<Longrightarrow> apply_entry (lastApplied rf + 1) rf = Inr (delivered 1 rf)"
  by (simp add: apply_entry_eq delivered_def)

lemma delivered_add: "delivered k (delivered 1 rf) = delivered (Suc k) rf"
proof -
  have "[lastApplied rf + 1..lastApplied rf + int (Suc k)] =
      (lastApplied rf + 1) # [lastApplied rf + 1 + 1..lastApplied rf + int (Suc k)]" by (simp add: upto_rec1)
  then show ?thesis by (simp add: delivered_def algebra_simps)
qed

lemma delivered_delivered: "delivered j (delivered k rf) = delivered (k + j) rf"
proof -
  have "[lastApplied rf + 1..lastApplied rf + int (k + j)] =
      [lastApplied rf + 1..lastApplied rf + int k] @ [lastApplied rf + int k + 1..lastApplied rf + int (k + j)]"
    using upto_split2 [of "lastApplied rf + 1" "lastApplied rf + int k" "lastApplied rf + int (k + j)"] by (cases "k = 0") simp_all
  then show ?thesis by (simp add: delivered_def algebra_simps)
qed

lemma set_node_set_node [simp]: "set_node i rf (set_node i rf' s) = set_node i rf s"
  by (simp add: set_node_def)

lemma apply_many:
  assumes "i < size_of s" and "applier s i = Awake" and "0 \<le> lastApplied (nodes s i)" and "lastApplied (nodes s i) + int k \<le> applying s i"
    and "applying s i < len (Log (nodes s i))"
  shows "exec (replicate k (Apply i)) s = Some (set_node i (delivered k (nodes s i)) s)"
  using assms
proof (induction k arbitrary: s)
  case 0
  then show ?case by (simp add: set_node_def)
next
  case (Suc k)
  let ?s = "set_node i (delivered 1 (nodes s i)) s"
  have sz: "size_of ?s = size_of s" "applier ?s = applier s" by (simp_all add: set_node_def)
  have "step (Apply i) s = Some (Inr ?s)" using Suc.prems delivered_one [of "nodes s i"] by (simp add: apply_step_def)
  moreover have "exec (replicate k (Apply i)) ?s = Some (set_node i (delivered k (nodes ?s i)) ?s)"
    by (rule Suc.IH) (use Suc.prems sz in simp_all)
  ultimately show ?case by (simp add: delivered_add [simplified] del: step.simps)
qed

text \<open>The goroutine runs, or a broadcast has happened since it began to wait.\<close>

definition can_run :: "cluster \<Rightarrow> nat \<Rightarrow> bool" where
  "can_run s i \<longleftrightarrow> (case applier s i of Awake \<Rightarrow> True | Drowsy \<Rightarrow> False | Asleep k \<Rightarrow> k < applyCond (nodes s i))"

lemma wake_up:
  assumes "can_run s i" and "i < size_of s"
  shows "\<exists>as s'. set as \<subseteq> {Wake i} \<and> exec as s = Some s' \<and> applier s' i = Awake \<and> nodes s' = nodes s \<and> applying s' = applying s \<and>
    size_of s' = size_of s"
proof (cases "applier s i")
  case Awake
  then show ?thesis by (intro exI [of _ "[]"]) simp
next
  case (Asleep k)
  then show ?thesis using assms by (intro exI [of _ "[Wake i]"]) (simp add: can_run_def)
qed (use assms in \<open>simp add: can_run_def\<close>)

lemma finish_loop:
  assumes "i < size_of s" and "applier s i = Awake" and "0 \<le> lastApplied (nodes s i)" and "b \<le> applying s i"
    and "0 \<le> applying s i \<Longrightarrow> applying s i < len (Log (nodes s i))"
  defines "k \<equiv> nat (applying s i - lastApplied (nodes s i))"
  shows "exec (replicate k (Apply i)) s = Some (set_node i (delivered k (nodes s i)) s)" "b \<le> lastApplied (nodes s i) + int k"
proof -
  show "exec (replicate k (Apply i)) s = Some (set_node i (delivered k (nodes s i)) s)"
  proof (cases "k = 0")
    case False
    then show ?thesis using assms by (intro apply_many) (auto simp: k_def)
  qed (simp add: set_node_def)
  show "b \<le> lastApplied (nodes s i) + int k" using assms(4) by (simp add: k_def)
qed

lemma catch_up:
  assumes i: "i < size_of s" "applier s i = Awake" "0 \<le> lastApplied (nodes s i)"
    and b: "0 \<le> applying s i \<Longrightarrow> applying s i < len (Log (nodes s i))"
      "0 \<le> commitIndex (nodes s i) \<Longrightarrow> commitIndex (nodes s i) < len (Log (nodes s i))"
  shows "\<exists>as k s'. set as \<subseteq> {Pass i, Apply i} \<and> exec as s = Some s' \<and> nodes s' i = delivered k (nodes s i) \<and>
    commitIndex (nodes s i) \<le> lastApplied (nodes s i) + int k"
proof -
  let ?rf = "nodes s i" and ?c = "commitIndex (nodes s i)"
  define k where "k = nat (applying s i - lastApplied ?rf)"
  let ?s1 = "set_node i (delivered k ?rf) s"
  have 1: "exec (replicate k (Apply i)) s = Some ?s1" using finish_loop(1) [OF i order_refl b(1)] by (simp add: k_def)
  show ?thesis
  proof (cases "?c \<le> lastApplied ?rf + int k")
    case True
    then show ?thesis using 1 by (intro exI [of _ "replicate k (Apply i)"] exI [of _ k] exI [of _ ?s1]) auto
  next
    case False
    let ?s2 = "?s1\<lparr>applying := (applying ?s1)(i := ?c)\<rparr>"
    have sel: "size_of ?s2 = size_of s" "applier ?s2 = applier s" "nodes ?s2 i = delivered k ?rf" "applying ?s2 i = ?c"
      by (simp_all add: set_node_def)
    define j where "j = nat (applying ?s2 i - lastApplied (nodes ?s2 i))"
    have "step (Pass i) ?s1 = Some (Inr ?s2)" using i False by (simp add: set_node_def k_def)
    moreover have "exec (replicate j (Apply i)) ?s2 = Some (set_node i (delivered j (nodes ?s2 i)) ?s2)"
      unfolding j_def by (rule finish_loop(1) [OF _ _ _ order_refl]) (use i b(2) sel in simp_all)
    ultimately have 2: "exec (replicate k (Apply i) @ Pass i # replicate j (Apply i)) s =
        Some (set_node i (delivered j (delivered k ?rf)) ?s2)"
      using 1 sel(3) by (simp add: exec_append del: step.simps)
    have "?c \<le> lastApplied ?rf + int (k + j)" using sel by (simp add: j_def)
    then show ?thesis
      using 2 delivered_delivered [of j k ?rf]
      by (intro exI [of _ "replicate k (Apply i) @ Pass i # replicate j (Apply i)"] exI [of _ "k + j"]
          exI [of _ "set_node i (delivered j (delivered k ?rf)) ?s2"]) auto
  qed
qed

lemma applier_catches_up:
  assumes "calm_reachable n s" and "i < n" and "can_run s i"
  shows "\<exists>as s'. set as \<subseteq> {Wake i, Pass i, Apply i} \<and> exec as s = Some s' \<and>
    commitIndex (nodes s i) \<le> lastApplied (nodes s' i) \<and>
    applyCh (nodes s' i) = applyCh (nodes s i) @ map (msg_at (Log (nodes s i))) [lastApplied (nodes s i) + 1..lastApplied (nodes s' i)] \<and>
    Log (nodes s' i) = Log (nodes s i) \<and> commitIndex (nodes s' i) = commitIndex (nodes s i) \<and>
    CurrentTerm (nodes s' i) = CurrentTerm (nodes s i)"
proof -
  have "0 < n" using assms(2) by simp
  then obtain x ow C where sim: "sim n s x ow C" using sim_reachable [OF assms(1)] by metis
  have i: "i < size_of s" using sim_data [OF sim] assms(2) by (simp add: data_inv_def)
  have la: "0 \<le> lastApplied (nodes s i)"
    using peers_invariant [of applied_in_order n s i, OF boot_in_order in_order_section calm_plain [OF assms(1)]]
    by (simp add: applied_in_order_def)
  have bound: "b < len (Log (nodes s i))" if "b \<le> p_commit x i" "0 \<le> b" for b
    using decided_log [OF simD(2) [OF sim] assms(2), of "nat b"] that sim_peer(3) [OF sim, of i] by (auto simp: nat_less_iff)
  obtain ws s1 where w: "set ws \<subseteq> {Wake i}" "exec ws s = Some s1" "applier s1 i = Awake" "nodes s1 = nodes s" "applying s1 = applying s"
      "size_of s1 = size_of s"
    using wake_up [OF assms(3) i] by blast
  obtain as' k s' where a: "set as' \<subseteq> {Pass i, Apply i}" "exec as' s1 = Some s'" "nodes s' i = delivered k (nodes s i)"
      "commitIndex (nodes s i) \<le> lastApplied (nodes s i) + int k"
    using catch_up [of i s1] i la bound sim_peer(4,5) [OF sim, of i] w(3-6) by auto
  have "exec (ws @ as') s = Some s'" using w(2) a(2) by (simp add: exec_append)
  moreover have "set (ws @ as') \<subseteq> {Wake i, Pass i, Apply i}" using w(1) a(1) by auto
  ultimately show ?thesis using a(3,4) by (intro exI [of _ "ws @ as'"] exI [of _ s']) simp
qed

section \<open>Properties\<close>

text \<open>
  What is committed gets applied. In every state of a calm run in which the goroutine \<^verbatim>\<open>applyEntries\<close> of a peer
  is running or has been woken, it can run by itself, without a panic and without being blocked, until everything
  up to the peer's commit index has been applied; it appends to the channel the entries of the log after the last
  applied one, in order, and changes nothing else of the log, the term or the commit index.
\<close>

theorem committed_gets_applied:
  assumes "calm_reachable n s" and "i < n" and "can_run s i"
  shows "\<exists>as s'. set as \<subseteq> {Wake i, Pass i, Apply i} \<and> exec as s = Some s' \<and>
    commitIndex (nodes s i) \<le> lastApplied (nodes s' i) \<and>
    applyCh (nodes s' i) = applyCh (nodes s i) @ map (msg_at (Log (nodes s i))) [lastApplied (nodes s i) + 1..lastApplied (nodes s' i)] \<and>
    Log (nodes s' i) = Log (nodes s i) \<and> commitIndex (nodes s' i) = commitIndex (nodes s i) \<and>
    CurrentTerm (nodes s' i) = CurrentTerm (nodes s i)"
  using applier_catches_up [OF assms] .

theorem committed_gets_applied_witness:
  "\<exists>as s'. exec as committed3 = Some s' \<and> 1 \<le> lastApplied (nodes s' 0)"
proof -
  have "calm_reachable 3 committed3" using exec_calm [OF committed3_run] calm_init by (simp add: start3_def)
  moreover have "commitIndex (nodes committed3 0) = 1" "can_run committed3 0" by code_simp+
  ultimately show ?thesis using committed_gets_applied [of 3 committed3 0] by fastforce
qed

text \<open>
  C26. A lost wake-up in \<^verbatim>\<open>applyEntries\<close>. The goroutine compares \<^verbatim>\<open>lastApplied\<close> and \<^verbatim>\<open>commitIndex\<close>, releases the mutex
  and takes it again before it waits: an entry committed in between is signalled too early. A calm run leads a
  leader to a state in which an entry is committed and not applied while the goroutine waits for a broadcast that
  has already happened.
\<close>

theorem applier_misses_broadcast:
  "\<exists>s. calm_reachable 3 s \<and> state (nodes s 0) = Leader \<and> lastApplied (nodes s 0) < commitIndex (nodes s 0) \<and>
     applier s 0 = Asleep (applyCond (nodes s 0)) \<and> step (Wake 0) s = None \<and> step (Pass 0) s = None \<and> step (Apply 0) s = None"
proof -
  let ?as = "calm_election @ Pass 0 # take 13 replicate_run @ [Doze 0]"
  let ?s = "the (exec ?as start3)"
  have "exec ?as start3 \<noteq> None" by code_simp
  then have "exec ?as start3 = Some ?s" by simp
  moreover have "calm_run ?as start3" by code_simp
  ultimately have "calm_reachable 3 ?s" using exec_calm [OF _ _ calm_init] by (simp add: start3_def)
  moreover have "state (nodes ?s 0) = Leader" "lastApplied (nodes ?s 0) < commitIndex (nodes ?s 0)"
      "applier ?s 0 = Asleep (applyCond (nodes ?s 0))"
    by code_simp+
  ultimately show ?thesis by (intro exI [of _ ?s]) simp
qed

end
