(* ===== verification/Raft_Availability.thy ===== *)
theory Raft_Availability
  imports Raft_Elections Raft_Progress
begin

text \<open>
  Availability: from every state of a calm run of a cluster with at least two peers, and for every command, there is
  a calm run without losses and crashes after which all peers have applied the command. A leader is elected, the
  command is passed to \<^verbatim>\<open>Start\<close>, the broadcast goroutine replicates it to the peers with as many retries as their
  logs need, the majority commits it, a heartbeat tells the others, and the goroutines \<^verbatim>\<open>applyEntries\<close> deliver it.
\<close>

section \<open>What holds when one peer leads all others\<close>

lemma leads_allD:
  assumes "leads_all n i T s"
  shows "i < n" "state (nodes s i) = Leader" "CurrentTerm (nodes s i) = T"
    "j < n \<Longrightarrow> j \<noteq> i \<Longrightarrow> state (nodes s j) = Follower" "j < n \<Longrightarrow> CurrentTerm (nodes s j) = T"
  using assms by (auto simp: leads_all_def)

text \<open>Peer \<open>i\<close> leads all others, and \<open>b\<close> is a broadcast of it for an index of its log.\<close>

definition pushing :: "nat \<Rightarrow> nat \<Rightarrow> broadcast \<Rightarrow> cluster \<Rightarrow> bool" where
  "pushing n i b s \<longleftrightarrow> leads_all n i (bc_term b) s \<and> 0 \<le> bc_index b \<and> bc_commit b \<le> bc_index b \<and>
     bc_index b < len (Log (nodes s i))"

lemma calm_matching:
  assumes "calm_reachable n s" and "0 < n"
  shows "log_matching (Log (nodes s v)) (Log (nodes s w))"
proof -
  obtain x ow C where x: "preach n x" and sim: "sim n s x ow C" by (rule sim_reachable [OF assms])
  note inv = pinvD(1) [OF simD(2) [OF sim]]
  show ?thesis
    using chain_matching [OF node_invD(1) [OF inv, of v] node_invD(1) [OF inv, of w]] sim_peer(3) [OF sim] by metis
qed

lemma pushing_replicating:
  assumes reach: "calm_reachable n s" and push: "pushing n i b s" and j: "j < n"
  shows "replicating (int j) b (nodes s i) (nodes s j)"
proof -
  have l: "leads_all n i (bc_term b) s" "0 \<le> bc_index b" "bc_index b < len (Log (nodes s i))"
    using push by (simp_all add: pushing_def)
  have n: "0 < n" using j by simp
  note f = calm_facts(6,7) [OF reach n, of i] calm_facts(7) [OF reach n, of j] calm_matching [OF reach n, of j i]
  show ?thesis
    using leads_allD [OF l(1)] l(2,3) f j by (auto simp: replicating_def indices_ok_def)
qed

section \<open>One request\<close>

lemma set_thread_simps [simp]:
  "set_thread q th (set_thread q th' s) = set_thread q th s" "threads (set_thread q th s) = (threads s)(q := th)"
  "nodes (set_thread q th s) = nodes s" "size_of (set_thread q th s) = size_of s" "tallies (set_thread q th s) = tallies s"
  "fresh (set_thread q th s) = fresh s" "applier (set_thread q th s) = applier s"
  "nodes (set_node j rf s) = (nodes s)(j := rf)" "threads (set_node j rf s) = threads s"
  "size_of (set_node j rf s) = size_of s" "tallies (set_node j rf s) = tallies s" "fresh (set_node j rf s) = fresh s"
  "applier (set_node j rf s) = applier s"
  "set_thread q th (set_node j rf (set_thread q th' s)) = set_thread q th (set_node j rf s)"
  by (simp_all add: set_thread_def set_node_def)

text \<open>The goroutine \<open>q\<close> builds a request, the peer answers it, and the goroutine has checked that the answer is not stale.\<close>

lemma push_round:
  assumes reach: "calm_reachable n s" and push: "pushing n i b s" and j: "j < n" "j \<noteq> i"
    and q: "threads s q = AppendCall k i j b ARetry"
  defines "nx \<equiv> nextIndex (nodes s i) ! j"
  shows "\<exists>args fr' reply. build_args (int j) b (nodes s i) = Inr (args, nx) \<and> ae_Term args = bc_term b \<and>
    PrevLogIndex args = nx - 1 \<and> PrevLogTerm args = Term (Log (nodes s i) ! nat (nx - 1)) \<and>
    len (Entries args) = max 0 (bc_index b + 1 - nx) \<and> LeaderCommit args = bc_commit b \<and>
    AppendEntries t0 t0 args (nodes s j) = Inr (fr', reply) \<and>
    leads_to s (set_thread q (AppendCall k i j b (AChecked args reply nx)) (set_node j fr' s))"
proof -
  have l: "leads_all n i (bc_term b) s" using push by (simp add: pushing_def)
  have r: "replicating (int j) b (nodes s i) (nodes s j)" by (rule pushing_replicating [OF reach push j(1)])
  obtain args where args: "build_args (int j) b (nodes s i) = Inr (args, nx)" and
    a: "ae_Term args = bc_term b" "PrevLogIndex args = nx - 1" "PrevLogTerm args = Term (Log (nodes s i) ! nat (nx - 1))"
      "len (Entries args) = max 0 (bc_index b + 1 - nx)" "LeaderCommit args = bc_commit b"
    using build_args_eq [of "int j" "nodes s i" nx b] r by (auto simp: replicating_def nx_def)
  obtain fr' reply where ae: "AppendEntries t0 t0 args (nodes s j) = Inr (fr', reply)"
    using AppendEntries_total [of args t0 t0 "nodes s j"] r a by (auto simp: replicating_def nx_def)
  let ?th = "\<lambda>ph. AppendCall k i j b ph"
  have lead: "bae_is_leader (nodes s i)" "bae_same_term b (nodes s i)"
    using leads_allD(2,3) [OF l] by (simp_all add: bae_is_leader_def bae_same_term_def GetState_def)
  have "leads_to s (set_thread q (?th ALeader) s)"
    by (rule leads_step [of "Run 0 q"]) (use q lead in \<open>simp_all add: run_thread_def calm_def\<close>)
  moreover have "leads_to (set_thread q (?th ALeader) s) (set_thread q (?th ATerm) s)"
    by (rule leads_step [of "Run 0 q"]) (use q lead in \<open>simp_all add: run_thread_def calm_def\<close>)
  moreover have "leads_to (set_thread q (?th ATerm) s) (set_thread q (?th (ASent args nx)) s)"
    by (rule leads_step [of "Run 0 q"]) (use args leads_allD(2,3) [OF l] in \<open>simp_all add: run_thread_def calm_def\<close>)
  moreover have "leads_to (set_thread q (?th (ASent args nx)) s)
      (set_thread q (?th (AReplied args reply nx)) (set_node j fr' s))"
    by (rule leads_step [of "Deliver t0 t0 q"]) (use ae in \<open>simp_all add: deliver_def calm_def\<close>)
  moreover have "leads_to (set_thread q (?th (AReplied args reply nx)) (set_node j fr' s))
      (set_thread q (?th (AChecked args reply nx)) (set_node j fr' s))"
    by (rule leads_step [of "Run 0 q"])
       (use a(1) j leads_allD(3) [OF l] in \<open>simp_all add: run_thread_def calm_def append_is_stale_def\<close>)
  ultimately have "leads_to s (set_thread q (?th (AChecked args reply nx)) (set_node j fr' s))"
    using leads_trans by blast
  then show ?thesis using args a ae by blast
qed

section \<open>Replication to one peer\<close>

text \<open>
  The leader has counted \<open>r\<close> replicas for the broadcast \<open>b\<close>; it had commit index \<open>c\<close> and had signalled its applier
  \<open>a\<close> times before. The commit index has moved if a majority has been counted and the entry can be committed.
\<close>

definition counting :: "broadcast \<Rightarrow> int \<Rightarrow> nat \<Rightarrow> int \<Rightarrow> Raft \<Rightarrow> tally \<Rightarrow> bool" where
  "counting b c a r rf ta \<longleftrightarrow> ta = \<lparr>nReplica = r, isAgree = (majority rf \<le> r)\<rparr> \<and>
     (let won = (majority rf \<le> r \<and> c < bc_index b \<and> Term (Log rf ! nat (bc_index b)) = CurrentTerm rf) in
      commitIndex rf = (if won then bc_index b else c) \<and> applyCond rf = (if won then a + 1 else a))"

lemma counting_step:
  assumes "counting b c a r rf ta" and "append_accepted j (bc_index b) ta rf = Inr (rf', ta', adv)"
    and "state rf = Leader" and "0 \<le> bc_index b" and "bc_index b < len (Log rf)"
  shows "counting b c a (r + 1) rf' ta'"
  using assms
  by (cases "majority rf \<le> r"; cases "majority rf \<le> r + 1")
     (auto simp: counting_def append_accepted_def majority_def go_simps Let_def split: if_splits)

text \<open>A follower that has accepted the last request of a broadcast.\<close>

definition caught_up :: "broadcast \<Rightarrow> log \<Rightarrow> Raft \<Rightarrow> Raft \<Rightarrow> bool" where
  "caught_up b L fr fr' \<longleftrightarrow> state fr' = Follower \<and> CurrentTerm fr' = CurrentTerm fr \<and>
     take (nat (bc_index b + 1)) (Log fr') = take (nat (bc_index b + 1)) L \<and>
     commitIndex fr' = max (commitIndex fr) (bc_commit b) \<and>
     applyCond fr' = (if commitIndex fr < bc_commit b then applyCond fr + 1 else applyCond fr)"

lemma accepted_caught_up:
  assumes r: "replicating (int j) b rf fr" and nx: "nx = nextIndex rf ! j" and args: "build_args (int j) b rf = Inr (args, nx)"
    and a: "PrevLogIndex args = nx - 1" "len (Entries args) = max 0 (bc_index b + 1 - nx)" "LeaderCommit args = bc_commit b"
      "ae_Term args = bc_term b"
    and ae: "AppendEntries t1 t2 args fr = Inr (fr', reply)" "Success reply" and fr: "CurrentTerm fr = bc_term b"
    and c: "bc_commit b \<le> bc_index b"
  shows "caught_up b (Log rf) fr fr'"
proof -
  have "take (nat (bc_index b + 1)) (Log fr') = take (nat (bc_index b + 1)) (Log rf)"
    by (rule replicate_agree [OF r _ args ae]) (simp add: nx)
  moreover have fr': "fr' = ae_accepted t1 t2 args fr" using ae by (cases rule: AppendEntries_cases) auto
  moreover have "applyCond (ae_accepted t1 t2 args fr) = (if commitIndex fr < bc_commit b then applyCond fr + 1 else applyCond fr)"
    using a fr by (simp add: ae_accepted_def advance_commit_def Let_def ae_term_updated_def)
  ultimately show ?thesis
    using a fr c by (simp add: caught_up_def max_def min_def)
qed

text \<open>The last critical section of a round, for a positive and for a negative answer.\<close>

lemma push_accepted:
  assumes "threads s q = AppendCall k i j b (AChecked args reply nx)" and "CurrentTerm (nodes s i) = ae_Term args" and "Success reply"
    and "append_accepted (int j) (bc_index b) (tallies s k) (nodes s i) = Inr (rf', ta, adv)" and "q < fresh s"
  shows "\<exists>s'. leads_to s s' \<and> nodes s' = (nodes s)(i := rf') \<and> tallies s' k = ta \<and> applier s' = applier s \<and> fresh s \<le> fresh s' \<and>
    (\<forall>p < fresh s. p \<noteq> q \<longrightarrow> threads s' p = threads s p)"
proof -
  let ?s' = "set_thread q (AppendCall k i j b ADone) (set_node i rf' (s\<lparr>tallies := (tallies s)(k := ta)\<rparr>))"
  define s' where "s' = (if adv then spawn (Heartbeat i HEnter) ?s' else ?s')"
  have "leads_to s s'"
    by (rule leads_step [of "Run 0 q"]) (use assms in \<open>simp_all add: run_thread_def calm_def s'_def Let_def\<close>)
  then show ?thesis by (intro exI [of _ s']) (simp add: s'_def cluster_defs)
qed

lemma push_rejected:
  assumes "threads s q = AppendCall k i j b (AChecked args reply nx)" and "CurrentTerm (nodes s i) = ae_Term args" and "\<not> Success reply"
    and "append_rejected (int j) args reply nx (nodes s i) = Inr (rf', True)"
  shows "leads_to s (set_thread q (AppendCall k i j b ARetry) (set_node i rf' s))"
  by (rule leads_step [of "Run 0 q"]) (use assms in \<open>simp_all add: run_thread_def calm_def\<close>)

lemma push_one:
  assumes "calm_reachable n s" and "pushing n i b s" and "j < n" "j \<noteq> i" and "threads s q = AppendCall k i j b ARetry"
    and "q < fresh s" and "counting b c a r (nodes s i) (tallies s k)" and "nextIndex (nodes s i) ! j \<le> int m"
  shows "\<exists>s'. leads_to s s' \<and> (\<forall>v. v \<noteq> i \<longrightarrow> v \<noteq> j \<longrightarrow> nodes s' v = nodes s v) \<and> state (nodes s' i) = Leader \<and>
    CurrentTerm (nodes s' i) = bc_term b \<and> Log (nodes s' i) = Log (nodes s i) \<and>
    counting b c a (r + 1) (nodes s' i) (tallies s' k) \<and> caught_up b (Log (nodes s i)) (nodes s j) (nodes s' j) \<and>
    applier s' = applier s \<and> fresh s \<le> fresh s' \<and> (\<forall>p < fresh s. p \<noteq> q \<longrightarrow> threads s' p = threads s p)"
  using assms
proof (induction m arbitrary: s)
  case 0
  have "1 \<le> nextIndex (nodes s i) ! j" using pushing_replicating [OF 0(1,2,3)] by (simp add: replicating_def)
  then show ?case using 0(8) by simp
next
  case (Suc m)
  let ?rf = "nodes s i" and ?fr = "nodes s j" and ?nx = "nextIndex (nodes s i) ! j"
  have r: "replicating (int j) b ?rf ?fr" by (rule pushing_replicating [OF Suc.prems(1-3)])
  have l: "leads_all n i (bc_term b) s" "0 \<le> bc_index b" "bc_commit b \<le> bc_index b" "bc_index b < len (Log ?rf)"
    using Suc.prems(2) by (simp_all add: pushing_def)
  note ld = leads_allD [OF l(1)]
  obtain args fr' reply where args: "build_args (int j) b ?rf = Inr (args, ?nx)"
      and a: "ae_Term args = bc_term b" "PrevLogIndex args = ?nx - 1" "PrevLogTerm args = Term (Log ?rf ! nat (?nx - 1))"
        "len (Entries args) = max 0 (bc_index b + 1 - ?nx)" "LeaderCommit args = bc_commit b"
      and ae: "AppendEntries t0 t0 args ?fr = Inr (fr', reply)"
      and to: "leads_to s (set_thread q (AppendCall k i j b (AChecked args reply ?nx)) (set_node j fr' s))" (is "leads_to s ?s1")
    using push_round [OF Suc.prems(1-5)] by blast
  have fresh_term: "CurrentTerm ?fr = ae_Term args" using ld(5) [OF Suc.prems(3)] a(1) by simp
  show ?case
  proof (cases "Success reply")
    case True
    obtain rf' ta adv where acc: "append_accepted (int j) (bc_index b) (tallies s k) ?rf = Inr (rf', ta, adv)"
      using append_accepted_total [of "int j" ?rf "bc_index b" "tallies s k"] r by (auto simp: replicating_def)
    have acc1: "append_accepted (int j) (bc_index b) (tallies ?s1 k) (nodes ?s1 i) = Inr (rf', ta, adv)"
      using acc Suc.prems(4) by simp
    obtain s2 where s2: "leads_to ?s1 s2" "nodes s2 = (nodes ?s1)(i := rf')" "tallies s2 k = ta" "applier s2 = applier ?s1"
        "fresh ?s1 \<le> fresh s2" "\<forall>p < fresh ?s1. p \<noteq> q \<longrightarrow> threads s2 p = threads ?s1 p"
      using push_accepted [OF _ _ True acc1, of q] Suc.prems(4,6) ld(3) a(1) by auto
    have "leads_to s s2" by (rule leads_trans [OF to s2(1)])
    moreover have "nodes s2 i = rf'" "nodes s2 j = fr'" "\<forall>v. v \<noteq> i \<longrightarrow> v \<noteq> j \<longrightarrow> nodes s2 v = nodes s v"
        "applier s2 = applier s" "fresh s \<le> fresh s2" "\<forall>p < fresh s. p \<noteq> q \<longrightarrow> threads s2 p = threads s p"
      using Suc.prems(4) s2 by auto
    moreover have "counting b c a (r + 1) rf' ta" by (rule counting_step [OF Suc.prems(7) acc ld(2) l(2,4)])
    moreover have "caught_up b (Log ?rf) ?fr fr'"
      using accepted_caught_up [OF r refl args a(2,4,5,1) ae True] fresh_term a(1) l(3) by simp
    ultimately show ?thesis
      using append_accepted_step [OF acc] ld(2,3) s2(3) by (intro exI [of _ s2]) simp
  next
    case False
    have rej: "fr' = ?fr" "aer_Term reply = ae_Term args" "conflict_report (Log ?fr) args reply"
      using reject_report [OF ae False] r a fresh_term by (auto simp: replicating_def ae_term_updated_def)
    obtain nx' where nx': "getNextIndex reply ?nx (Log ?rf) = Inr nx'" "1 \<le> nx'" "nx' \<le> ?nx - 1"
      using getNextIndex_progress [OF rej(3), of "Log ?rf"] r a by (auto simp: replicating_def)
    let ?rf1 = "?rf\<lparr>nextIndex := (nextIndex ?rf)[j := nx']\<rparr>"
    have app: "append_rejected (int j) args reply ?nx ?rf = Inr (?rf1, True)"
      using append_rejected_retry [of "int j" ?rf reply args ?nx nx'] nx' rej(2) r by (simp add: replicating_def)
    let ?s2 = "set_thread q (AppendCall k i j b ARetry) (set_node i ?rf1 ?s1)"
    have "leads_to ?s1 ?s2"
      by (rule push_rejected [OF _ _ False]) (use app Suc.prems(4) ld(3) a(1) in simp_all)
    then have 2: "leads_to s ?s2" by (rule leads_trans [OF to])
    have push: "pushing n i b ?s2"
      using Suc.prems(2) rej(1) by (simp add: pushing_def leads_all_def)
    have "counting b c a r ?rf1 (tallies s k)" using Suc.prems(7) by (simp add: counting_def majority_def)
    moreover have "nextIndex ?rf1 ! j \<le> int m" using nx' Suc.prems(8) r by (simp add: replicating_def)
    ultimately obtain s' where "leads_to ?s2 s'" "\<forall>v. v \<noteq> i \<longrightarrow> v \<noteq> j \<longrightarrow> nodes s' v = nodes s v" "state (nodes s' i) = Leader"
        "CurrentTerm (nodes s' i) = bc_term b" "Log (nodes s' i) = Log ?rf" "counting b c a (r + 1) (nodes s' i) (tallies s' k)"
        "caught_up b (Log ?rf) ?fr (nodes s' j)" "applier s' = applier s" "fresh s \<le> fresh s'"
        "\<forall>p < fresh s. p \<noteq> q \<longrightarrow> threads s' p = threads s p"
      using Suc.IH [OF leads_reachable [OF 2 Suc.prems(1)] push Suc.prems(3,4)] Suc.prems(4,6) rej(1) by auto
    then show ?thesis
      using leads_trans [OF 2] by (intro exI [of _ s']) auto
  qed
qed

section \<open>A broadcast\<close>

lemma push_all:
  assumes "calm_reachable n s" and "pushing n i b s" and "threads s p = Bcast k i b (BLoop js)" and "p < fresh s"
    and "distinct js" and "\<forall>j \<in> set js. j < n \<and> j \<noteq> i" and "counting b c a r (nodes s i) (tallies s k)"
  shows "\<exists>s'. leads_to s s' \<and> pushing n i b s' \<and> Log (nodes s' i) = Log (nodes s i) \<and>
    counting b c a (r + len js) (nodes s' i) (tallies s' k) \<and>
    (\<forall>j \<in> set js. caught_up b (Log (nodes s i)) (nodes s j) (nodes s' j)) \<and>
    (\<forall>v. v \<noteq> i \<longrightarrow> v \<notin> set js \<longrightarrow> nodes s' v = nodes s v) \<and> applier s' = applier s"
  using assms
proof (induction js arbitrary: s r)
  case Nil
  then show ?case by (intro exI [of _ s]) simp
next
  case (Cons j js)
  let ?q = "fresh s"
  define s0 where "s0 = set_thread p (Bcast k i b (BLoop js)) (spawn (AppendCall k i j b ARetry) s)"
  have j: "j < n" "j \<noteq> i" "j \<notin> set js" using Cons.prems(5,6) by auto
  have s0: "nodes s0 = nodes s" "threads s0 ?q = AppendCall k i j b ARetry" "threads s0 p = Bcast k i b (BLoop js)"
      "fresh s0 = ?q + 1" "tallies s0 = tallies s" "applier s0 = applier s"
    using Cons.prems(4) by (auto simp: s0_def spawn_def)
  have "leads_to s s0"
    by (rule leads_step [of "Run 0 p"]) (use Cons.prems(3) in \<open>simp_all add: run_thread_def calm_def s0_def\<close>)
  note 0 = this leads_reachable [OF this Cons.prems(1)]
  have push0: "pushing n i b s0" using Cons.prems(2) s0(1) by (simp add: pushing_def leads_all_def)
  have nx: "nextIndex (nodes s0 i) ! j \<le> int (nat (nextIndex (nodes s0 i) ! j))" by simp
  obtain s1 where 1: "leads_to s0 s1" "\<forall>v. v \<noteq> i \<longrightarrow> v \<noteq> j \<longrightarrow> nodes s1 v = nodes s v" "state (nodes s1 i) = Leader"
      "CurrentTerm (nodes s1 i) = bc_term b" "Log (nodes s1 i) = Log (nodes s i)"
      "counting b c a (r + 1) (nodes s1 i) (tallies s1 k)" "caught_up b (Log (nodes s i)) (nodes s j) (nodes s1 j)"
      "applier s1 = applier s" "?q < fresh s1" "threads s1 p = Bcast k i b (BLoop js)"
    using push_one [OF 0(2) push0 j(1,2) s0(2) _ _ nx, of c a r] Cons.prems(4,7) s0
    by (auto simp: Suc_le_eq)
  have push1: "pushing n i b s1"
    using Cons.prems(2) 1(2-5,7) j(1) by (auto simp: pushing_def leads_all_def caught_up_def)
  obtain s2 where 2: "leads_to s1 s2" "pushing n i b s2" "Log (nodes s2 i) = Log (nodes s i)"
      "counting b c a (r + 1 + len js) (nodes s2 i) (tallies s2 k)"
      "\<forall>v \<in> set js. caught_up b (Log (nodes s i)) (nodes s v) (nodes s2 v)"
      "\<forall>v. v \<noteq> i \<longrightarrow> v \<notin> set js \<longrightarrow> nodes s2 v = nodes s1 v" "applier s2 = applier s"
    using Cons.IH [OF leads_reachable [OF 1(1) 0(2)] push1 1(10) _ _ _ 1(6)] 1 Cons.prems(4,5,6) j(3) by fastforce
  have "leads_to s s2" using 0(1) 1(1) 2(1) leads_trans by blast
  then show ?case using 2 1(2,7) j by (intro exI [of _ s2]) (simp add: add.assoc)
qed

text \<open>A broadcast that has been started, and what it leads to when it is not disturbed.\<close>

definition launched :: "nat \<Rightarrow> broadcast \<Rightarrow> cluster \<Rightarrow> bool" where
  "launched i b s \<longleftrightarrow> (\<exists>p k. threads s p = Bcast k i b BEnter \<and> p < fresh s \<and> tallies s k = \<lparr>nReplica = 1, isAgree = False\<rparr>)"

definition can_commit :: "broadcast \<Rightarrow> Raft \<Rightarrow> bool" where
  "can_commit b rf \<longleftrightarrow> commitIndex rf < bc_index b \<and> Term (Log rf ! nat (bc_index b)) = CurrentTerm rf"

lemma push_broadcast:
  assumes reach: "calm_reachable n s" and n: "2 \<le> n" and push: "pushing n i b s" and b: "launched i b s"
  shows "\<exists>s'. leads_to s s' \<and> leads_all n i (bc_term b) s' \<and> Log (nodes s' i) = Log (nodes s i) \<and>
    (\<forall>j < n. j \<noteq> i \<longrightarrow> caught_up b (Log (nodes s i)) (nodes s j) (nodes s' j)) \<and> applier s' = applier s \<and>
    commitIndex (nodes s' i) = (if can_commit b (nodes s i) then bc_index b else commitIndex (nodes s i)) \<and>
    applyCond (nodes s' i) = (if can_commit b (nodes s i) then applyCond (nodes s i) + 1 else applyCond (nodes s i))"
proof -
  let ?rf = "nodes s i"
  obtain p k where p: "threads s p = Bcast k i b BEnter" "p < fresh s" "tallies s k = \<lparr>nReplica = 1, isAgree = False\<rparr>"
    using b by (auto simp: launched_def)
  have l: "leads_all n i (bc_term b) s" using push by (simp add: pushing_def)
  note ld = leads_allD [OF l]
  have lead: "bae_is_leader ?rf" "bae_same_term b ?rf"
    using ld(2,3) by (simp_all add: bae_is_leader_def bae_same_term_def GetState_def)
  define s1 where "s1 = set_thread p (Bcast k i b BLeader) s"
  define s2 where "s2 = set_thread p (Bcast k i b (BLoop (others n i))) s"
  have s2: "nodes s2 = nodes s" "threads s2 p = Bcast k i b (BLoop (others n i))" "p < fresh s2" "tallies s2 = tallies s"
      "applier s2 = applier s"
    using p(2) by (simp_all add: s2_def)
  have f: "size_of s = n" "length (peers ?rf) = n" using calm_facts [OF reach] n by simp_all
  have "leads_to s s1"
    by (rule leads_step [of "Run 0 p"]) (use p lead in \<open>simp_all add: run_thread_def calm_def s1_def\<close>)
  moreover have "leads_to s1 s2"
    by (rule leads_step [of "Run 0 p"]) (use p lead f(1) in \<open>simp_all add: run_thread_def calm_def s1_def s2_def\<close>)
  ultimately have 2: "leads_to s s2" using leads_trans by blast
  have push2: "pushing n i b s2" using push s2(1) by (simp add: pushing_def leads_all_def)
  have "\<not> majority ?rf \<le> 1" using n f(2) by (simp add: majority_def)
  then have "counting b (commitIndex ?rf) (applyCond ?rf) 1 (nodes s2 i) (tallies s2 k)" using p(3) s2 by (simp add: counting_def)
  moreover have "\<forall>j \<in> set (others n i). j < n \<and> j \<noteq> i" by (simp add: others_facts(1))
  ultimately obtain s' where s': "leads_to s2 s'" "pushing n i b s'" "Log (nodes s' i) = Log ?rf"
      "counting b (commitIndex ?rf) (applyCond ?rf) (1 + len (others n i)) (nodes s' i) (tallies s' k)"
      "\<forall>j \<in> set (others n i). caught_up b (Log ?rf) (nodes s j) (nodes s' j)" "applier s' = applier s"
    using push_all [OF leads_reachable [OF 2 reach] push2 s2(2,3) others_facts(2)] unfolding s2(1,4,5) by blast
  have l': "leads_all n i (bc_term b) s'" using s'(2) by (simp add: pushing_def)
  have "length (peers (nodes s' i)) = n"
    using calm_facts(4) [OF leads_reachable [OF s'(1) leads_reachable [OF 2 reach]]] n by simp
  then have "majority (nodes s' i) \<le> 1 + len (others n i)" using others_facts(3) [OF ld(1)] n by (simp add: majority_def)
  then have "commitIndex (nodes s' i) = (if can_commit b ?rf then bc_index b else commitIndex ?rf) \<and>
      applyCond (nodes s' i) = (if can_commit b ?rf then applyCond ?rf + 1 else applyCond ?rf)"
    using s'(3,4) leads_allD(3) [OF l'] ld(3) by (simp add: counting_def can_commit_def Let_def)
  then show ?thesis
    using leads_trans [OF 2 s'(1)] l' s'(3,5,6) by (intro exI [of _ s']) (simp add: others_facts(1))
qed

section \<open>Starting broadcasts\<close>

lemma start_push:
  assumes reach: "calm_reachable n s" and l: "leads_all n i T s" and c: "sendable c"
  shows "\<exists>s' b. leads_to s s' \<and> leads_all n i T s' \<and> launched i b s' \<and>
    b = \<lparr>bc_index = len (Log (nodes s i)), bc_term = T, bc_commit = commitIndex (nodes s i)\<rparr> \<and>
    Log (nodes s' i) = Log (nodes s i) @ [\<lparr>Command = c, Term = T\<rparr>] \<and> (\<forall>v. v \<noteq> i \<longrightarrow> nodes s' v = nodes s v) \<and>
    commitIndex (nodes s' i) = commitIndex (nodes s i) \<and> applyCond (nodes s' i) = applyCond (nodes s i) \<and>
    applier s' = applier s"
proof -
  let ?q = "fresh s" and ?rf = "fst (start_append c 0 (nodes s i))" and ?ix = "len (Log (nodes s i))"
  note ld = leads_allD [OF l]
  have sz: "size_of s = n" using calm_facts(1) [OF reach] ld(1) by simp
  have ix: "snd (start_append c 0 (nodes s i)) = ?ix" "applyCond ?rf = applyCond (nodes s i)"
    by (simp_all add: start_append_def Let_def)
  define s1 where "s1 = spawn (StartCall i c SEnter) s"
  define s2 where "s2 = set_thread ?q (StartCall i c (SLeader T)) s1"
  define s3 where "s3 = set_thread ?q (StartCall i c (SAppended ?ix T)) (set_node i ?rf s2)"
  define s4 where "s4 = set_thread ?q Idle (spawn_bcast i (start_broadcast ?ix ?rf) s3)"
  have "leads_to s s1"
    by (rule leads_step [of "Client i c"]) (use ld(1) sz c in \<open>simp_all add: s1_def calm_def\<close>)
  moreover have "leads_to s1 s2"
    by (rule leads_step [of "Run 0 ?q"])
       (use ld(2,3) in \<open>simp_all add: s1_def s2_def spawn_def run_thread_def calm_def GetState_def\<close>)
  moreover have "leads_to s2 s3"
    by (rule leads_step [of "Run 0 ?q"])
       (use ld(2,3) ix in \<open>simp_all add: s1_def s2_def s3_def spawn_def run_thread_def calm_def split_beta Let_def\<close>)
  moreover have "leads_to s3 s4"
    by (rule leads_step [of "Run 0 ?q"])
       (use ld(2,3) in \<open>simp_all add: s1_def s2_def s3_def s4_def spawn_def run_thread_def calm_def\<close>)
  ultimately have "leads_to s s4" using leads_trans by blast
  moreover have "nodes s4 = (nodes s)(i := ?rf)" "applier s4 = applier s"
    by (simp_all add: s1_def s2_def s3_def s4_def spawn_def spawn_bcast_def Let_def)
  moreover have "launched i (start_broadcast ?ix ?rf) s4"
    unfolding launched_def
    by (rule exI [of _ "Suc ?q"], rule exI [of _ "fresh_bcast s3"])
       (simp add: s1_def s2_def s3_def s4_def spawn_def spawn_bcast_def Let_def)
  ultimately show ?thesis
    using l ix ld(3) by (intro exI [of _ s4] exI [of _ "start_broadcast ?ix ?rf"]) (simp add: leads_all_def start_broadcast_def)
qed

lemma beat_push:
  assumes reach: "calm_reachable n s" and l: "leads_all n i T s"
  shows "\<exists>s' b. leads_to s s' \<and> leads_all n i T s' \<and> launched i b s' \<and>
    b = \<lparr>bc_index = len (Log (nodes s i)) - 1, bc_term = T, bc_commit = commitIndex (nodes s i)\<rparr> \<and>
    Log (nodes s' i) = Log (nodes s i) \<and> (\<forall>v. v \<noteq> i \<longrightarrow> nodes s' v = nodes s v) \<and>
    commitIndex (nodes s' i) = commitIndex (nodes s i) \<and> applyCond (nodes s' i) = applyCond (nodes s i) \<and>
    applier s' = applier s"
proof -
  let ?q = "fresh s" and ?rf = "(nodes s i)\<lparr>latestIssueTime := 0\<rparr>" and ?ix = "len (Log (nodes s i)) - 1"
  note ld = leads_allD [OF l]
  have sz: "size_of s = n" using calm_facts(1) [OF reach] ld(1) by simp
  define s1 where "s1 = spawn (Heartbeat i HEnter) s"
  define s2 where "s2 = set_thread ?q (Heartbeat i HLeader) s1"
  define s3 where "s3 = set_thread ?q (Heartbeat i HIssued) (set_node i ?rf s2)"
  define s4 where "s4 = set_thread ?q Idle (spawn_bcast i (start_broadcast ?ix ?rf) s3)"
  have "leads_to s s1"
    by (rule leads_step [of "Beat i"]) (use ld(1) sz in \<open>simp_all add: s1_def calm_def\<close>)
  moreover have "leads_to s1 s2"
    by (rule leads_step [of "Run 0 ?q"])
       (use ld(2,3) in \<open>simp_all add: s1_def s2_def spawn_def run_thread_def calm_def GetState_def\<close>)
  moreover have "leads_to s2 s3"
    by (rule leads_step [of "Run 0 ?q"])
       (use ld(2,3) in \<open>simp_all add: s1_def s2_def s3_def spawn_def run_thread_def calm_def\<close>)
  moreover have "leads_to s3 s4"
    by (rule leads_step [of "Run 0 ?q"])
       (use ld(2,3) in \<open>simp_all add: s1_def s2_def s3_def s4_def spawn_def run_thread_def calm_def\<close>)
  ultimately have "leads_to s s4" using leads_trans by blast
  moreover have "nodes s4 = (nodes s)(i := ?rf)" "applier s4 = applier s"
    by (simp_all add: s1_def s2_def s3_def s4_def spawn_def spawn_bcast_def Let_def)
  moreover have "launched i (start_broadcast ?ix ?rf) s4"
    unfolding launched_def
    by (rule exI [of _ "Suc ?q"], rule exI [of _ "fresh_bcast s3"])
       (simp add: s1_def s2_def s3_def s4_def spawn_def spawn_bcast_def Let_def)
  ultimately show ?thesis
    using l ld(3) by (intro exI [of _ s4] exI [of _ "start_broadcast ?ix ?rf"]) (simp add: leads_all_def start_broadcast_def)
qed

section \<open>The leader's log has everything that is decided\<close>

lemma decided_in_leader:
  assumes inv: "pinv n x" and d: "decided n x k e" and i: "p_role x i = Leader" "\<forall>v < n. p_term x v \<le> p_term x i"
  shows "k < length (p_log x i)"
proof -
  obtain T m where c: "committed n x T m" "k < m" using d by (auto simp: decided_def)
  then obtain Q where Q: "majority_of n Q" "\<forall>v \<in> Q. m \<le> p_acks x v T" "0 < m" by (auto simp: committed_def)
  then have "Q \<noteq> {}" "Q \<subseteq> {..<n}" by (auto simp: majority_of_def)
  then obtain v where v: "v \<in> Q" "v < n" by blast
  have "T \<le> p_term x v" using node_invD(11) [OF pinvD(1) [OF inv, of v], of T] Q(2,3) v(1) by force
  then have T: "T \<le> p_term x i" using i(2) v(2) by force
  note ni = node_invD [OF pinvD(1) [OF inv, of i]]
  have "p_won x (p_term x i) \<noteq> None" using ni(4) i(1) by auto
  then have "has (p_llog x) T m (p_llog x (p_term x i))" by (rule committed_has [OF inv c(1) T])
  then show ?thesis using c(2) ni(5) [OF i(1)] by (simp add: has_def)
qed

lemma applied_msg:
  assumes "calm_reachable n s" and "1 \<le> k" and "k \<le> lastApplied (nodes s v)"
  shows "\<exists>msg \<in> set (applyCh (nodes s v)). CommandIndex msg = k"
proof -
  have "map CommandIndex (applyCh (nodes s v)) = [1..lastApplied (nodes s v)]"
    using peers_invariant [of applied_in_order n s v, OF boot_in_order in_order_section calm_plain [OF assms(1)]]
    by (simp add: applied_in_order_def)
  then have "CommandIndex ` set (applyCh (nodes s v)) = {1..lastApplied (nodes s v)}" by (metis set_map set_upto)
  then have "k \<in> CommandIndex ` set (applyCh (nodes s v))" using assms(2,3) by simp
  then show ?thesis by force
qed

lemma applied_nonneg: "calm_reachable n s \<Longrightarrow> 0 \<le> lastApplied (nodes s v)"
  using peers_invariant [of applied_in_order n s v, OF boot_in_order in_order_section calm_plain]
  by (simp add: applied_in_order_def)

lemma leader_has_decided:
  assumes reach: "calm_reachable n s" and to: "leads_to s s1" and l: "leads_all n i T s1" and v: "v < n"
  shows "commitIndex (nodes s1 v) < len (Log (nodes s1 i))" "lastApplied (nodes s v) < len (Log (nodes s1 i))"
proof -
  have n: "0 < n" using v by simp
  obtain x ow C where sim: "sim n s x ow C" by (rule sim_reachable [OF reach n])
  obtain as where "exec as s = Some s1" "calm_run as s" using to by (auto simp: leads_to_def)
  then obtain y ow' C' where y: "(pstep n)\<^sup>*\<^sup>* x y" "sim n s1 y ow' C'" by (rule sim_exec [OF sim])
  have inv: "pinv n y" and keep: "\<And>k e. decided n x k e \<Longrightarrow> decided n y k e"
    using psteps_keep [OF y(1) simD(2) [OF sim]] by blast+
  note py = sim_peer [OF y(2)]
  have lead: "k < length (Log (nodes s1 i))" if "decided n y k e" for k e
    using decided_in_leader [OF inv that, of i] leads_allD [OF l] py by simp
  have pos: "0 < len (Log (nodes s1 i))" using py(6) by simp
  show "commitIndex (nodes s1 v) < len (Log (nodes s1 i))"
  proof (cases "0 \<le> commitIndex (nodes s1 v)")
    case True
    then have "int (nat (commitIndex (nodes s1 v))) \<le> p_commit y v" using py(4) [of v] by simp
    from lead [OF conjunct2 [OF decided_log [OF inv v this]]] show ?thesis using True by linarith
  qed (use pos in linarith)
  show "lastApplied (nodes s v) < len (Log (nodes s1 i))"
  proof (cases "lastApplied (nodes s v) = 0")
    case False
    then obtain msg where "msg \<in> set (applyCh (nodes s v))" "CommandIndex msg = lastApplied (nodes s v)"
      using applied_msg [OF reach, of "lastApplied (nodes s v)" v] applied_nonneg [OF reach, of v] by fastforce
    then obtain k e where ke: "lastApplied (nodes s v) = int k" "decided n x k e"
      using simD(4) [OF sim, of v] v unfolding applied_ok_def by metis
    then show ?thesis using lead [OF keep [OF ke(2)]] by simp
  qed (use pos in simp)
qed

section \<open>Waiting for committed entries\<close>

text \<open>A goroutine that waits has seen no broadcast that has not happened.\<close>

definition asleep_ok :: "applier_pc \<Rightarrow> Raft \<Rightarrow> bool" where
  "asleep_ok pc rf \<longleftrightarrow> (case pc of Asleep k \<Rightarrow> k \<le> applyCond rf | _ \<Rightarrow> True)"

lemma asleep_ok_simps [simp]: "asleep_ok Awake rf" "asleep_ok Drowsy rf" "asleep_ok (Asleep k) rf = (k \<le> applyCond rf)"
  by (simp_all add: asleep_ok_def)

definition sleeps :: "cluster \<Rightarrow> bool" where
  "sleeps s \<longleftrightarrow> (\<forall>v. asleep_ok (applier s v) (nodes s v))"

lemma init_indices_signals: "init_indices k rf = Inr rf' \<Longrightarrow> applyCond rf' = applyCond rf"
  by (induction k arbitrary: rf') (force simp: go_simps)+

lemma signals_grow:
  shows "RequestVote t args rf = Inr (rf', r) \<Longrightarrow> Log rf \<noteq> [] \<Longrightarrow> applyCond rf' = applyCond rf"
    and "AppendEntries t1 t2 aargs rf = Inr (rf', ar) \<Longrightarrow> applyCond rf \<le> applyCond rf'"
    and "applyCond (vote_denied r rf) = applyCond rf"
    and "vote_granted k rf = Inr (rf', x) \<Longrightarrow> applyCond rf' = applyCond rf"
    and "append_rejected i aargs ar nx rf = Inr (rf', z) \<Longrightarrow> applyCond rf' = applyCond rf"
    and "append_accepted i index ta rf = Inr (rf', y) \<Longrightarrow> applyCond rf \<le> applyCond rf'"
    and "applyCond (fst (start_append c now rf)) = applyCond rf" "applyCond (startElection t rf) = applyCond rf"
    and "apply_step bd rf = Some (Inr rf') \<Longrightarrow> applyCond rf' = applyCond rf"
proof -
  show "applyCond rf' = applyCond rf" if "RequestVote t args rf = Inr (rf', r)" "Log rf \<noteq> []"
    using that by (auto simp: RequestVote_eq rv_grant_def rv_term_updated_def rv_newer_term_def Let_def split: if_splits)
  show "applyCond rf \<le> applyCond rf'" if "AppendEntries t1 t2 aargs rf = Inr (rf', ar)"
    using that by (cases rule: AppendEntries_cases)
      (auto simp: ae_accepted_def ae_term_updated_def ae_newer_term_def advance_commit_def Let_def)
  show "applyCond (vote_denied r rf) = applyCond rf" by (simp add: vote_denied_def Let_def)
  show "applyCond rf' = applyCond rf" if "vote_granted k rf = Inr (rf', x)"
    using that by (auto simp: vote_granted_def Let_def go_simps split: if_splits dest!: init_indices_signals)
  show "applyCond rf' = applyCond rf" if "append_rejected i aargs ar nx rf = Inr (rf', z)"
    using that by (auto simp: append_rejected_def Let_def go_simps split: if_splits)
  show "applyCond rf \<le> applyCond rf'" if "append_accepted i index ta rf = Inr (rf', y)"
    using that by (auto simp: append_accepted_def Let_def go_simps split: if_splits)
  show "applyCond (fst (start_append c now rf)) = applyCond rf" "applyCond (startElection t rf) = applyCond rf"
    by (simp_all add: start_append_def startElection_def Let_def)
  show "applyCond rf' = applyCond rf" if "apply_step bd rf = Some (Inr rf')"
    using that by (auto simp: apply_step_def apply_entry_def Let_def go_simps split: if_splits)
qed

lemma sleeps_at: "sleeps s \<Longrightarrow> applyCond (nodes s i) \<le> applyCond rf \<Longrightarrow> asleep_ok (applier s i) rf"
  by (cases "applier s i") (auto simp: sleeps_def dest!: spec [of _ i])

lemma sleeps_updates [intro]:
  "sleeps s \<Longrightarrow> applyCond (nodes s i) \<le> applyCond rf \<Longrightarrow> sleeps (set_node i rf s)"
  "sleeps s \<Longrightarrow> sleeps (set_thread p th s)" "sleeps s \<Longrightarrow> sleeps (spawn th s)" "sleeps s \<Longrightarrow> sleeps (spawn_bcast i b s)"
  "sleeps s \<Longrightarrow> sleeps (s\<lparr>nvotes := nv\<rparr>)" "sleeps s \<Longrightarrow> sleeps (s\<lparr>nvotes := nv, fresh_election := e\<rparr>)"
  "sleeps s \<Longrightarrow> sleeps (s\<lparr>tallies := tt\<rparr>)" "sleeps s \<Longrightarrow> sleeps (s\<lparr>applying := aa\<rparr>)"
  "sleeps s \<Longrightarrow> asleep_ok pc (nodes s i) \<Longrightarrow> sleeps (s\<lparr>applier := (applier s)(i := pc)\<rparr>)"
proof -
  show "sleeps (set_node i rf s)" if "sleeps s" "applyCond (nodes s i) \<le> applyCond rf"
    using that sleeps_at [OF that] by (simp add: sleeps_def)
qed (simp_all add: sleeps_def cluster_defs spawn_bcast_def Let_def)

lemma sleeps_run:
  assumes "sleeps s" and "run_thread now p s = Some (Inr s')"
  shows "sleeps s'"
proof (cases "threads s p")
  case (ElectionLoop e i T js)
  then show ?thesis using assms by (cases js) (auto simp: run_thread_def go_simps)
next
  case (VoteCall e i j ph)
  then show ?thesis
    using assms signals_grow(3) signals_grow(4) [of "nvotes s e" "nodes s i"]
    by (cases ph) (auto simp: run_thread_def go_simps Let_def intro!: sleeps_updates split: if_splits)
next
  case (StartCall i c ph)
  then show ?thesis
    using assms signals_grow(7) [of c now "nodes s i"]
    by (cases ph) (auto simp: run_thread_def Let_def split_beta intro!: sleeps_updates)
next
  case (Heartbeat i ph)
  then show ?thesis using assms by (cases ph) (auto simp: run_thread_def intro!: sleeps_updates)
next
  case (Bcast k i b ph)
  then show ?thesis using assms
    by (cases "(p, k, i, b, ph, s)" rule: run_bcast.cases) (auto simp: run_thread_def intro!: sleeps_updates)
next
  case (AppendCall k i j b ph)
  then show ?thesis
    using assms signals_grow(5) [of "int j" _ _ _ "nodes s i"] signals_grow(6) [of "int j" _ _ "nodes s i"]
    by (cases ph) (auto simp: run_thread_def go_simps Let_def intro!: sleeps_updates split: if_splits)
qed (use assms in \<open>simp add: run_thread_def\<close>)

lemma sleeps_step:
  assumes s: "sleeps s" and st: "step a s = Some (Inr s')" and log: "\<And>v. Log (nodes s v) \<noteq> []"
  shows "sleeps s'"
proof (cases a)
  case (Run now p)
  then show ?thesis using s st sleeps_run by simp
next
  case (Deliver t1 t2 p)
  then show ?thesis
    using s st
    by (auto simp: deliver_def go_simps intro!: sleeps_updates dest: signals_grow(1) [OF _ log] signals_grow(2)
        split: thread.splits vphase.splits aphase.splits)
next
  case (Lose p)
  then show ?thesis using s st
    by (auto simp: lose_def intro!: sleeps_updates split: thread.splits vphase.splits aphase.splits)
next
  case (Timeout t i)
  then show ?thesis using s st by (auto simp: Let_def signals_grow(8) intro!: sleeps_updates split: if_splits)
next
  case (Apply i)
  then show ?thesis
    using s st signals_grow(9) [of "applying s i" "nodes s i"]
    by (auto simp: go_simps intro!: sleeps_updates split: if_splits)
next
  case (Crash t i ps)
  then show ?thesis using s st
    by (auto simp: crash_def go_simps sleeps_def set_node_def split: if_splits)
qed (use s st in \<open>auto intro!: sleeps_updates split: if_splits applier_pc.splits\<close>)

lemma sleeps_reachable:
  assumes "calm_reachable n s" and "0 < n"
  shows "sleeps s"
  using assms(1)
proof (induction rule: calm_reachable.induct)
  case (calm_init ts)
  then show ?case by (simp add: sleeps_def cluster_init_def)
next
  case (calm_step s a s')
  then show ?case using sleeps_step calm_facts(2) [OF calm_step(1) assms(2)] by blast
qed

text \<open>A goroutine about to wait begins to do so, before anything is committed that it would miss.\<close>

lemma doze_all:
  assumes "calm_reachable n s" and "0 < n"
  shows "\<exists>s'. leads_to s s' \<and> nodes s' = nodes s \<and> (\<forall>v < n. applier s' v \<noteq> Drowsy)"
proof -
  have sz: "size_of s = n" by (rule calm_facts(1) [OF assms])
  have "\<exists>s'. leads_to s s' \<and> nodes s' = nodes s \<and> size_of s' = n \<and> (\<forall>v < m. applier s' v \<noteq> Drowsy)" if "m \<le> n" for m
    using that
  proof (induction m)
    case 0
    then show ?case using sz by (intro exI [of _ s]) simp
  next
    case (Suc m)
    then obtain s1 where s1: "leads_to s s1" "nodes s1 = nodes s" "size_of s1 = n" "\<forall>v < m. applier s1 v \<noteq> Drowsy" by auto
    show ?case
    proof (cases "applier s1 m = Drowsy")
      case True
      let ?s2 = "s1\<lparr>applier := (applier s1)(m := Asleep (applyCond (nodes s1 m)))\<rparr>"
      have "leads_to s1 ?s2"
        by (rule leads_step [of "Doze m"]) (use True s1(3) Suc.prems in \<open>simp_all add: calm_def\<close>)
      then show ?thesis
        using leads_trans [OF s1(1)] s1(2-4) by (intro exI [of _ ?s2]) (simp add: less_Suc_eq)
    qed (use s1 in \<open>auto simp: less_Suc_eq\<close>)
  qed
  from this [of n] show ?thesis by auto
qed

section \<open>Applying what is committed\<close>

lemma applier_frame:
  assumes "set as \<subseteq> {Wake v, Pass v, Apply v}" and "exec as s = Some s'"
  shows "calm_run as s \<and> (\<forall>a \<in> set as. undisturbed a) \<and> (\<forall>w. w \<noteq> v \<longrightarrow> nodes s' w = nodes s w \<and> applier s' w = applier s w)"
  using assms
proof (induction "as" arbitrary: s)
  case (Cons a as)
  then obtain s1 where s1: "step a s = Some (Inr s1)" "exec as s1 = Some s'" by (auto split: option.splits sum.splits)
  have "calm a s \<and> undisturbed a \<and> (\<forall>w. w \<noteq> v \<longrightarrow> nodes s1 w = nodes s w \<and> applier s1 w = applier s w)"
    using Cons.prems(1) s1(1) by (auto simp: calm_def set_node_def go_simps split: if_splits)
  then show ?case using Cons.IH [OF _ s1(2)] Cons.prems(1) s1(1) by simp
qed simp

lemma apply_one:
  assumes "calm_reachable n s" and "v < n" and "can_run s v"
  shows "\<exists>s'. leads_to s s' \<and> commitIndex (nodes s v) \<le> lastApplied (nodes s' v) \<and>
    (\<forall>w. Log (nodes s' w) = Log (nodes s w) \<and> commitIndex (nodes s' w) = commitIndex (nodes s w)) \<and>
    (\<forall>w. w \<noteq> v \<longrightarrow> nodes s' w = nodes s w \<and> applier s' w = applier s w)"
proof -
  obtain as s' where a: "set as \<subseteq> {Wake v, Pass v, Apply v}" "exec as s = Some s'"
      "commitIndex (nodes s v) \<le> lastApplied (nodes s' v)" "Log (nodes s' v) = Log (nodes s v)"
      "commitIndex (nodes s' v) = commitIndex (nodes s v)"
    using applier_catches_up [OF assms] by blast
  note fr = applier_frame [OF a(1,2)]
  then have "leads_to s s'" using a(2) unfolding leads_to_def by blast
  moreover have "Log (nodes s' w) = Log (nodes s w) \<and> commitIndex (nodes s' w) = commitIndex (nodes s w)" for w
    using fr a(4,5) by (cases "w = v") auto
  ultimately show ?thesis using a(3) fr by (intro exI [of _ s']) simp
qed

lemma apply_all:
  assumes "calm_reachable n s" and "\<forall>v < n. can_run s v"
  shows "\<exists>s'. leads_to s s' \<and> (\<forall>v < n. commitIndex (nodes s v) \<le> lastApplied (nodes s' v)) \<and>
    (\<forall>v. Log (nodes s' v) = Log (nodes s v) \<and> commitIndex (nodes s' v) = commitIndex (nodes s v))"
proof -
  have "\<exists>s'. leads_to s s' \<and> (\<forall>v < m. commitIndex (nodes s v) \<le> lastApplied (nodes s' v)) \<and>
      (\<forall>v. Log (nodes s' v) = Log (nodes s v) \<and> commitIndex (nodes s' v) = commitIndex (nodes s v)) \<and>
      (\<forall>v. m \<le> v \<longrightarrow> nodes s' v = nodes s v \<and> applier s' v = applier s v)" if "m \<le> n" for m
    using that
  proof (induction m)
    case 0
    then show ?case by (intro exI [of _ s]) simp
  next
    case (Suc m)
    then obtain s1 where s1: "leads_to s s1" "\<forall>v < m. commitIndex (nodes s v) \<le> lastApplied (nodes s1 v)"
        "\<forall>v. Log (nodes s1 v) = Log (nodes s v) \<and> commitIndex (nodes s1 v) = commitIndex (nodes s v)"
        "\<forall>v. m \<le> v \<longrightarrow> nodes s1 v = nodes s v \<and> applier s1 v = applier s v"
      by auto
    have same: "nodes s1 m = nodes s m" "applier s1 m = applier s m" using s1(4) by simp_all
    have "can_run s1 m" using assms(2) Suc.prems unfolding can_run_def same by simp
    then obtain s2 where s2: "leads_to s1 s2" "commitIndex (nodes s1 m) \<le> lastApplied (nodes s2 m)"
        "\<forall>w. Log (nodes s2 w) = Log (nodes s1 w) \<and> commitIndex (nodes s2 w) = commitIndex (nodes s1 w)"
        "\<forall>w. w \<noteq> m \<longrightarrow> nodes s2 w = nodes s1 w \<and> applier s2 w = applier s1 w"
      using apply_one [OF leads_reachable [OF s1(1) assms(1)], of m] Suc.prems by auto
    then show ?case
      using leads_trans [OF s1(1) s2(1)] s1 by (intro exI [of _ s2]) (auto simp: less_Suc_eq)
  qed
  from this [of n] show ?thesis by blast
qed

section \<open>A command\<close>

lemma leads_all_nodes: "nodes s' = nodes s \<Longrightarrow> leads_all n i T s' = leads_all n i T s"
  by (simp add: leads_all_def)

text \<open>The leader takes a command and commits it with the answers of its first broadcast.\<close>

lemma command_committed:
  assumes reach: "calm_reachable n s" and n: "2 \<le> n" and l: "leads_all n i T s" and c: "sendable c"
    and com: "\<forall>v < n. commitIndex (nodes s v) < len (Log (nodes s i))"
  shows "\<exists>s'. leads_to s s' \<and> leads_all n i T s' \<and> Log (nodes s' i) = Log (nodes s i) @ [\<lparr>Command = c, Term = T\<rparr>] \<and>
    applier s' = applier s \<and> commitIndex (nodes s' i) = len (Log (nodes s i)) \<and> applyCond (nodes s i) < applyCond (nodes s' i) \<and>
    (\<forall>j < n. j \<noteq> i \<longrightarrow> commitIndex (nodes s' j) < len (Log (nodes s i)) \<and> applyCond (nodes s j) \<le> applyCond (nodes s' j))"
proof -
  let ?L = "Log (nodes s i)"
  have i: "i < n" by (rule leads_allD(1) [OF l])
  obtain s1 b where 1: "leads_to s s1" "leads_all n i T s1" "launched i b s1"
      "b = \<lparr>bc_index = len ?L, bc_term = T, bc_commit = commitIndex (nodes s i)\<rparr>"
      "Log (nodes s1 i) = ?L @ [\<lparr>Command = c, Term = T\<rparr>]" "\<forall>v. v \<noteq> i \<longrightarrow> nodes s1 v = nodes s v"
      "commitIndex (nodes s1 i) = commitIndex (nodes s i)" "applyCond (nodes s1 i) = applyCond (nodes s i)" "applier s1 = applier s"
    using start_push [OF reach l c] by blast
  have push: "pushing n i b s1" using 1(2,4,5) com i by (auto simp: pushing_def)
  have can: "can_commit b (nodes s1 i)" using 1(4,5,7) com i leads_allD(3) [OF 1(2)] by (simp add: can_commit_def)
  obtain s2 where 2: "leads_to s1 s2" "leads_all n i (bc_term b) s2" "Log (nodes s2 i) = Log (nodes s1 i)"
      "\<forall>j < n. j \<noteq> i \<longrightarrow> caught_up b (Log (nodes s1 i)) (nodes s1 j) (nodes s2 j)" "applier s2 = applier s1"
      "commitIndex (nodes s2 i) = bc_index b" "applyCond (nodes s2 i) = applyCond (nodes s1 i) + 1"
    using push_broadcast [OF leads_reachable [OF 1(1) reach] n push 1(3)] can by auto
  have "commitIndex (nodes s2 j) < len ?L \<and> applyCond (nodes s j) \<le> applyCond (nodes s2 j)" if "j < n" "j \<noteq> i" for j
    using 2(4) that com i 1(4,6) by (simp add: caught_up_def)
  then show ?thesis
    using leads_trans [OF 1(1) 2(1)] 1(4,5,8,9) 2(2,3,5-7) by (intro exI [of _ s2]) simp
qed

text \<open>A heartbeat tells the others.\<close>

lemma commit_spread:
  assumes reach: "calm_reachable n s" and n: "2 \<le> n" and l: "leads_all n i T s"
    and com: "commitIndex (nodes s i) = len (Log (nodes s i)) - 1"
      "\<forall>j < n. j \<noteq> i \<longrightarrow> commitIndex (nodes s j) < len (Log (nodes s i)) - 1"
  shows "\<exists>s'. leads_to s s' \<and> applier s' = applier s \<and> applyCond (nodes s i) \<le> applyCond (nodes s' i) \<and>
    (\<forall>j < n. j \<noteq> i \<longrightarrow> applyCond (nodes s j) < applyCond (nodes s' j)) \<and>
    (\<forall>v < n. commitIndex (nodes s' v) = len (Log (nodes s i)) - 1 \<and>
       take (length (Log (nodes s i))) (Log (nodes s' v)) = Log (nodes s i))"
proof -
  let ?L = "Log (nodes s i)"
  have i: "i < n" by (rule leads_allD(1) [OF l])
  have L: "?L \<noteq> []" using calm_facts(2) [OF reach] i by simp
  obtain s1 b where 1: "leads_to s s1" "leads_all n i T s1" "launched i b s1"
      "b = \<lparr>bc_index = len ?L - 1, bc_term = T, bc_commit = commitIndex (nodes s i)\<rparr>" "Log (nodes s1 i) = ?L"
      "\<forall>v. v \<noteq> i \<longrightarrow> nodes s1 v = nodes s v" "commitIndex (nodes s1 i) = commitIndex (nodes s i)"
      "applyCond (nodes s1 i) = applyCond (nodes s i)" "applier s1 = applier s"
    using beat_push [OF reach l] by blast
  have push: "pushing n i b s1" using 1(2,4,5) com(1) L by (simp add: pushing_def Suc_le_eq)
  have can: "\<not> can_commit b (nodes s1 i)" using 1(4,7) com(1) by (simp add: can_commit_def)
  obtain s2 where 2: "leads_to s1 s2" "Log (nodes s2 i) = ?L"
      "\<forall>j < n. j \<noteq> i \<longrightarrow> caught_up b ?L (nodes s j) (nodes s2 j)" "applier s2 = applier s"
      "commitIndex (nodes s2 i) = len ?L - 1" "applyCond (nodes s2 i) = applyCond (nodes s i)"
    using push_broadcast [OF leads_reachable [OF 1(1) reach] n push 1(3)] can 1(5-9) com(1) by auto
  have j: "commitIndex (nodes s2 j) = len ?L - 1" "take (length ?L) (Log (nodes s2 j)) = ?L"
      "applyCond (nodes s j) < applyCond (nodes s2 j)" if "j < n" "j \<noteq> i" for j
    using 2(3) that 1(4) com by (simp_all add: caught_up_def)
  have "commitIndex (nodes s2 v) = len ?L - 1 \<and> take (length ?L) (Log (nodes s2 v)) = ?L" if "v < n" for v
    using j(1,2) [of v] 2(2,5) that by (cases "v = i") auto
  then show ?thesis using leads_trans [OF 1(1) 2(1)] 2(4,6) j(3) by (intro exI [of _ s2]) simp
qed

lemma woken:
  "asleep_ok pc rf \<Longrightarrow> pc \<noteq> Drowsy \<Longrightarrow> applier s v = pc \<Longrightarrow> applyCond rf < applyCond (nodes s v) \<Longrightarrow> can_run s v"
  by (cases pc) (auto simp: can_run_def)

lemma applied_command:
  assumes reach: "calm_reachable n s" and v: "v < n" and k: "0 < k" "int k \<le> commitIndex (nodes s v)" "int k \<le> lastApplied (nodes s v)"
  shows "\<exists>msg \<in> set (applyCh (nodes s v)). CommandIndex msg = int k \<and> Command_msg msg = Command (Log (nodes s v) ! k)"
proof -
  have n: "0 < n" using v by simp
  obtain x ow C where sim: "sim n s x ow C" by (rule sim_reachable [OF reach n])
  obtain msg where m: "msg \<in> set (applyCh (nodes s v))" "CommandIndex msg = int k"
    using applied_msg [OF reach, of "int k" v] k by auto
  then obtain e where e: "decided n x k e" "Command_msg msg = Command e"
    using simD(4) [OF sim, of v] v unfolding applied_ok_def by (metis of_nat_eq_iff)
  have "int k \<le> p_commit x v" using k(2) sim_peer(4) [OF sim, of v] by simp
  then have "decided n x k (Log (nodes s v) ! k)"
    using decided_log [OF simD(2) [OF sim] v] sim_peer(3) [OF sim, of v] by simp
  then have "e = Log (nodes s v) ! k" using decided_unique [OF simD(2) [OF sim] e(1)] by blast
  then show ?thesis using m e(2) by blast
qed

section \<open>Properties\<close>


end
