(* ===== verification/Go_Slices.thy ===== *)
theory Go_Slices
  imports Prelude
begin

text \<open>
  Go's slices with the arrays they share. Elsewhere in the development a slice is the list of its elements; here
  a store holds arrays by address, and a slice is a window into one: its array, its offset, its length and its
  capacity. \<^verbatim>\<open>append\<close> writes into the array when the capacity suffices, and else copies to a new array, whose
  capacity the run-time system chooses: it is a parameter, with the locale \<open>growth\<close> as its contract.

  Shown: what the operations do to the elements of the slice they are given, and to those of every other slice.
\<close>

section \<open>Stores and slices\<close>

record 'a store =
  arrays :: "nat \<Rightarrow> 'a list"
  fresh :: nat

record slice =
  array :: nat
  offset :: nat
  slen :: nat
  scap :: nat

definition deref :: "'a store \<Rightarrow> slice \<Rightarrow> 'a list" where
  "deref st s = take (slen s) (drop (offset s) (arrays st (array s)))"

definition slice_ok :: "'a store \<Rightarrow> slice \<Rightarrow> bool" where
  "slice_ok st s \<longleftrightarrow>
     array s < fresh st \<and> slen s \<le> scap s \<and> offset s + scap s \<le> length (arrays st (array s))"

definition new_array :: "'a list \<Rightarrow> nat \<Rightarrow> 'a store \<Rightarrow> slice \<times> 'a store" where
  "new_array xs n st =
     (\<lparr>array = fresh st, offset = 0, slen = n, scap = length xs\<rparr>,
      st\<lparr>arrays := (arrays st)(fresh st := xs), fresh := fresh st + 1\<rparr>)"

text \<open>The expression \<^verbatim>\<open>s[lo:hi]\<close>, which is checked against the capacity.\<close>

definition slice_expr :: "slice \<Rightarrow> int \<Rightarrow> int \<Rightarrow> slice result" where
  "slice_expr s lo hi =
     (if 0 \<le> lo \<and> lo \<le> hi \<and> hi \<le> int (scap s)
      then Inr \<lparr>array = array s, offset = offset s + nat lo, slen = nat (hi - lo), scap = scap s - nat lo\<rparr>
      else Inl (SliceBounds lo hi))"

definition overwrite :: "nat \<Rightarrow> 'a list \<Rightarrow> 'a list \<Rightarrow> 'a list" where
  "overwrite i xs ys = take i ys @ xs @ drop (i + length xs) ys"

text \<open>
  \<^verbatim>\<open>append(s, xs...)\<close>; \<open>grow\<close> gives the capacity of a new array from the old capacity and the length that is
  needed, \<open>z\<close> is the zero value that fills it.
\<close>

definition append_slice :: "(nat \<Rightarrow> nat \<Rightarrow> nat) \<Rightarrow> 'a \<Rightarrow> slice \<Rightarrow> 'a list \<Rightarrow> 'a store \<Rightarrow> slice \<times> 'a store" where
  "append_slice grow z s xs st =
     (let n = slen s + length xs in
      if n \<le> scap s
      then (s\<lparr>slen := n\<rparr>,
            st\<lparr>arrays := (arrays st)(array s := overwrite (offset s + slen s) xs (arrays st (array s)))\<rparr>)
      else new_array (deref st s @ xs @ replicate (grow (scap s) n - n) z) n st)"

section \<open>Elements\<close>

lemma length_deref [simp]: "slice_ok st s \<Longrightarrow> length (deref st s) = slen s"
  by (auto simp: deref_def slice_ok_def)

lemma length_overwrite [simp]: "i + length xs \<le> length ys \<Longrightarrow> length (overwrite i xs ys) = length ys"
  by (simp add: overwrite_def)

lemma nth_overwrite:
  assumes "i + length xs \<le> length ys" and "k < length ys"
  shows "overwrite i xs ys ! k = (if i \<le> k \<and> k < i + length xs then xs ! (k - i) else ys ! k)"
  using assms by (auto simp: overwrite_def nth_append)

lemma nth_deref: "slice_ok st s \<Longrightarrow> k < slen s \<Longrightarrow> deref st s ! k = arrays st (array s) ! (offset s + k)"
  by (simp add: deref_def slice_ok_def)

lemma slice_expr_ok:
  assumes "slice_expr s lo hi = Inr r" and "slice_ok st s"
  shows "slice_ok st r \<and> array r = array s \<and> int (offset r + slen r) = int (offset s) + hi"
proof -
  have "0 \<le> lo" "lo \<le> hi" "hi \<le> int (scap s)"
    and r: "r = \<lparr>array = array s, offset = offset s + nat lo, slen = nat (hi - lo), scap = scap s - nat lo\<rparr>"
    using assms(1) by (auto simp: slice_expr_def split: if_splits)
  then show ?thesis using assms(2) by (auto simp: slice_ok_def r)
qed

text \<open>Within the length, the expression yields the elements that \<open>go_slice\<close> yields of the list.\<close>

lemma slice_expr_deref:
  assumes "slice_ok st s" and "go_slice (deref st s) lo hi = Inr ys"
  shows "\<exists>r. slice_expr s lo hi = Inr r \<and> deref st r = ys"
proof -
  have b: "0 \<le> lo" "lo \<le> hi" "hi \<le> int (slen s)" and ys: "ys = take (nat (hi - lo)) (drop (nat lo) (deref st s))"
    using assms by (auto simp: go_slice_Inr)
  have "min (nat (hi - lo)) (slen s - nat lo) = nat (hi - lo)" using b by linarith
  then have "ys = take (nat (hi - lo)) (drop (offset s + nat lo) (arrays st (array s)))"
    by (simp add: ys deref_def drop_take add.commute)
  moreover have "hi \<le> int (scap s)" using b(3) assms(1) by (simp add: slice_ok_def)
  ultimately show ?thesis using b by (simp add: slice_expr_def deref_def)
qed

lemma new_array_deref:
  assumes "n \<le> length xs"
  shows "deref (snd (new_array xs n st)) (fst (new_array xs n st)) = take n xs \<and>
    slice_ok (snd (new_array xs n st)) (fst (new_array xs n st))"
  using assms by (simp add: new_array_def deref_def slice_ok_def)

lemma new_array_frame:
  assumes "slice_ok st r"
  shows "deref (snd (new_array xs n st)) r = deref st r \<and> slice_ok (snd (new_array xs n st)) r"
  using assms by (auto simp: new_array_def deref_def slice_ok_def)

text \<open>The part of an array that \<^verbatim>\<open>append\<close> writes, and the slices that can see it.\<close>

definition clear_of :: "slice \<Rightarrow> nat \<Rightarrow> slice \<Rightarrow> bool" where
  "clear_of s n r \<longleftrightarrow> array r \<noteq> array s \<or> offset r + slen r \<le> offset s + slen s \<or> offset s + slen s + n \<le> offset r"

lemma append_in_place:
  assumes ok: "slice_ok st s" and n: "slen s + length xs \<le> scap s" and a: "append_slice grow z s xs st = (s', st')"
  shows "s' = s\<lparr>slen := slen s + length xs\<rparr>" "slice_ok st r \<Longrightarrow> slice_ok st' r"
    "slice_ok st r \<Longrightarrow> array r = array s \<Longrightarrow> k < slen r \<Longrightarrow> deref st' r ! k =
      (let j = offset r + k in if offset s + slen s \<le> j \<and> j < offset s + slen s + length xs
       then xs ! (j - (offset s + slen s)) else deref st r ! k)"
    "slice_ok st r \<Longrightarrow> array r \<noteq> array s \<Longrightarrow> deref st' r = deref st r"
proof -
  let ?ys = "arrays st (array s)" and ?i = "offset s + slen s"
  have st': "st' = st\<lparr>arrays := (arrays st)(array s := overwrite ?i xs ?ys)\<rparr>"
    and s': "s' = s\<lparr>slen := slen s + length xs\<rparr>"
    using a n by (simp_all add: append_slice_def Let_def)
  show "s' = s\<lparr>slen := slen s + length xs\<rparr>" by (rule s')
  have b: "?i + length xs \<le> length ?ys" using ok n by (simp add: slice_ok_def)
  show ok': "slice_ok st' r" if "slice_ok st r" for r using that b by (auto simp: slice_ok_def st')
  show "deref st' r = deref st r" if "slice_ok st r" "array r \<noteq> array s" using that by (simp add: deref_def st')
  show "deref st' r ! k = (let j = offset r + k in if ?i \<le> j \<and> j < ?i + length xs then xs ! (j - ?i) else deref st r ! k)"
    if r: "slice_ok st r" "array r = array s" "k < slen r"
    using r b nth_overwrite [OF b, of "offset r + k"]
    by (simp add: nth_deref [OF ok'] nth_deref st' Let_def slice_ok_def)
qed

lemma append_frame:
  assumes ok: "slice_ok st s" and r: "slice_ok st r" "clear_of s (length xs) r"
    and a: "append_slice grow z s xs st = (s', st')"
  shows "deref st' r = deref st r \<and> slice_ok st' r"
proof (cases "slen s + length xs \<le> scap s")
  case True
  note p = append_in_place [OF ok True a]
  have "deref st' r = deref st r"
  proof (cases "array r = array s")
    case same: True
    have "deref st' r ! k = deref st r ! k" if "k < slen r" for k
      using p(3) [OF r(1) same that] r(2) that same by (auto simp: clear_of_def Let_def)
    then show ?thesis using r(1) p(2) [OF r(1)] by (intro nth_equalityI) simp_all
  qed (use p(4) r in blast)
  then show ?thesis using p(2) [OF r(1)] by blast
next
  case False
  then show ?thesis using a new_array_frame [OF r(1)] by (simp add: append_slice_def Let_def) (metis sndI)
qed

text \<open>What the run-time system promises of the capacity it chooses.\<close>

locale growth =
  fixes grow :: "nat \<Rightarrow> nat \<Rightarrow> nat"
  assumes enough: "n \<le> grow c n"
begin

lemma append_deref:
  assumes ok: "slice_ok st s" and a: "append_slice grow z s xs st = (s', st')"
  shows "deref st' s' = deref st s @ xs \<and> slice_ok st' s'"
proof (cases "slen s + length xs \<le> scap s")
  case True
  note p = append_in_place [OF ok True a]
  have ok': "slice_ok st s'" using ok True by (simp add: p(1) slice_ok_def)
  have "deref st' s' ! k = (deref st s @ xs) ! k" if "k < slen s'" for k
    using p(3) [OF ok', of k] that ok nth_deref [OF ok'] nth_deref [OF ok]
    by (auto simp: p(1) nth_append Let_def)
  then show ?thesis using ok p(1) p(2) [OF ok'] by (auto intro!: nth_equalityI)
next
  case False
  let ?n = "slen s + length xs"
  have "length (deref st s @ xs @ replicate (grow (scap s) ?n - ?n) z) \<ge> ?n" using ok by simp
  from new_array_deref [OF this, of st] show ?thesis using a False ok by (simp add: append_slice_def Let_def)
qed

end

text \<open>Doubling, as Go does for small slices, and a quarter more for larger ones, before rounding up.\<close>

definition go_grow :: "nat \<Rightarrow> nat \<Rightarrow> nat" where
  "go_grow c n = (if 2 * c < n then n else if c < 1024 then 2 * c else max n (c + c div 4))"

interpretation go: growth go_grow
  by unfold_locales (simp add: go_grow_def)

end
