(* ===== verification/Raft_Slices.thy ===== *)
theory Raft_Slices
  imports Raft_Leader Go_Slices
begin

text \<open>
  The log of a peer as the program has it: a slice, whose array the requests of the peer share
  (\<^verbatim>\<open>src/src/raft/raft.go\<close>). A request that \<^verbatim>\<open>broadcastAppendEntries\<close> builds under the mutex holds the slice
  \<^verbatim>\<open>rf.Log[nextIndex:index+1]\<close>, and is encoded only after the mutex is released (\<open>sent\<close>). The other theories
  take the entries at the moment the request is built.

  Shown: on the elements, the operations do what the definitions on lists say; commands that the leader
  appends never change a request; but a request changes when the peer, no longer leader, replaces its log in
  place, and the request then spoils the log of its receiver.
\<close>

section \<open>A peer in memory\<close>

text \<open>The field \<open>Log\<close> of \<open>peer\<close> is not used: the log is what \<open>mlog\<close> sees of the store.\<close>

record mem_peer =
  peer :: Raft
  mlog :: slice
  mem :: "LogEntry store"

definition view :: "mem_peer \<Rightarrow> Raft" where
  "view m = (peer m)\<lparr>Log := deref (mem m) (mlog m)\<rparr>"

definition mem_ok :: "mem_peer \<Rightarrow> bool" where
  "mem_ok m \<longleftrightarrow> slice_ok (mem m) (mlog m)"

definition zero_entry :: LogEntry where
  "zero_entry = \<lparr>Command = None, Term = 0\<rparr>"

definition make_log :: "(nat \<Rightarrow> nat \<Rightarrow> nat) \<Rightarrow> LogEntry store \<Rightarrow> slice \<times> LogEntry store" where
  "make_log grow st = (let (s, st) = new_array [] 0 st in append_slice grow zero_entry s [zero_entry] st)"

definition start_mem :: "(nat \<Rightarrow> nat \<Rightarrow> nat) \<Rightarrow> interface \<Rightarrow> int \<Rightarrow> mem_peer \<Rightarrow> mem_peer \<times> int" where
  "start_mem grow command now m =
     (let (rf, index) = start_append command now (view m);
          logEntry = \<lparr>Command = command, Term = CurrentTerm (peer m)\<rparr>;
          (l, st) = append_slice grow zero_entry (mlog m) [logEntry] (mem m)
      in (m\<lparr>peer := rf, mlog := l, mem := st\<rparr>, index))"

definition replicate_mem ::
  "(nat \<Rightarrow> nat \<Rightarrow> nat) \<Rightarrow> AppendEntriesArgs \<Rightarrow> slice \<Rightarrow> LogEntry store \<Rightarrow> (slice \<times> LogEntry store) result" where
  "replicate_mem grow args l st =
     (let next = PrevLogIndex args + 1 in
      bindE (match_loop (deref st l) next (Entries args))
        (\<lambda>isMatch. if isMatch then Inr (l, st)
           else bindE (slice_expr l 0 next) (\<lambda>p. Inr (append_slice grow zero_entry p (Entries args) st))))"

text \<open>The handler: the log is replaced in memory when the request is accepted.\<close>

definition AppendEntries_mem ::
  "(nat \<Rightarrow> nat \<Rightarrow> nat) \<Rightarrow> tick \<Rightarrow> tick \<Rightarrow> AppendEntriesArgs \<Rightarrow> mem_peer \<Rightarrow> (mem_peer \<times> AppendEntriesReply) result" where
  "AppendEntries_mem grow t1 t2 args m =
     bindE (AppendEntries t1 t2 args (view m)) (\<lambda>(rf, reply).
       if Success reply
       then bindE (replicate_mem grow args (mlog m) (mem m)) (\<lambda>(l, st).
              Inr (m\<lparr>peer := rf, mlog := l, mem := st\<rparr>, reply))
       else Inr (m\<lparr>peer := rf\<rparr>, reply))"

record request =
  req_args :: AppendEntriesArgs
  req_entries :: slice

definition build_mem :: "int \<Rightarrow> broadcast \<Rightarrow> mem_peer \<Rightarrow> (request \<times> int) result" where
  "build_mem i b m =
     bindE (go_index (nextIndex (peer m)) i) (\<lambda>next.
       let prevLogIndex = next - 1 in
       bindE (go_index (deref (mem m) (mlog m)) prevLogIndex) (\<lambda>e.
         bindE (if next < bc_index b + 1 then slice_expr (mlog m) next (bc_index b + 1)
                else Inr \<lparr>array = array (mlog m), offset = 0, slen = 0, scap = 0\<rparr>)
           (\<lambda>entries.
             Inr (\<lparr>req_args = \<lparr>ae_Term = bc_term b, LeaderId = me (peer m), PrevLogIndex = prevLogIndex,
                                 PrevLogTerm = Term e, Entries = [], LeaderCommit = bc_commit b\<rparr>,
                   req_entries = entries\<rparr>, next))))"

text \<open>What goes out when the request is encoded in the store of that moment.\<close>

definition sent :: "LogEntry store \<Rightarrow> request \<Rightarrow> AppendEntriesArgs" where
  "sent st req = (req_args req)\<lparr>Entries := deref st (req_entries req)\<rparr>"

fun starts_mem :: "(nat \<Rightarrow> nat \<Rightarrow> nat) \<Rightarrow> (interface \<times> int) list \<Rightarrow> mem_peer \<Rightarrow> mem_peer" where
  "starts_mem grow [] m = m"
| "starts_mem grow ((command, now) # cs) m = starts_mem grow cs (fst (start_mem grow command now m))"

section \<open>Refinement\<close>

lemma AppendEntries_log:
  assumes "AppendEntries t1 t2 args rf = Inr (rf', reply)"
  shows "if Success reply then replicate_entries args (Log rf) = Inr (Log rf') else Log rf' = Log rf"
  using assms
  by (auto simp: AppendEntries_def ae_accept_def ae_newer_term_def advance_commit_def raft_defs bindE_Inr_iff
      Let_def split: if_splits)

lemma build_mem_sent:
  assumes ok: "mem_ok m" and b: "build_args i b (view m) = Inr (args, next)"
  shows "\<exists>req. build_mem i b m = Inr (req, next) \<and> sent (mem m) req = args"
proof -
  let ?log = "deref (mem m) (mlog m)"
  have v: "Log (view m) = ?log" "nextIndex (view m) = nextIndex (peer m)" "me (view m) = me (peer m)"
    by (simp_all add: view_def)
  obtain e entries where n: "go_index (nextIndex (peer m)) i = Inr next" and e: "go_index ?log (next - 1) = Inr e"
      and es: "(if next < bc_index b + 1 then go_slice ?log next (bc_index b + 1) else Inr []) = Inr entries"
      and args: "args = \<lparr>ae_Term = bc_term b, LeaderId = me (peer m), PrevLogIndex = next - 1, PrevLogTerm = Term e,
        Entries = entries, LeaderCommit = bc_commit b\<rparr>"
    using b unfolding build_args_def v by (auto simp: bindE_Inr_iff Let_def)
  have "\<exists>s. (if next < bc_index b + 1 then slice_expr (mlog m) next (bc_index b + 1)
      else Inr \<lparr>array = array (mlog m), offset = 0, slen = 0, scap = 0\<rparr>) = Inr s \<and> deref (mem m) s = entries"
    using es slice_expr_deref [of "mem m" "mlog m" "next" "bc_index b + 1" entries] ok
    by (auto simp: mem_ok_def deref_def split: if_splits)
  then show ?thesis using n e args by (auto simp: build_mem_def sent_def Let_def)
qed

context growth
begin

lemma start_mem_refines:
  assumes "mem_ok m" and "start_mem grow command now m = (m', index)"
  shows "mem_ok m' \<and> start_append command now (view m) = (view m', index)"
proof -
  let ?e = "\<lparr>Command = command, Term = CurrentTerm (peer m)\<rparr>"
  obtain l st where a: "append_slice grow zero_entry (mlog m) [?e] (mem m) = (l, st)" by fastforce
  have "deref st l = deref (mem m) (mlog m) @ [?e] \<and> slice_ok st l"
    using append_deref [OF _ a] assms(1) by (simp add: mem_ok_def)
  then show ?thesis
    using assms(2) a
    by (auto simp: start_mem_def mem_ok_def view_def start_append_def raft_defs Let_def)
qed

lemma replicate_mem_refines:
  assumes ok: "slice_ok st l" and r: "replicate_entries args (deref st l) = Inr log"
  shows "\<exists>l' st'. replicate_mem grow args l st = Inr (l', st') \<and> deref st' l' = log \<and> slice_ok st' l'"
proof -
  let ?next = "PrevLogIndex args + 1"
  obtain isMatch where m: "match_loop (deref st l) ?next (Entries args) = Inr isMatch"
    using r by (auto simp: replicate_entries_def bindE_Inr_iff Let_def)
  show ?thesis
  proof (cases isMatch)
    case False
    then obtain prefix where p: "go_slice (deref st l) 0 ?next = Inr prefix" "log = prefix @ Entries args"
      using r m by (auto simp: replicate_entries_def bindE_Inr_iff Let_def)
    then obtain s where s: "slice_expr l 0 ?next = Inr s" "deref st s = prefix" using slice_expr_deref [OF ok] by blast
    obtain l' st' where a: "append_slice grow zero_entry s (Entries args) st = (l', st')" by fastforce
    have "deref st' l' = log \<and> slice_ok st' l'"
      using append_deref [OF _ a] slice_expr_ok [OF s(1) ok] s(2) p(2) by simp
    then show ?thesis using m s a False by (simp add: replicate_mem_def Let_def)
  qed (use r m ok in \<open>simp add: replicate_entries_def replicate_mem_def Let_def\<close>)
qed

lemma AppendEntries_mem_refines:
  assumes ok: "mem_ok m" and a: "AppendEntries t1 t2 args (view m) = Inr (rf, reply)"
  shows "\<exists>m'. AppendEntries_mem grow t1 t2 args m = Inr (m', reply) \<and> view m' = rf \<and> mem_ok m'"
proof (cases "Success reply")
  case True
  then have "replicate_entries args (deref (mem m) (mlog m)) = Inr (Log rf)"
    using AppendEntries_log [OF a] by (simp add: view_def)
  then obtain l st where "replicate_mem grow args (mlog m) (mem m) = Inr (l, st)" "deref st l = Log rf" "slice_ok st l"
    using replicate_mem_refines ok unfolding mem_ok_def by blast
  then show ?thesis using a True by (simp add: AppendEntries_mem_def view_def mem_ok_def)
next
  case False
  then have "Log rf = deref (mem m) (mlog m)" using AppendEntries_log [OF a] by (simp add: view_def)
  then show ?thesis using a False ok by (simp add: AppendEntries_mem_def view_def mem_ok_def)
qed

end

section \<open>Requests in flight\<close>

text \<open>The request does not reach beyond the log: what is appended to the log lies outside it.\<close>

definition behind :: "mem_peer \<Rightarrow> slice \<Rightarrow> bool" where
  "behind m r \<longleftrightarrow> slice_ok (mem m) r \<and>
     (array r \<noteq> array (mlog m) \<or> offset r + slen r \<le> offset (mlog m) + slen (mlog m))"

lemma start_mem_behind:
  assumes ok: "mem_ok m" and r: "behind m r"
  shows "deref (mem (fst (start_mem grow command now m))) r = deref (mem m) r \<and>
    behind (fst (start_mem grow command now m)) r"
proof -
  let ?e = "\<lparr>Command = command, Term = CurrentTerm (peer m)\<rparr>"
  obtain l st where a: "append_slice grow zero_entry (mlog m) [?e] (mem m) = (l, st)" by fastforce
  then have m': "mem (fst (start_mem grow command now m)) = st" "mlog (fst (start_mem grow command now m)) = l"
    by (simp_all add: start_mem_def Let_def split_beta)
  have "clear_of (mlog m) (length [?e]) r" using r by (auto simp: behind_def clear_of_def)
  from append_frame [OF _ _ this a] have f: "deref st r = deref (mem m) r" "slice_ok st r"
    using ok r by (simp_all add: mem_ok_def behind_def)
  have "array r \<noteq> array l \<or> offset r + slen r \<le> offset l + slen l"
  proof (cases "slen (mlog m) + 1 \<le> scap (mlog m)")
    case True
    then have "l = (mlog m)\<lparr>slen := slen (mlog m) + 1\<rparr>" using a by (simp add: append_slice_def Let_def)
    then show ?thesis using r by (auto simp: behind_def)
  next
    case False
    then have "array l = fresh (mem m)" using a by (auto simp: append_slice_def new_array_def Let_def)
    then show ?thesis using r by (auto simp: behind_def slice_ok_def)
  qed
  then show ?thesis using f m' by (simp add: behind_def)
qed

lemma build_mem_behind:
  assumes ok: "mem_ok m" and b: "build_mem i b m = Inr (req, next)" and "bc_index b < len (deref (mem m) (mlog m))"
  shows "deref (mem m) (req_entries req) = [] \<and> slen (req_entries req) = 0 \<or> behind m (req_entries req)"
proof -
  from b have "slice_expr (mlog m) next (bc_index b + 1) = Inr (req_entries req) \<or> slen (req_entries req) = 0"
    by (auto simp: build_mem_def bindE_Inr_iff Let_def split: if_splits)
  then show ?thesis
  proof
    assume s: "slice_expr (mlog m) next (bc_index b + 1) = Inr (req_entries req)"
    have l: "slice_ok (mem m) (mlog m)" using ok by (simp add: mem_ok_def)
    have "behind m (req_entries req)" using slice_expr_ok [OF s l] assms(3) l by (simp add: behind_def)
    then show ?thesis ..
  qed (simp add: deref_def)
qed

context growth
begin

lemma starts_mem_behind:
  "mem_ok m \<Longrightarrow> behind m r \<Longrightarrow> deref (mem (starts_mem grow cs m)) r = deref (mem m) r"
proof (induction cs arbitrary: m)
  case (Cons c cs)
  obtain command now where c: "c = (command, now)" by fastforce
  have "mem_ok (fst (start_mem grow command now m))"
    using start_mem_refines [OF Cons.prems(1)] by (metis prod.collapse)
  then show ?case using Cons start_mem_behind [OF Cons.prems] c by simp
qed simp

end

section \<open>A sample peer\<close>

definition cmd :: "int \<Rightarrow> int \<Rightarrow> LogEntry" where
  "cmd v t = \<lparr>Command = Some (TInt, VInt v), Term = t\<rparr>"

text \<open>A leader of term 1 among five peers, with two commands in its log; peer 1 lacks the second.\<close>

definition sample_mem :: mem_peer where
  "sample_mem =
     (let rf = projr (Make [''a'', ''b'', ''c'', ''d'', ''e''] 0 MakePersister (0, 0));
          rf = rf\<lparr>CurrentTerm := 1, state := Leader, nextIndex := [2, 2, 1, 1, 1]\<rparr>;
          (l, st) = make_log go_grow \<lparr>arrays = \<lambda>_. [], fresh = 0\<rparr>
      in starts_mem go_grow [(Some (TInt, VInt 7), 0), (Some (TInt, VInt 8), 0)] \<lparr>peer = rf, mlog = l, mem = st\<rparr>)"

definition sample_bcast :: broadcast where
  "sample_bcast = \<lparr>bc_index = 2, bc_term = 1, bc_commit = 0\<rparr>"

definition sample_request :: request where
  "sample_request = fst (projr (build_mem 1 sample_bcast sample_mem))"

text \<open>A follower of term 1 that has the first command, and a request of the leader of term 2.\<close>

definition sample_receiver :: Raft where
  "sample_receiver = (projr (Make [''a'', ''b'', ''c'', ''d'', ''e''] 1 MakePersister (0, 0)))
     \<lparr>CurrentTerm := 1, Log := [zero_entry, cmd 7 1]\<rparr>"

definition sample_new_leader :: AppendEntriesArgs where
  "sample_new_leader = \<lparr>ae_Term = 2, LeaderId = 2, PrevLogIndex = 0, PrevLogTerm = 0,
     Entries = [cmd 5 2, cmd 6 2], LeaderCommit = 0\<rparr>"

lemma sample_mem_ok: "mem_ok sample_mem"
  by code_simp

lemma sample_built: "build_mem 1 sample_bcast sample_mem = Inr (sample_request, 2)"
proof -
  have "case build_mem 1 sample_bcast sample_mem of Inl _ \<Rightarrow> False | Inr (r, n) \<Rightarrow> n = 2" by code_simp
  then show ?thesis by (auto simp: sample_request_def split: sum.splits)
qed

section \<open>Properties\<close>

text \<open>
  C21. The log in memory refines the log as a list, whatever capacities the run-time system chooses: the handler,
  the appending section of \<^verbatim>\<open>Start\<close> and the building of a request have on a peer in memory the results that the
  definitions on lists have on the elements of its log, and keep the log a valid slice of the store.
\<close>

theorem memory_refines_lists:
  assumes "growth grow" and "mem_ok m"
  shows "(AppendEntries t1 t2 args (view m) = Inr (rf, reply) \<longrightarrow>
      (\<exists>m'. AppendEntries_mem grow t1 t2 args m = Inr (m', reply) \<and> view m' = rf \<and> mem_ok m')) \<and>
    (start_mem grow command now m = (m1, index) \<longrightarrow>
      start_append command now (view m) = (view m1, index) \<and> mem_ok m1) \<and>
    (build_args i b (view m) = Inr (args', next) \<longrightarrow>
      (\<exists>req. build_mem i b m = Inr (req, next) \<and> sent (mem m) req = args'))"
  using growth.AppendEntries_mem_refines [OF assms] growth.start_mem_refines [OF assms] build_mem_sent [OF assms(2)]
  by blast

theorem memory_refines_lists_witness:
  "\<exists>m1. start_mem go_grow None 3 sample_mem = (m1, 3) \<and> start_append None 3 (view sample_mem) = (view m1, 3) \<and> mem_ok m1"
proof -
  obtain m1 index where m1: "start_mem go_grow None 3 sample_mem = (m1, index)" by fastforce
  have "snd (start_mem go_grow None 3 sample_mem) = 3" by code_simp
  then have "index = 3" using m1 by simp
  then show ?thesis using memory_refines_lists [OF go.growth_axioms sample_mem_ok] m1 by blast
qed

text \<open>
  C22. Commands that a leader appends never change a request: a request for entries of the log that is built at
  some moment has the same content when it is encoded after any number of calls of \<^verbatim>\<open>Start\<close>, although they
  write to the array that it shares.
\<close>

theorem starts_keep_requests:
  assumes "growth grow" and "mem_ok m" and "build_mem i b m = Inr (req, next)"
    and "bc_index b < len (deref (mem m) (mlog m))"
  shows "sent (mem (starts_mem grow cs m)) req = sent (mem m) req"
proof -
  have "deref (mem (starts_mem grow cs m)) (req_entries req) = deref (mem m) (req_entries req)"
    using build_mem_behind [OF assms(2-4)] growth.starts_mem_behind [OF assms(1,2)] by (auto simp: deref_def)
  then show ?thesis by (simp add: sent_def)
qed

theorem starts_keep_requests_witness:
  "Entries (sent (mem (starts_mem go_grow [(None, 1), (None, 2)] sample_mem)) sample_request) = [cmd 8 1]"
proof -
  have "bc_index sample_bcast < len (deref (mem sample_mem) (mlog sample_mem))" by code_simp
  moreover have "Entries (sent (mem sample_mem) sample_request) = [cmd 8 1]" by code_simp
  ultimately show ?thesis using starts_keep_requests [OF go.growth_axioms sample_mem_ok sample_built] by metis
qed

text \<open>
  C23. A request changes in flight. The leader of term 1 builds a request with its second command for peer 1 and
  releases the mutex; before the request is encoded, it accepts a request of the leader of term 2, which replaces
  its log in place. The old request now carries an entry of term 2 after a first entry of term 1; a peer that is
  still in term 1 accepts it, and its log and the log of the new leader have entries of the same term at index 2
  after different entries at index 1: log matching is broken.
\<close>

theorem request_torn:
  "\<exists>req m' reply q' reply'. build_mem 1 sample_bcast sample_mem = Inr (req, 2) \<and>
     sent (mem sample_mem) req = \<lparr>ae_Term = 1, LeaderId = 0, PrevLogIndex = 1, PrevLogTerm = 1, Entries = [cmd 8 1],
       LeaderCommit = 0\<rparr> \<and>
     AppendEntries_mem go_grow (1, 0) (1, 0) sample_new_leader sample_mem = Inr (m', reply) \<and> Success reply \<and>
     Log (view m') = [zero_entry, cmd 5 2, cmd 6 2] \<and>
     sent (mem m') req = \<lparr>ae_Term = 1, LeaderId = 0, PrevLogIndex = 1, PrevLogTerm = 1, Entries = [cmd 6 2],
       LeaderCommit = 0\<rparr> \<and>
     AppendEntries (2, 0) (2, 0) (sent (mem m') req) sample_receiver = Inr (q', reply') \<and> Success reply' \<and>
     Log q' = [zero_entry, cmd 7 1, cmd 6 2]"
proof -
  let ?old = "\<lparr>ae_Term = 1, LeaderId = 0, PrevLogIndex = 1, PrevLogTerm = 1, Entries = [cmd 8 1], LeaderCommit = 0\<rparr>"
  let ?torn = "?old\<lparr>Entries := [cmd 6 2]\<rparr>"
  have "case AppendEntries_mem go_grow (1, 0) (1, 0) sample_new_leader sample_mem of Inl _ \<Rightarrow> False
      | Inr (m', reply) \<Rightarrow> Success reply \<and> Log (view m') = [zero_entry, cmd 5 2, cmd 6 2] \<and>
          sent (mem m') sample_request = ?torn"
    by code_simp
  then obtain m' reply where m': "AppendEntries_mem go_grow (1, 0) (1, 0) sample_new_leader sample_mem = Inr (m', reply)"
      "Success reply" "Log (view m') = [zero_entry, cmd 5 2, cmd 6 2]" "sent (mem m') sample_request = ?torn"
    by (auto split: sum.splits)
  have "case AppendEntries (2, 0) (2, 0) ?torn sample_receiver of Inl _ \<Rightarrow> False
      | Inr (q', r) \<Rightarrow> Success r \<and> Log q' = [zero_entry, cmd 7 1, cmd 6 2]"
    by code_simp
  then obtain q' r where "AppendEntries (2, 0) (2, 0) ?torn sample_receiver = Inr (q', r)" "Success r"
      "Log q' = [zero_entry, cmd 7 1, cmd 6 2]"
    by (auto split: sum.splits)
  moreover have "sent (mem sample_mem) sample_request = ?old" by code_simp
  ultimately show ?thesis using m' sample_built
    by (intro exI [of _ sample_request] exI [of _ m'] exI [of _ reply] exI [of _ q'] exI [of _ r]) simp
qed

end
