(* ===== verification/Labrpc.thy ===== *)
theory Labrpc
  imports Labgob "HOL-Library.Word"
begin

text \<open>
  The simulated network (\<^verbatim>\<open>src/src/labrpc/labrpc.go\<close>) on which the Raft tests run.

  A \<open>Service\<close> is a receiver with the methods that reflection finds suitable as handlers, a \<open>Server\<close> a set
  of services, a \<open>Network\<close> the tables that say which end is connected to which server. Servers are
  compared by identity in the code, so they live in a heap and the network's table holds addresses.
  Names are strings; the type \<open>'s\<close> of receivers is a parameter.

  \<^verbatim>\<open>ProcessReq\<close> runs concurrently with the tester and with the handler it has started, so it is a value of
  type \<open>proc\<close> that says how far one request has got, and \<open>proc_step\<close> moves it: by reading the tables, by
  executing the handler, by noticing that the server is gone, or by answering. The random numbers it draws
  are arguments of the steps; delays only postpone a step. Shown: what the network promises to a caller,
  whatever goes on meanwhile; theory \<open>Raft_System\<close> composes it with the peers.
\<close>

section \<open>Services and servers\<close>

record 's handler =
  argType :: gtype
  replyType :: gtype
  func :: "gval \<Rightarrow> 's \<Rightarrow> ('s \<times> gval) result"

text \<open>What reflection reports of a method: its name, whether it is exported, and its signature.\<close>

record 's rmethod =
  mname :: string
  m_exported :: bool
  numIn :: int
  in2_ptr :: bool
  numOut :: int
  body :: "'s handler"

record 's Service =
  svc_name :: string
  rcvr :: 's
  methods :: "(string \<times> 's handler) list"

record 's Server =
  services :: "(string \<times> 's Service) list"
  srv_count :: int

record reqMsg =
  endname :: string
  svcMeth :: string
  argsType :: gtype
  req_args :: gob_stream

record replyMsg =
  rep_ok :: bool
  rep_reply :: gob_stream

definition no_reply :: replyMsg where
  "no_reply = \<lparr>rep_ok = False, rep_reply = []\<rparr>"

definition suitable :: "'s rmethod \<Rightarrow> bool" where
  "suitable m \<longleftrightarrow> m_exported m \<and> numIn m = 3 \<and> in2_ptr m \<and> numOut m = 0"

definition MakeService :: "string \<Rightarrow> 's \<Rightarrow> 's rmethod list \<Rightarrow> 's Service" where
  "MakeService tname r ms =
     \<lparr>svc_name = tname, rcvr = r, methods = map (\<lambda>m. (mname m, body m)) (filter suitable ms)\<rparr>"

definition MakeServer :: "'s Server" where
  "MakeServer = \<lparr>services = [], srv_count = 0\<rparr>"

definition AddService :: "'s Service \<Rightarrow> 's Server \<Rightarrow> 's Server" where
  "AddService svc rs = rs\<lparr>services := (svc_name svc, svc) # filter (\<lambda>p. fst p \<noteq> svc_name svc) (services rs)\<rparr>"

text \<open>
  A decoding error of the argument is ignored by the code, which then calls the method with the zero
  value. The call itself panics when the argument has another type than the method's parameter.
\<close>

definition Service_dispatch :: "string \<Rightarrow> reqMsg \<Rightarrow> 's Service \<Rightarrow> ('s Service \<times> replyMsg) result" where
  "Service_dispatch methname req svc =
     (case map_of (methods svc) methname of
        Some m \<Rightarrow>
          (let args = (case gob_Decode (req_args req) (argsType req) (zero (argsType req)) of
                         Some (v, _) \<Rightarrow> v | None \<Rightarrow> zero (argsType req))
           in if argsType req \<noteq> argType m then Inl (Fatal ''reflect: Call using wrong argument type'')
              else bindE (func m args (rcvr svc)) (\<lambda>(r, reply).
                Inr (svc\<lparr>rcvr := r\<rparr>, \<lparr>rep_ok = True, rep_reply = gob_Encode [] reply\<rparr>)))
      | None \<Rightarrow> Inl (Fatal ''labrpc.Service.dispatch(): unknown method''))"

text \<open>\<^verbatim>\<open>strings.LastIndex(s, ".")\<close>: -1 when there is no dot.\<close>

fun last_dot :: "string \<Rightarrow> int" where
  "last_dot [] = -1"
| "last_dot (c # cs) =
     (let d = last_dot cs in if 0 \<le> d then d + 1 else if c = CHR ''.'' then 0 else -1)"

definition Server_dispatch :: "reqMsg \<Rightarrow> 's Server \<Rightarrow> ('s Server \<times> replyMsg) result" where
  "Server_dispatch req rs =
     (let rs = rs\<lparr>srv_count := srv_count rs + 1\<rparr>;
          dot = last_dot (svcMeth req) in
      bindE (go_slice (svcMeth req) 0 dot) (\<lambda>serviceName.
        bindE (go_slice (svcMeth req) (dot + 1) (len (svcMeth req))) (\<lambda>methodName.
          case map_of (services rs) serviceName of
            Some service \<Rightarrow>
              bindE (Service_dispatch methodName req service) (\<lambda>(service, reply).
                Inr (rs\<lparr>services := map (\<lambda>(k, s). (k, if k = serviceName then service else s)) (services rs)\<rparr>,
                     reply))
          | None \<Rightarrow> Inl (Fatal ''labrpc.Server.dispatch(): unknown service''))))"

section \<open>The network's tables\<close>

record Network =
  reliable :: bool
  longDelays :: bool
  longReordering :: bool
  ends :: "string list"
  enabled :: "string \<Rightarrow> bool"
  servers :: "string \<Rightarrow> nat option"
  connections :: "string \<Rightarrow> string option"
  net_count :: "32 word"
  net_loop :: bool
  net_done :: bool

definition MakeNetwork :: Network where
  "MakeNetwork = \<lparr>reliable = True, longDelays = False, longReordering = False, ends = [],
     enabled = (\<lambda>_. False), servers = (\<lambda>_. None), connections = (\<lambda>_. None), net_count = 0,
     net_loop = True, net_done = False\<rparr>"

text \<open>
  The goroutine that \<^verbatim>\<open>MakeNetwork\<close> starts: it counts each request and starts its processing, until it
  sees that the network has been cleaned up. The counter has 32 bits.
\<close>

definition count_request :: "Network \<Rightarrow> Network" where
  "count_request rn = rn\<lparr>net_count := net_count rn + 1\<rparr>"

definition stop_loop :: "Network \<Rightarrow> Network" where
  "stop_loop rn = (if net_done rn then rn\<lparr>net_loop := False\<rparr> else rn)"

definition Cleanup :: "Network \<Rightarrow> Network" where
  "Cleanup rn = rn\<lparr>net_done := True\<rparr>"

definition Reliable :: "bool \<Rightarrow> Network \<Rightarrow> Network" where
  "Reliable yes rn = rn\<lparr>reliable := yes\<rparr>"

definition LongReordering :: "bool \<Rightarrow> Network \<Rightarrow> Network" where
  "LongReordering yes rn = rn\<lparr>longReordering := yes\<rparr>"

definition LongDelays :: "bool \<Rightarrow> Network \<Rightarrow> Network" where
  "LongDelays yes rn = rn\<lparr>longDelays := yes\<rparr>"

definition MakeEnd :: "string \<Rightarrow> Network \<Rightarrow> Network result" where
  "MakeEnd e rn =
     (if e \<in> set (ends rn) then Inl (Fatal ''MakeEnd: already exists'')
      else Inr (rn\<lparr>ends := e # ends rn, enabled := (enabled rn)(e := False),
                   connections := (connections rn)(e := None)\<rparr>))"

definition AddServer :: "string \<Rightarrow> nat \<Rightarrow> Network \<Rightarrow> Network" where
  "AddServer sn addr rn = rn\<lparr>servers := (servers rn)(sn := Some addr)\<rparr>"

definition DeleteServer :: "string \<Rightarrow> Network \<Rightarrow> Network" where
  "DeleteServer sn rn = rn\<lparr>servers := (servers rn)(sn := None)\<rparr>"

definition Connect :: "string \<Rightarrow> string \<Rightarrow> Network \<Rightarrow> Network" where
  "Connect e sn rn = rn\<lparr>connections := (connections rn)(e := Some sn)\<rparr>"

definition Enable :: "string \<Rightarrow> bool \<Rightarrow> Network \<Rightarrow> Network" where
  "Enable e on rn = rn\<lparr>enabled := (enabled rn)(e := on)\<rparr>"

definition Server_GetCount :: "'s Server \<Rightarrow> int" where
  "Server_GetCount rs = srv_count rs"

definition GetCount :: "string \<Rightarrow> Network \<Rightarrow> (nat \<Rightarrow> 's Server) \<Rightarrow> int result" where
  "GetCount sn rn heap =
     (case servers rn sn of None \<Rightarrow> Inl NilDereference | Some a \<Rightarrow> Inr (Server_GetCount (heap a)))"

definition GetTotalCount :: "Network \<Rightarrow> int" where
  "GetTotalCount rn = sint (net_count rn)"

definition ReadEndnameInfo :: "string \<Rightarrow> Network \<Rightarrow> bool \<times> string option \<times> nat option \<times> bool \<times> bool" where
  "ReadEndnameInfo e rn =
     (let servername = connections rn e in
      (enabled rn e, servername,
       (case servername of None \<Rightarrow> None | Some sn \<Rightarrow> servers rn sn), reliable rn, longReordering rn))"

definition IsServerDead :: "string \<Rightarrow> string \<Rightarrow> nat \<Rightarrow> Network \<Rightarrow> bool" where
  "IsServerDead e sn addr rn \<longleftrightarrow> \<not> enabled rn e \<or> servers rn sn \<noteq> Some addr"

section \<open>Processing a request\<close>

text \<open>
  How far a request has got. \<open>Sending\<close>: \<^verbatim>\<open>Call\<close> offers it to the network. \<open>Received\<close>: \<^verbatim>\<open>ProcessReq\<close>
  has been started for it. \<open>Executing\<close>: the handler has been started and has not returned.
  \<open>Executed\<close>: it has returned this reply. \<open>Abandoned\<close>: the caller has been told there is no reply while the
  handler was still running. \<open>Answered\<close>: the caller has this answer and the handler is not running.
\<close>

datatype proc =
    Sending reqMsg
  | Received reqMsg
  | Executing reqMsg string nat bool bool
  | Executed reqMsg string nat bool bool replyMsg
  | Abandoned reqMsg nat
  | Answered replyMsg

datatype proc_action =
    PSend
  | PCancel
  | PRead int
  | PExecute
  | PCheckDead
  | PReply int

record 's lab_net =
  net :: Network
  heap :: "nat \<Rightarrow> 's Server"

definition proc_read :: "int \<Rightarrow> reqMsg \<Rightarrow> Network \<Rightarrow> proc" where
  "proc_read rnd req rn =
     (case ReadEndnameInfo (endname req) rn of
        (True, Some sn, Some addr, rel, longre) \<Rightarrow>
          if \<not> rel \<and> rnd mod 1000 < 100 then Answered no_reply else Executing req sn addr rel longre
      | _ \<Rightarrow> Answered no_reply)"

definition execute :: "reqMsg \<Rightarrow> nat \<Rightarrow> 's lab_net \<Rightarrow> ('s lab_net \<times> replyMsg) result" where
  "execute req addr w =
     bindE (Server_dispatch req (heap w addr)) (\<lambda>(rs, reply).
       Inr (w\<lparr>heap := (heap w)(addr := rs)\<rparr>, reply))"

definition proc_reply :: "int \<Rightarrow> reqMsg \<Rightarrow> string \<Rightarrow> nat \<Rightarrow> bool \<Rightarrow> replyMsg \<Rightarrow> Network \<Rightarrow> proc" where
  "proc_reply rnd req sn addr rel reply rn =
     (if IsServerDead (endname req) sn addr rn then Answered no_reply
      else if \<not> rel \<and> rnd mod 1000 < 100 then Answered no_reply
      else Answered reply)"

fun proc_step :: "proc_action \<Rightarrow> proc \<Rightarrow> 's lab_net \<Rightarrow> (proc \<times> 's lab_net) result option" where
  "proc_step PSend (Sending req) w =
     (if net_loop (net w) then Some (Inr (Received req, w\<lparr>net := count_request (net w)\<rparr>)) else None)"
| "proc_step PCancel (Sending req) w =
     (if net_done (net w) then Some (Inr (Answered no_reply, w)) else None)"
| "proc_step (PRead rnd) (Received req) w = Some (Inr (proc_read rnd req (net w), w))"
| "proc_step PExecute (Executing req sn addr rel longre) w =
     Some (bindE (execute req addr w) (\<lambda>(w, reply). Inr (Executed req sn addr rel longre reply, w)))"
| "proc_step PExecute (Abandoned req addr) w =
     Some (bindE (execute req addr w) (\<lambda>(w, reply). Inr (Answered no_reply, w)))"
| "proc_step PCheckDead (Executing req sn addr rel longre) w =
     (if IsServerDead (endname req) sn addr (net w) then Some (Inr (Abandoned req addr, w)) else None)"
| "proc_step (PReply rnd) (Executed req sn addr rel longre reply) w =
     Some (Inr (proc_reply rnd req sn addr rel reply (net w), w))"
| "proc_step a p w = None"

text \<open>
  A request together with everything else that goes on: the tester changing the network, and other
  requests executing.
\<close>

datatype 's rpc_action =
    Proc proc_action
  | Tables "Network \<Rightarrow> Network"
  | Heap "(nat \<Rightarrow> 's Server) \<Rightarrow> nat \<Rightarrow> 's Server"

fun rpc_step :: "'s rpc_action \<Rightarrow> proc \<times> 's lab_net \<Rightarrow> (proc \<times> 's lab_net) option" where
  "rpc_step (Proc a) (p, w) =
     (case proc_step a p w of Some (Inr (p', w')) \<Rightarrow> Some (p', w') | _ \<Rightarrow> None)"
| "rpc_step (Tables f) (p, w) = Some (p, w\<lparr>net := f (net w)\<rparr>)"
| "rpc_step (Heap f) (p, w) = Some (p, w\<lparr>heap := f (heap w)\<rparr>)"

fun rpc_run :: "'s rpc_action list \<Rightarrow> proc \<times> 's lab_net \<Rightarrow> (proc \<times> 's lab_net) option" where
  "rpc_run [] s = Some s"
| "rpc_run (a # as) s = (case rpc_step a s of None \<Rightarrow> None | Some s' \<Rightarrow> rpc_run as s')"

section \<open>The caller\<close>

definition Call_request :: "string \<Rightarrow> string \<Rightarrow> gtype \<Rightarrow> gval \<Rightarrow> reqMsg" where
  "Call_request e meth t args =
     \<lparr>endname = e, svcMeth = meth, argsType = t, req_args = gob_Encode [] args\<rparr>"

definition Call_return :: "gtype \<Rightarrow> gval \<Rightarrow> replyMsg \<Rightarrow> (bool \<times> gval) result" where
  "Call_return t cur rep =
     (if rep_ok rep
      then (case gob_Decode (rep_reply rep) t cur of
              None \<Rightarrow> Inl (Fatal ''ClientEnd.Call(): decode reply'')
            | Some (v, _) \<Rightarrow> Inr (True, v))
      else Inr (False, cur))"

section \<open>Dispatch\<close>

lemma last_dot_split: "CHR ''.'' \<notin> set m \<Longrightarrow> last_dot (s @ CHR ''.'' # m) = len s"
proof (induction s)
  case Nil
  have "last_dot m = -1" using Nil by (induction m) (auto simp: Let_def)
  then show ?case by (simp add: Let_def)
next
  case (Cons c s)
  then show ?case by (simp add: Let_def)
qed

lemma Server_dispatch_eq:
  assumes "CHR ''.'' \<notin> set m" and "svcMeth req = s @ CHR ''.'' # m"
    and "map_of (services rs) s = Some svc"
  shows "Server_dispatch req rs =
    bindE (Service_dispatch m req svc) (\<lambda>(svc', reply).
      Inr (rs\<lparr>srv_count := srv_count rs + 1,
              services := map (\<lambda>(k, x). (k, if k = s then svc' else x)) (services rs)\<rparr>, reply))"
proof -
  have d: "last_dot (svcMeth req) = len s" using last_dot_split [OF assms(1), of s] assms(2) by simp
  have "go_slice (svcMeth req) 0 (len s) = Inr s"
    "go_slice (svcMeth req) (len s + 1) (len (svcMeth req)) = Inr m"
    using assms(2) by (simp_all add: go_slice_def nat_add_distrib)
  then show ?thesis using d assms(3) by (simp add: Server_dispatch_def Let_def)
qed

lemma Service_dispatch_eq:
  assumes "map_of (methods svc) m = Some h" and "argType h = t" and "passed args t" and "exported t"
  shows "Service_dispatch m (Call_request e meth t args) svc =
    bindE (func h args (rcvr svc)) (\<lambda>(r, v).
      Inr (svc\<lparr>rcvr := r\<rparr>, \<lparr>rep_ok = True, rep_reply = gob_Encode [] v\<rparr>))"
proof -
  have "gob_Decode (gob_Encode [] args) t (zero t) = Some (args, [])"
    using gob_roundtrip [OF assms(3,4), of "[]"] by simp
  then show ?thesis using assms by (simp add: Service_dispatch_def Call_request_def)
qed

section \<open>How often a handler runs\<close>

fun executes :: "'s rpc_action \<Rightarrow> bool" where
  "executes (Proc PExecute) = True"
| "executes a = False"

definition executions :: "'s rpc_action list \<Rightarrow> nat" where
  "executions as = length (filter executes as)"

fun budget :: "proc \<Rightarrow> nat" where
  "budget (Sending req) = 1"
| "budget (Received req) = 1"
| "budget (Executing req sn addr rel longre) = 1"
| "budget (Abandoned req addr) = 1"
| "budget (Executed req sn addr rel longre reply) = 0"
| "budget (Answered r) = 0"


lemma proc_read_cases:
  "(\<exists>sn addr rel longre. proc_read rnd req rn = Executing req sn addr rel longre \<and>
      enabled rn (endname req) \<and> connections rn (endname req) = Some sn \<and> servers rn sn = Some addr \<and>
      rel = reliable rn) \<or>
   proc_read rnd req rn = Answered no_reply"
  by (auto simp: proc_read_def ReadEndnameInfo_def Let_def split: option.splits bool.splits)

lemma proc_step_cases:
  assumes "proc_step a p w = Some (Inr (p', w'))"
  obtains (send) req where "a = PSend" "p = Sending req" "p' = Received req" "w' = w\<lparr>net := count_request (net w)\<rparr>"
    | (cancel) req where "a = PCancel" "p = Sending req" "p' = Answered no_reply" "w' = w"
    | (read) rnd req where "a = PRead rnd" "p = Received req" "p' = proc_read rnd req (net w)" "w' = w"
    | (execute) req sn addr rel longre reply where "a = PExecute" "p = Executing req sn addr rel longre"
        "p' = Executed req sn addr rel longre reply" "execute req addr w = Inr (w', reply)"
    | (drain) req addr reply where "a = PExecute" "p = Abandoned req addr" "p' = Answered no_reply"
        "execute req addr w = Inr (w', reply)"
    | (dead) req sn addr rel longre where "a = PCheckDead" "p = Executing req sn addr rel longre"
        "p' = Abandoned req addr" "w' = w"
    | (reply) rnd req sn addr rel longre reply where "a = PReply rnd"
        "p = Executed req sn addr rel longre reply" "p' = proc_reply rnd req sn addr rel reply (net w)" "w' = w"
proof (cases a)
  case PSend
  have "\<exists>req. p = Sending req \<and> p' = Received req \<and> w' = w\<lparr>net := count_request (net w)\<rparr>"
    using assms PSend by (cases p) (auto split: if_splits)
  then show ?thesis using that(1) PSend by blast
next
  case PCancel
  have "\<exists>req. p = Sending req \<and> p' = Answered no_reply \<and> w' = w"
    using assms PCancel by (cases p) (auto split: if_splits)
  then show ?thesis using that(2) PCancel by blast
next
  case (PRead rnd)
  have "\<exists>req. p = Received req \<and> p' = proc_read rnd req (net w) \<and> w' = w"
    using assms PRead by (cases p) auto
  then show ?thesis using that(3) PRead by blast
next
  case PExecute
  have "(\<exists>req sn addr rel longre reply. p = Executing req sn addr rel longre \<and>
      p' = Executed req sn addr rel longre reply \<and> execute req addr w = Inr (w', reply)) \<or>
    (\<exists>req addr reply. p = Abandoned req addr \<and> p' = Answered no_reply \<and> execute req addr w = Inr (w', reply))"
    using assms PExecute by (cases p) (auto simp: go_simps)
  then show ?thesis using that(4,5) PExecute by blast
next
  case PCheckDead
  have "\<exists>req sn addr rel longre. p = Executing req sn addr rel longre \<and> p' = Abandoned req addr \<and> w' = w"
    using assms PCheckDead by (cases p) (auto split: if_splits)
  then show ?thesis using that(6) PCheckDead by blast
next
  case (PReply rnd)
  have "\<exists>req sn addr rel longre reply. p = Executed req sn addr rel longre reply \<and>
      p' = proc_reply rnd req sn addr rel reply (net w) \<and> w' = w"
    using assms PReply by (cases p) auto
  then show ?thesis using that(7) PReply by blast
qed

lemma rpc_step_Proc: "rpc_step (Proc x) (p, w) = Some (p', w') \<longleftrightarrow> proc_step x p w = Some (Inr (p', w'))"
  by (auto split: option.splits sum.splits)

lemma execute_net: "execute req addr w = Inr (w', reply) \<Longrightarrow> net w' = net w"
  by (auto simp: execute_def go_simps)

lemma proc_reply_cases: "proc_reply rnd req sn addr rel reply rn \<in> {Answered no_reply, Answered reply}"
  by (simp add: proc_reply_def)

lemma not_ok [simp]: "\<not> rep_ok no_reply"
  by (simp add: no_reply_def)

lemma rpc_budget:
  assumes "rpc_step a (p, w) = Some (p', w')"
  shows "budget p' + (if executes a then 1 else 0) \<le> budget p"
proof (cases a)
  case (Proc x)
  then have "proc_step x p w = Some (Inr (p', w'))" using assms rpc_step_Proc by blast
  then show ?thesis
  proof (cases rule: proc_step_cases)
    case (read rnd req)
    then show ?thesis using Proc proc_read_cases [of rnd req "net w"] by auto
  next
    case (reply rnd req sn addr rel longre reply)
    then show ?thesis using Proc proc_reply_cases [of rnd req sn addr rel reply "net w"] by auto
  qed (use Proc in auto)
qed (use assms in auto)

lemma rpc_run_budget:
  assumes "rpc_run as (p, w) = Some (p', w')"
  shows "budget p' + executions as \<le> budget p"
  using assms
proof (induction "as" arbitrary: p w)
  case (Cons a "as")
  then obtain p1 w1 where 1: "rpc_step a (p, w) = Some (p1, w1)" "rpc_run as (p1, w1) = Some (p', w')"
    by (auto split: option.splits)
  then show ?case using Cons.IH [OF 1(2)] rpc_budget [OF 1(1)] by (auto simp: executions_def split: if_splits)
qed (simp add: executions_def)

text \<open>Whoever has a positive reply has seen an execution.\<close>

fun unpaid :: "proc \<Rightarrow> bool" where
  "unpaid (Answered r) = (\<not> rep_ok r)"
| "unpaid (Executed req sn addr rel longre reply) = False"
| "unpaid p = True"

lemma rpc_unpaid:
  assumes "rpc_step a (p, w) = Some (p', w')" and "unpaid p" and "\<not> executes a"
  shows "unpaid p'"
proof (cases a)
  case (Proc x)
  then have "proc_step x p w = Some (Inr (p', w'))" using assms(1) rpc_step_Proc by blast
  then show ?thesis
  proof (cases rule: proc_step_cases)
    case (read rnd req)
    then show ?thesis using proc_read_cases [of rnd req "net w"] by auto
  qed (use assms(2,3) Proc in auto)
qed (use assms in auto)

lemma rpc_run_unpaid:
  assumes "rpc_run as (p, w) = Some (p', w')" and "unpaid p" and "executions as = 0"
  shows "unpaid p'"
  using assms
proof (induction "as" arbitrary: p w)
  case (Cons a "as")
  then obtain p1 w1 where 1: "rpc_step a (p, w) = Some (p1, w1)" "rpc_run as (p1, w1) = Some (p', w')"
    by (auto split: option.splits)
  have "\<not> executes a" "executions as = 0" using Cons.prems(3) by (auto simp: executions_def split: if_splits)
  then show ?case using Cons.IH [OF 1(2)] rpc_unpaid [OF 1(1) Cons.prems(2)] by blast
qed simp

section \<open>Servers that were replaced\<close>

text \<open>The request is for a server that is no longer the one registered under its name.\<close>

fun orphaned :: "string \<Rightarrow> nat \<Rightarrow> proc \<Rightarrow> bool" where
  "orphaned sn addr (Executing req sn' addr' rel longre) = (sn' = sn \<and> addr' = addr)"
| "orphaned sn addr (Executed req sn' addr' rel longre reply) = (sn' = sn \<and> addr' = addr)"
| "orphaned sn addr (Abandoned req addr') = True"
| "orphaned sn addr (Answered r) = (\<not> rep_ok r)"
| "orphaned sn addr (Received req) = False"
| "orphaned sn addr (Sending req) = False"

text \<open>The tester does not register that very server again.\<close>

fun keeps_gone :: "string \<Rightarrow> nat \<Rightarrow> 's rpc_action \<Rightarrow> bool" where
  "keeps_gone sn addr (Tables f) = (\<forall>rn. servers rn sn \<noteq> Some addr \<longrightarrow> servers (f rn) sn \<noteq> Some addr)"
| "keeps_gone sn addr a = True"

lemma orphaned_step:
  assumes "rpc_step a (p, w) = Some (p', w')" and "orphaned sn addr p" and "servers (net w) sn \<noteq> Some addr"
    and "keeps_gone sn addr a"
  shows "orphaned sn addr p' \<and> servers (net w') sn \<noteq> Some addr"
proof (cases a)
  case (Proc x)
  then have "proc_step x p w = Some (Inr (p', w'))" using assms(1) rpc_step_Proc by blast
  then show ?thesis
    by (cases rule: proc_step_cases)
       (use assms(2,3) in \<open>auto simp: proc_reply_def IsServerDead_def dest: execute_net\<close>)
next
  case (Tables f)
  have "servers (f (net w)) sn \<noteq> Some addr" using assms(3,4) Tables by (metis keeps_gone.simps(1))
  moreover have "p' = p" "net w' = f (net w)" using assms(1) Tables by auto
  ultimately show ?thesis using assms(2) by simp
next
  case (Heap f)
  have "p' = p" "net w' = net w" using assms(1) Heap by auto
  then show ?thesis using assms(2,3) by simp
qed

lemma orphaned_run:
  assumes "rpc_run as (p, w) = Some (p', w')" and "orphaned sn addr p" and "servers (net w) sn \<noteq> Some addr"
    and "\<forall>a \<in> set as. keeps_gone sn addr a"
  shows "orphaned sn addr p'"
  using assms
proof (induction "as" arbitrary: p w)
  case (Cons a "as")
  then obtain p1 w1 where 1: "rpc_step a (p, w) = Some (p1, w1)" "rpc_run as (p1, w1) = Some (p', w')"
    by (auto split: option.splits)
  then show ?case using Cons.IH [OF 1(2)] orphaned_step [OF 1(1) Cons.prems(2,3)] Cons.prems(4) by simp
qed simp

section \<open>A sample service\<close>

definition add_handler :: "int handler" where
  "add_handler = \<lparr>argType = TInt, replyType = TInt,
     func = (\<lambda>v n. case v of VInt k \<Rightarrow> Inr (n + k, VInt (n + k)) | _ \<Rightarrow> Inl NilDereference)\<rparr>"

definition sample_server :: "int Server" where
  "sample_server =
     AddService (MakeService ''Counter'' 5
       [\<lparr>mname = ''Add'', m_exported = True, numIn = 3, in2_ptr = True, numOut = 0, body = add_handler\<rparr>,
        \<lparr>mname = ''reset'', m_exported = False, numIn = 1, in2_ptr = False, numOut = 0, body = add_handler\<rparr>])
       MakeServer"

definition sample_net :: "int lab_net" where
  "sample_net =
     \<lparr>net = Enable ''e'' True (Connect ''e'' ''s'' (AddServer ''s'' 7 (projr (MakeEnd ''e'' MakeNetwork)))),
      heap = (\<lambda>_. sample_server)\<rparr>"

section \<open>Properties\<close>

text \<open>
  C40. The network executes a request at most once, whatever the tester does to the network and whatever
  else executes meanwhile; a caller that gets a positive answer knows that it was executed exactly once.
\<close>

theorem rpc_at_most_once:
  assumes "rpc_run acts (Sending req, w) = Some (p, w')"
  shows "executions acts \<le> 1 \<and> (\<forall>r. p = Answered r \<longrightarrow> rep_ok r \<longrightarrow> executions acts = 1)"
proof -
  have "executions acts \<le> 1" using rpc_run_budget [OF assms] by simp
  moreover have "executions acts \<noteq> 0" if "p = Answered r" "rep_ok r" for r
    using rpc_run_unpaid [OF assms] that by auto
  ultimately show ?thesis by force
qed

theorem rpc_at_most_once_witness:
  "\<exists>p w'. rpc_run [Proc PSend, Proc (PRead 0), Proc PExecute, Proc (PReply 0)]
      (Sending (Call_request ''e'' ''Counter.Add'' TInt (VInt 3)), sample_net) = Some (p, w') \<and>
    executions ([Proc PSend, Proc (PRead 0), Proc PExecute, Proc (PReply 0)] :: int rpc_action list) = 1"
proof -
  let ?acts = "[Proc PSend, Proc (PRead 0), Proc PExecute, Proc (PReply 0)] :: int rpc_action list"
  have "case rpc_run ?acts (Sending (Call_request ''e'' ''Counter.Add'' TInt (VInt 3)), sample_net) of
      None \<Rightarrow> False | Some s \<Rightarrow> (case fst s of Answered r \<Rightarrow> rep_ok r | _ \<Rightarrow> False)"
    by code_simp
  from case_Some_ex [OF this] obtain p w' where
      r: "rpc_run ?acts (Sending (Call_request ''e'' ''Counter.Add'' TInt (VInt 3)), sample_net) = Some (p, w')"
      and "case p of Answered r \<Rightarrow> rep_ok r | _ \<Rightarrow> False"
    by auto
  then obtain rep where "p = Answered rep" "rep_ok rep" by (auto split: proc.splits)
  then have "executions ?acts = 1" using rpc_at_most_once [OF r] by blast
  then show ?thesis using r by (intro exI conjI)
qed

text \<open>
  No caller gets a positive answer from a server that has been deleted or replaced: once the server a
  request was sent to is no longer the one registered under its name, and as long as it is not registered
  again, the answer is that there was no reply, even if the handler has run. This is what lets the tester
  hand a crashed peer's storage to its successor.
\<close>

theorem no_answer_from_replaced_server:
  assumes "orphaned sn addr p" and "servers (net w) sn \<noteq> Some addr"
    and "\<forall>a \<in> set acts. keeps_gone sn addr a" and "rpc_run acts (p, w) = Some (Answered r, w')"
  shows "\<not> rep_ok r"
  using orphaned_run [OF assms(4,1,2,3)] by simp

theorem no_answer_from_replaced_server_witness:
  "\<exists>r w'. rpc_run [Proc PExecute, Proc (PReply 0)]
      (Executing (Call_request ''e'' ''Counter.Add'' TInt (VInt 3)) ''s'' 7 True False,
       sample_net\<lparr>net := AddServer ''s'' 8 (DeleteServer ''s'' (net sample_net))\<rparr>) = Some (Answered r, w') \<and>
    \<not> rep_ok r"
proof -
  let ?acts = "[Proc PExecute, Proc (PReply 0)] :: int rpc_action list"
  let ?p = "Executing (Call_request ''e'' ''Counter.Add'' TInt (VInt 3)) ''s'' 7 True False"
  let ?w = "sample_net\<lparr>net := AddServer ''s'' 8 (DeleteServer ''s'' (net sample_net))\<rparr>"
  have "case rpc_run ?acts (?p, ?w) of None \<Rightarrow> False | Some s \<Rightarrow> (case fst s of Answered r \<Rightarrow> True | _ \<Rightarrow> False)"
    by code_simp
  from case_Some_ex [OF this] obtain p w' where r: "rpc_run ?acts (?p, ?w) = Some (p, w')"
      and "case p of Answered r \<Rightarrow> True | _ \<Rightarrow> False"
    by auto
  then obtain rep where p: "p = Answered rep" by (auto split: proc.splits)
  have "\<not> rep_ok rep"
    by (rule no_answer_from_replaced_server [of "''s''" 7 ?p ?w ?acts rep w'])
       (use r p in \<open>simp_all add: AddServer_def\<close>)
  then show ?thesis using r p by blast
qed

text \<open>
  On a reliable network a call to a live server goes through: the handler runs on exactly the value the
  caller passed, the receiver is updated, and the caller gets exactly the value the handler returned, for
  every argument and reply type without unexported fields.
\<close>

theorem rpc_transfer:
  assumes "net_loop (net w)" and "enabled (net w) e" and "connections (net w) e = Some sn" and "servers (net w) sn = Some addr"
    and "reliable (net w)" and "map_of (services (heap w addr)) s = Some svc" and "CHR ''.'' \<notin> set m"
    and "map_of (methods svc) m = Some h" and "argType h = t" and "passed args t" and "exported t"
    and "func h args (rcvr svc) = Inr (r, v)" and "has_type v rt" and "exported rt"
  shows "\<exists>w' rep. rpc_run [Proc PSend, Proc (PRead n1), Proc PExecute, Proc (PReply n2)]
      (Sending (Call_request e (s @ CHR ''.'' # m) t args), w) = Some (Answered rep, w') \<and>
    Call_return rt (zero rt) rep = Inr (True, v) \<and>
    map_of (services (heap w' addr)) s = Some (svc\<lparr>rcvr := r\<rparr>)"
proof -
  let ?req = "Call_request e (s @ CHR ''.'' # m) t args"
  let ?rep = "\<lparr>rep_ok = True, rep_reply = gob_Encode [] v\<rparr>"
  let ?rs = "(heap w addr)\<lparr>srv_count := srv_count (heap w addr) + 1,
    services := map (\<lambda>(k, x). (k, if k = s then svc\<lparr>rcvr := r\<rparr> else x)) (services (heap w addr))\<rparr>"
  let ?u = "w\<lparr>net := count_request (net w)\<rparr>"
  let ?w = "?u\<lparr>heap := (heap w)(addr := ?rs)\<rparr>"
  have "Service_dispatch m ?req svc = Inr (svc\<lparr>rcvr := r\<rparr>, ?rep)"
    using assms(12) by (simp add: Service_dispatch_eq [OF assms(8-11)])
  then have x: "execute ?req addr ?u = Inr (?w, ?rep)"
    using Server_dispatch_eq [OF assms(7) _ assms(6), of ?req] by (simp add: execute_def Call_request_def)
  have "proc_read n1 ?req (net ?u) = Executing ?req sn addr True (longReordering (net w))"
    using assms(2-5) by (simp add: proc_read_def ReadEndnameInfo_def Call_request_def count_request_def)
  moreover have "proc_reply n2 ?req sn addr True ?rep (net ?w) = Answered ?rep"
    using assms(2-4) by (simp add: proc_reply_def IsServerDead_def Call_request_def count_request_def)
  ultimately have "rpc_run [Proc PSend, Proc (PRead n1), Proc PExecute, Proc (PReply n2)] (Sending ?req, w) =
      Some (Answered ?rep, ?w)"
    using x assms(1) by simp
  moreover have "Call_return rt (zero rt) ?rep = Inr (True, v)"
    using gob_roundtrip [OF passed_type [OF assms(13)] assms(14), of "[]"] by (simp add: Call_return_def)
  moreover have "map_of (map (\<lambda>(k, x). (k, if k = s then y else x)) xs) s = Some y"
    if "map_of xs s = Some svc" for xs and y :: "'a Service"
    using that by (induction xs) (auto split: if_splits)
  ultimately show ?thesis using assms(6) by (intro exI [of _ ?w] exI [of _ ?rep]) simp
qed

theorem rpc_transfer_witness:
  "\<exists>w' rep. rpc_run [Proc PSend, Proc (PRead 4), Proc PExecute, Proc (PReply 9)]
      (Sending (Call_request ''e'' ''Counter.Add'' TInt (VInt 3)), sample_net) = Some (Answered rep, w') \<and>
    Call_return TInt (VInt 0) rep = Inr (True, VInt 8)"
proof -
  have n: "net_loop (net sample_net)" "enabled (net sample_net) ''e''" "connections (net sample_net) ''e'' = Some ''s''"
      "servers (net sample_net) ''s'' = Some 7" "reliable (net sample_net)"
    by (simp_all add: sample_net_def Enable_def Connect_def AddServer_def MakeEnd_def MakeNetwork_def)
  let ?svc = "\<lparr>svc_name = ''Counter'', rcvr = 5, methods = [(''Add'', add_handler)]\<rparr>"
  have s: "map_of (services (heap sample_net 7)) ''Counter'' = Some ?svc"
    by (simp add: sample_net_def sample_server_def AddService_def MakeService_def MakeServer_def suitable_def)
  show ?thesis
    using rpc_transfer [OF n s, of "''Add''" add_handler TInt "VInt 3" 8 "VInt 8" TInt 4 9] n(1)
    by (auto simp: add_handler_def)
qed

end
