(* ===== verification/Config.thy ===== *)
theory Config
  imports Raft_Recovery Labrpc
begin

text \<open>
  The test harness of Raft (\<^verbatim>\<open>src/src/raft/config.go\<close>): it builds the peers and the network between them,
  connects, disconnects, crashes and restarts peers, and inspects them.

  \<open>config\<close> is the harness's own state. \<^verbatim>\<open>saved[i]\<close> and the persister of a running peer \<open>i\<close> are one object; its
  contents are kept with the peer while it runs, and in \<open>saved_state\<close> otherwise. Servers are named by integers in
  \<^verbatim>\<open>config.go\<close>, written in unary here. The random names of client ends, the addresses of server objects and the
  readings of clock and random numbers are arguments.

  Shown here: whatever sequence of operations the tests perform, a client end is enabled exactly when it is the
  current end between two connected peers, so that a partitioned or replaced peer cannot send.
\<close>

section \<open>State\<close>

record config =
  cf_net :: Network
  cf_n :: nat
  rafts :: "Raft option list"
  applyErr :: "string list"
  connected :: "bool list"
  saved_state :: "gval Persister option list"
  endnames :: "string list option list"
  logs :: "(int \<rightharpoonup> int) list"
  rpcs0 :: int
  cmds0 :: int
  maxIndex :: int
  maxIndex0 :: int

definition server_name :: "nat \<Rightarrow> string" where
  "server_name i = replicate i (CHR ''|'')"

text \<open>A \<^verbatim>\<open>for\<close> loop whose body can panic.\<close>

primrec forE :: "('a \<Rightarrow> 's \<Rightarrow> 's result) \<Rightarrow> 'a list \<Rightarrow> 's \<Rightarrow> 's result" where
  "forE f [] s = Inr s"
| "forE f (x # xs) s = bindE (f x s) (forE f xs)"

lemma bindE_Inr_right [simp]: "bindE r Inr = r"
  by (cases r) auto

lemma forE_snoc: "forE f (xs @ [y]) s = bindE (forE f xs s) (f y)"
proof (induction xs arbitrary: s)
  case Nil
  have "forE f [] = Inr" by (simp add: fun_eq_iff)
  then show ?case by simp
next
  case (Cons a as)
  then show ?case by (cases "f a s") simp_all
qed

section \<open>Connecting and disconnecting\<close>

definition enable_end :: "nat \<Rightarrow> nat \<Rightarrow> bool \<Rightarrow> config \<Rightarrow> config result" where
  "enable_end i j on cfg =
     bindE (go_index (endnames cfg) (int i)) (\<lambda>ns.
       bindE (go_index (case ns of None \<Rightarrow> [] | Some ns \<Rightarrow> ns) (int j)) (\<lambda>endname.
         Inr (cfg\<lparr>cf_net := Enable endname on (cf_net cfg)\<rparr>)))"

definition connect :: "nat \<Rightarrow> config \<Rightarrow> config result" where
  "connect i cfg =
     bindE (go_update (connected cfg) (int i) True) (\<lambda>c.
       let cfg = cfg\<lparr>connected := c\<rparr> in
       bindE (forE (\<lambda>j cfg. bindE (go_index (connected cfg) (int j)) (\<lambda>on.
                if on then enable_end i j True cfg else Inr cfg)) [0..<cf_n cfg] cfg) (\<lambda>cfg.
         forE (\<lambda>j cfg. bindE (go_index (connected cfg) (int j)) (\<lambda>on.
                if on then enable_end j i True cfg else Inr cfg)) [0..<cf_n cfg] cfg))"

definition disconnect :: "nat \<Rightarrow> config \<Rightarrow> config result" where
  "disconnect i cfg =
     bindE (go_update (connected cfg) (int i) False) (\<lambda>c.
       let cfg = cfg\<lparr>connected := c\<rparr> in
       bindE (forE (\<lambda>j cfg. bindE (go_index (endnames cfg) (int i)) (\<lambda>ns.
                if ns \<noteq> None then enable_end i j False cfg else Inr cfg)) [0..<cf_n cfg] cfg) (\<lambda>cfg.
         forE (\<lambda>j cfg. bindE (go_index (endnames cfg) (int j)) (\<lambda>ns.
                if ns \<noteq> None then enable_end j i False cfg else Inr cfg)) [0..<cf_n cfg] cfg))"

section \<open>Crashing and starting a peer\<close>

text \<open>The contents of \<^verbatim>\<open>cfg.saved[i]\<close>.\<close>

definition saved_of :: "nat \<Rightarrow> config \<Rightarrow> gval Persister option" where
  "saved_of i cfg = (case rafts cfg ! i of Some rf \<Rightarrow> Some (persister rf) | None \<Rightarrow> saved_state cfg ! i)"

definition crash1 :: "nat \<Rightarrow> config \<Rightarrow> config result" where
  "crash1 i cfg =
     bindE (disconnect i cfg) (\<lambda>cfg.
       let cfg = cfg\<lparr>cf_net := DeleteServer (server_name i) (cf_net cfg)\<rparr>;
           copy = map_option Copy (saved_of i cfg);
           cfg = cfg\<lparr>rafts := (rafts cfg)[i := None]\<rparr>;
           fresh = map_option (\<lambda>p. let raftlog = ReadRaftState p in SaveRaftState MakePersister raftlog) copy
       in Inr (cfg\<lparr>saved_state := (saved_state cfg)[i := fresh]\<rparr>))"

definition make_end :: "string list \<Rightarrow> nat \<Rightarrow> config \<Rightarrow> config result" where
  "make_end names j cfg =
     bindE (go_index names (int j)) (\<lambda>endname.
       bindE (MakeEnd endname (cf_net cfg)) (\<lambda>net.
         Inr (cfg\<lparr>cf_net := Connect endname (server_name j) net\<rparr>)))"

definition start1 :: "nat \<Rightarrow> string list \<Rightarrow> nat \<Rightarrow> tick \<Rightarrow> config \<Rightarrow> config result" where
  "start1 i names addr t cfg =
     bindE (crash1 i cfg) (\<lambda>cfg.
       let cfg = cfg\<lparr>endnames := (endnames cfg)[i := Some names]\<rparr> in
       bindE (forE (make_end names) [0..<cf_n cfg] cfg) (\<lambda>cfg.
         let pers = (case saved_state cfg ! i of Some p \<Rightarrow> Copy p | None \<Rightarrow> MakePersister);
             cfg = cfg\<lparr>saved_state := (saved_state cfg)[i := Some pers]\<rparr> in
         bindE (Make names (int i) pers t) (\<lambda>rf.
           let cfg = cfg\<lparr>rafts := (rafts cfg)[i := Some rf]\<rparr>
           in Inr (cfg\<lparr>cf_net := AddServer (server_name i) addr (cf_net cfg)\<rparr>))))"

definition setunreliable :: "bool \<Rightarrow> config \<Rightarrow> config" where
  "setunreliable unrel cfg = cfg\<lparr>cf_net := Reliable (\<not> unrel) (cf_net cfg)\<rparr>"

definition setlongreordering :: "bool \<Rightarrow> config \<Rightarrow> config" where
  "setlongreordering longrel cfg = cfg\<lparr>cf_net := LongReordering longrel (cf_net cfg)\<rparr>"

definition empty_config :: "nat \<Rightarrow> config" where
  "empty_config n =
     \<lparr>cf_net = MakeNetwork, cf_n = n, rafts = replicate n None, applyErr = replicate n '''',
      connected = replicate n False, saved_state = replicate n None, endnames = replicate n None,
      logs = replicate n Map.empty, rpcs0 = 0, cmds0 = 0, maxIndex = 0, maxIndex0 = 0\<rparr>"

definition make_config ::
  "nat \<Rightarrow> bool \<Rightarrow> (nat \<Rightarrow> string list) \<Rightarrow> (nat \<Rightarrow> nat) \<Rightarrow> (nat \<Rightarrow> tick) \<Rightarrow> config result" where
  "make_config n unreliable names addrs ts =
     (let cfg = setunreliable unreliable (empty_config n);
          cfg = cfg\<lparr>cf_net := LongDelays True (cf_net cfg)\<rparr> in
      bindE (forE (\<lambda>i cfg. start1 i (names i) (addrs i) (ts i) (cfg\<lparr>logs := (logs cfg)[i := Map.empty]\<rparr>)) [0..<n] cfg)
        (forE connect [0..<n]))"

text \<open>The limit of two minutes; whether the test has failed and the seconds since its start are arguments.\<close>

definition checkTimeout :: "bool \<Rightarrow> int \<Rightarrow> unit result" where
  "checkTimeout failed elapsed =
     (if \<not> failed \<and> elapsed > 120 then Inl (Fatal ''test took longer than 120 seconds'') else Inr ())"

definition cleanup :: "bool \<Rightarrow> int \<Rightarrow> config \<Rightarrow> config result" where
  "cleanup failed elapsed cfg =
     (let cfg = cfg\<lparr>rafts := map (map_option Kill) (rafts cfg), cf_net := Cleanup (cf_net cfg)\<rparr> in
      bindE (checkTimeout failed elapsed) (\<lambda>_. Inr cfg))"

definition rpcCount :: "nat \<Rightarrow> (nat \<Rightarrow> 's Server) \<Rightarrow> config \<Rightarrow> int result" where
  "rpcCount server srvs cfg = GetCount (server_name server) (cf_net cfg) srvs"

definition rpcTotal :: "config \<Rightarrow> int" where
  "rpcTotal cfg = GetTotalCount (cf_net cfg)"

text \<open>The statistics of a test: \<^verbatim>\<open>begin\<close> remembers where the counters stand, \<^verbatim>\<open>end\<close> reports the differences.\<close>

definition begin_test :: "config \<Rightarrow> config" where
  "begin_test cfg = cfg\<lparr>rpcs0 := rpcTotal cfg, cmds0 := 0, maxIndex0 := maxIndex cfg\<rparr>"

definition end_test :: "bool \<Rightarrow> int \<Rightarrow> config \<Rightarrow> (nat \<times> int \<times> int) option result" where
  "end_test failed elapsed cfg =
     bindE (checkTimeout failed elapsed) (\<lambda>_.
       Inr (if failed then None else Some (cf_n cfg, rpcTotal cfg - rpcs0 cfg, maxIndex cfg - maxIndex0 cfg)))"

section \<open>Which ends are enabled\<close>

text \<open>The operations on links switch a set of ends on or off.\<close>

definition switch :: "bool \<Rightarrow> string set \<Rightarrow> config \<Rightarrow> config" where
  "switch on E cfg =
     cfg\<lparr>cf_net := (cf_net cfg)\<lparr>enabled := (\<lambda>e. if e \<in> E then on else enabled (cf_net cfg) e)\<rparr>\<rparr>"

lemma switch_sel [simp]:
  "connected (switch on E cfg) = connected cfg" "endnames (switch on E cfg) = endnames cfg" "cf_n (switch on E cfg) = cf_n cfg"
  "rafts (switch on E cfg) = rafts cfg" "saved_state (switch on E cfg) = saved_state cfg"
  "ends (cf_net (switch on E cfg)) = ends (cf_net cfg)" "connections (cf_net (switch on E cfg)) = connections (cf_net cfg)"
  "servers (cf_net (switch on E cfg)) = servers (cf_net cfg)"
  "enabled (cf_net (switch on E cfg)) e = (if e \<in> E then on else enabled (cf_net cfg) e)"
  by (simp_all add: switch_def)

lemma switch_none: "switch on {} cfg = cfg"
  by (simp add: switch_def)

lemma switch_Enable: "(switch on E cfg)\<lparr>cf_net := Enable e on (cf_net (switch on E cfg))\<rparr> = switch on (insert e E) cfg"
  by (auto simp: switch_def Enable_def fun_eq_iff)

lemma forE_switch:
  assumes "\<And>j E. j \<in> set js \<Longrightarrow> f j (switch on E cfg) = Inr (switch on (E \<union> g j) cfg)"
  shows "forE f js (switch on E cfg) = Inr (switch on (E \<union> (\<Union>j \<in> set js. g j)) cfg)"
  using assms by (induction js arbitrary: E) (simp_all add: Un_assoc)

definition end_of :: "config \<Rightarrow> nat \<Rightarrow> nat \<Rightarrow> string" where
  "end_of cfg i j = the (endnames cfg ! i) ! j"

definition has_ends :: "config \<Rightarrow> nat \<Rightarrow> bool" where
  "has_ends cfg i \<longleftrightarrow> endnames cfg ! i \<noteq> None"

definition sizes_ok :: "config \<Rightarrow> bool" where
  "sizes_ok cfg \<longleftrightarrow> length (connected cfg) = cf_n cfg \<and> length (endnames cfg) = cf_n cfg \<and> length (rafts cfg) = cf_n cfg \<and>
     length (saved_state cfg) = cf_n cfg \<and> (\<forall>i < cf_n cfg. \<forall>ns. endnames cfg ! i = Some ns \<longrightarrow> length ns = cf_n cfg)"

lemma enable_end_eq:
  assumes "sizes_ok cfg" and "i < cf_n cfg" and "j < cf_n cfg" and "has_ends cfg i"
  shows "enable_end i j on (switch on E cfg) = Inr (switch on (E \<union> {end_of cfg i j}) cfg)"
proof -
  obtain ns where "endnames cfg ! i = Some ns" "length ns = cf_n cfg" "i < length (endnames cfg)"
    using assms by (auto simp: sizes_ok_def has_ends_def)
  then show ?thesis using assms(3) by (simp add: enable_end_def switch_Enable end_of_def)
qed

lemma switch_switch: "switch on E (switch on E' cfg) = switch on (E \<union> E') cfg"
  by (auto simp: switch_def fun_eq_iff)

lemma connect_eq:
  assumes sz: "sizes_ok cfg" and i: "i < cf_n cfg" "has_ends cfg i" and c: "c = (connected cfg)[i := True]"
    and run: "\<And>j. j < cf_n cfg \<Longrightarrow> connected cfg ! j \<Longrightarrow> has_ends cfg j"
  shows "connect i cfg = Inr (switch True ((\<Union>j \<in> {j. j < cf_n cfg \<and> c ! j}. {end_of cfg i j, end_of cfg j i}))
    (cfg\<lparr>connected := c\<rparr>))"
proof -
  let ?cfg = "cfg\<lparr>connected := c\<rparr>" and ?n = "cf_n cfg"
  have e: "end_of ?cfg = end_of cfg" by (simp add: end_of_def fun_eq_iff)
  have szc: "sizes_ok ?cfg" "length c = ?n" using sz c by (simp_all add: sizes_ok_def)
  have r: "has_ends ?cfg j" if "j < ?n" "c ! j" for j
    using that run [of j] i c by (cases "j = i") (auto simp: has_ends_def)
  have out: "forE (\<lambda>j cfg. bindE (go_index (connected cfg) (int j)) (\<lambda>on. if on then enable_end i j True cfg else Inr cfg)) [0..<?n]
      (switch True E ?cfg) = Inr (switch True (E \<union> (\<Union>j \<in> set [0..<?n]. if c ! j then {end_of cfg i j} else {})) ?cfg)" for E
    by (rule forE_switch) (use enable_end_eq [OF szc(1), of i] i szc e in \<open>auto simp: has_ends_def\<close>)
  have inn: "forE (\<lambda>j cfg. bindE (go_index (connected cfg) (int j)) (\<lambda>on. if on then enable_end j i True cfg else Inr cfg)) [0..<?n]
      (switch True E ?cfg) = Inr (switch True (E \<union> (\<Union>j \<in> set [0..<?n]. if c ! j then {end_of cfg j i} else {})) ?cfg)" for E
    by (rule forE_switch) (use enable_end_eq [OF szc(1), of _ i] i szc e r in auto)
  have "go_update (connected cfg) (int i) True = Inr c" using i sz c by (simp add: go_update_def sizes_ok_def)
  then have "connect i cfg = Inr (switch True ((\<Union>j \<in> set [0..<?n]. if c ! j then {end_of cfg i j} else {}) \<union>
      (\<Union>j \<in> set [0..<?n]. if c ! j then {end_of cfg j i} else {})) ?cfg)"
    using out [of "{}"] inn by (simp add: connect_def switch_none)
  also have "(\<Union>j \<in> set [0..<?n]. if c ! j then {end_of cfg i j} else {}) \<union>
      (\<Union>j \<in> set [0..<?n]. if c ! j then {end_of cfg j i} else {}) = (\<Union>j \<in> {j. j < ?n \<and> c ! j}. {end_of cfg i j, end_of cfg j i})"
    by (auto split: if_splits)
  finally show ?thesis .
qed

lemma disconnect_eq:
  assumes sz: "sizes_ok cfg" and i: "i < cf_n cfg" and c: "c = (connected cfg)[i := False]"
  shows "disconnect i cfg = Inr (switch False ((\<Union>j \<in> {..<cf_n cfg}. (if has_ends cfg i then {end_of cfg i j} else {}) \<union>
    (if has_ends cfg j then {end_of cfg j i} else {}))) (cfg\<lparr>connected := c\<rparr>))"
proof -
  let ?cfg = "cfg\<lparr>connected := c\<rparr>" and ?n = "cf_n cfg"
  have e: "end_of ?cfg = end_of cfg" "has_ends ?cfg = has_ends cfg" by (simp_all add: end_of_def has_ends_def fun_eq_iff)
  have szc: "sizes_ok ?cfg" "length (endnames cfg) = ?n" using sz c by (simp_all add: sizes_ok_def)
  have out: "forE (\<lambda>j cfg. bindE (go_index (endnames cfg) (int i)) (\<lambda>ns. if ns \<noteq> None then enable_end i j False cfg else Inr cfg)) [0..<?n]
      (switch False E ?cfg) = Inr (switch False (E \<union> (\<Union>j \<in> set [0..<?n]. if has_ends cfg i then {end_of cfg i j} else {})) ?cfg)" for E
    by (rule forE_switch) (use enable_end_eq [OF szc(1), of i] i szc e in \<open>auto simp: has_ends_def\<close>)
  have inn: "forE (\<lambda>j cfg. bindE (go_index (endnames cfg) (int j)) (\<lambda>ns. if ns \<noteq> None then enable_end j i False cfg else Inr cfg)) [0..<?n]
      (switch False E ?cfg) = Inr (switch False (E \<union> (\<Union>j \<in> set [0..<?n]. if has_ends cfg j then {end_of cfg j i} else {})) ?cfg)" for E
    by (rule forE_switch) (use enable_end_eq [OF szc(1), of _ i] i szc e in \<open>auto simp: has_ends_def\<close>)
  have "go_update (connected cfg) (int i) False = Inr c" using i sz c by (simp add: go_update_def sizes_ok_def)
  then have "disconnect i cfg = Inr (switch False ((\<Union>j \<in> set [0..<?n]. if has_ends cfg i then {end_of cfg i j} else {}) \<union>
      (\<Union>j \<in> set [0..<?n]. if has_ends cfg j then {end_of cfg j i} else {})) ?cfg)"
    using out [of "{}"] inn by (simp add: disconnect_def switch_none)
  also have "(\<Union>j \<in> set [0..<?n]. if has_ends cfg i then {end_of cfg i j} else {}) \<union>
      (\<Union>j \<in> set [0..<?n]. if has_ends cfg j then {end_of cfg j i} else {}) =
      (\<Union>j \<in> {..<?n}. (if has_ends cfg i then {end_of cfg i j} else {}) \<union> (if has_ends cfg j then {end_of cfg j i} else {}))"
    by (auto split: if_splits)
  finally show ?thesis .
qed

section \<open>The invariant of the links\<close>

definition link_inv :: "config \<Rightarrow> bool" where
  "link_inv cfg \<longleftrightarrow> sizes_ok cfg \<and> (\<forall>i < cf_n cfg. connected cfg ! i \<longrightarrow> has_ends cfg i) \<and>
     (\<forall>i < cf_n cfg. \<forall>j < cf_n cfg. has_ends cfg i \<longrightarrow> end_of cfg i j \<in> set (ends (cf_net cfg)) \<and>
        connections (cf_net cfg) (end_of cfg i j) = Some (server_name j)) \<and>
     (\<forall>i < cf_n cfg. \<forall>j < cf_n cfg. \<forall>i' < cf_n cfg. \<forall>j' < cf_n cfg. has_ends cfg i \<longrightarrow> has_ends cfg i' \<longrightarrow>
        end_of cfg i j = end_of cfg i' j' \<longrightarrow> i = i' \<and> j = j') \<and>
     (\<forall>e. enabled (cf_net cfg) e \<longleftrightarrow>
        (\<exists>i < cf_n cfg. \<exists>j < cf_n cfg. connected cfg ! i \<and> connected cfg ! j \<and> e = end_of cfg i j))"

lemma link_invD:
  assumes "link_inv cfg"
  shows "sizes_ok cfg" "i < cf_n cfg \<Longrightarrow> connected cfg ! i \<Longrightarrow> has_ends cfg i"
    "i < cf_n cfg \<Longrightarrow> j < cf_n cfg \<Longrightarrow> has_ends cfg i \<Longrightarrow> end_of cfg i j \<in> set (ends (cf_net cfg))"
    "i < cf_n cfg \<Longrightarrow> j < cf_n cfg \<Longrightarrow> has_ends cfg i \<Longrightarrow> connections (cf_net cfg) (end_of cfg i j) = Some (server_name j)"
    "i < cf_n cfg \<Longrightarrow> j < cf_n cfg \<Longrightarrow> i' < cf_n cfg \<Longrightarrow> j' < cf_n cfg \<Longrightarrow> has_ends cfg i \<Longrightarrow> has_ends cfg i' \<Longrightarrow>
       end_of cfg i j = end_of cfg i' j' \<Longrightarrow> i = i' \<and> j = j'"
    "enabled (cf_net cfg) e \<longleftrightarrow> (\<exists>i < cf_n cfg. \<exists>j < cf_n cfg. connected cfg ! i \<and> connected cfg ! j \<and> e = end_of cfg i j)"
  using assms unfolding link_inv_def by blast+

text \<open>What of a configuration the links depend on.\<close>

lemma link_inv_cong:
  assumes "cf_n cfg' = cf_n cfg" and "connected cfg' = connected cfg" and "endnames cfg' = endnames cfg"
    and "length (rafts cfg') = length (rafts cfg)" and "length (saved_state cfg') = length (saved_state cfg)"
    and "ends (cf_net cfg') = ends (cf_net cfg)" and "connections (cf_net cfg') = connections (cf_net cfg)"
    and "enabled (cf_net cfg') = enabled (cf_net cfg)"
  shows "link_inv cfg' = link_inv cfg"
  using assms by (simp add: link_inv_def sizes_ok_def has_ends_def end_of_def)

lemma link_connect:
  assumes inv: "link_inv cfg" and i: "i < cf_n cfg" "has_ends cfg i"
  shows "\<exists>cfg'. connect i cfg = Inr cfg' \<and> link_inv cfg' \<and> connected cfg' = (connected cfg)[i := True] \<and>
    endnames cfg' = endnames cfg \<and> cf_n cfg' = cf_n cfg \<and> rafts cfg' = rafts cfg \<and> saved_state cfg' = saved_state cfg \<and>
    ends (cf_net cfg') = ends (cf_net cfg) \<and> servers (cf_net cfg') = servers (cf_net cfg) \<and>
    connections (cf_net cfg') = connections (cf_net cfg)"
proof -
  let ?c = "(connected cfg)[i := True]" and ?n = "cf_n cfg"
  let ?E = "\<Union>j \<in> {j. j < ?n \<and> ?c ! j}. {end_of cfg i j, end_of cfg j i}"
  let ?cfg = "switch True ?E (cfg\<lparr>connected := ?c\<rparr>)"
  note D = link_invD [OF inv]
  have eq: "connect i cfg = Inr ?cfg" by (rule connect_eq [OF D(1) i refl D(2)])
  have e: "end_of ?cfg = end_of cfg" "has_ends ?cfg = has_ends cfg" by (simp_all add: end_of_def has_ends_def fun_eq_iff)
  have l: "length (connected cfg) = ?n" using D(1) by (simp add: sizes_ok_def)
  have c: "?c ! a \<longleftrightarrow> connected cfg ! a \<or> a = i" if "a < ?n" for a by (cases "a = i") (use that l in simp_all)
  have "enabled (cf_net ?cfg) x \<longleftrightarrow> (\<exists>a < ?n. \<exists>b < ?n. ?c ! a \<and> ?c ! b \<and> x = end_of cfg a b)" for x
  proof
    assume "enabled (cf_net ?cfg) x"
    then consider j where "j < ?n" "?c ! j" "x = end_of cfg i j \<or> x = end_of cfg j i" | "enabled (cf_net cfg) x"
      by (auto split: if_splits)
    then show "\<exists>a < ?n. \<exists>b < ?n. ?c ! a \<and> ?c ! b \<and> x = end_of cfg a b"
    proof cases
      case 1
      then show ?thesis using i(1) c by blast
    next
      case 2
      then show ?thesis using c unfolding D(6) by blast
    qed
  next
    assume "\<exists>a < ?n. \<exists>b < ?n. ?c ! a \<and> ?c ! b \<and> x = end_of cfg a b"
    then obtain a b where ab: "a < ?n" "b < ?n" "?c ! a" "?c ! b" "x = end_of cfg a b" by blast
    show "enabled (cf_net ?cfg) x"
    proof (cases "a = i \<or> b = i")
      case True
      then have "x \<in> ?E" using ab by blast
      then show ?thesis by simp
    next
      case False
      then have "enabled (cf_net cfg) x" using ab unfolding D(6) by auto
      then show ?thesis by simp
    qed
  qed
  moreover have "sizes_ok ?cfg" using D(1) by (simp add: sizes_ok_def)
  moreover have "has_ends cfg j" if "j < ?n" "?c ! j" for j using that D(2) i by (cases "j = i") auto
  ultimately have "link_inv ?cfg" using D(3-5) unfolding link_inv_def e by simp
  then show ?thesis using eq by auto
qed

lemma link_disconnect:
  assumes inv: "link_inv cfg" and i: "i < cf_n cfg"
  shows "\<exists>cfg'. disconnect i cfg = Inr cfg' \<and> link_inv cfg' \<and> connected cfg' = (connected cfg)[i := False] \<and>
    endnames cfg' = endnames cfg \<and> cf_n cfg' = cf_n cfg \<and> rafts cfg' = rafts cfg \<and> saved_state cfg' = saved_state cfg \<and>
    ends (cf_net cfg') = ends (cf_net cfg) \<and> servers (cf_net cfg') = servers (cf_net cfg) \<and>
    connections (cf_net cfg') = connections (cf_net cfg)"
proof -
  let ?c = "(connected cfg)[i := False]" and ?n = "cf_n cfg"
  let ?E = "\<Union>j \<in> {..<?n}. (if has_ends cfg i then {end_of cfg i j} else {}) \<union> (if has_ends cfg j then {end_of cfg j i} else {})"
  let ?cfg = "switch False ?E (cfg\<lparr>connected := ?c\<rparr>)"
  note D = link_invD [OF inv]
  have eq: "disconnect i cfg = Inr ?cfg" by (rule disconnect_eq [OF D(1) i refl])
  have e: "end_of ?cfg = end_of cfg" "has_ends ?cfg = has_ends cfg" by (simp_all add: end_of_def has_ends_def fun_eq_iff)
  have l: "length (connected cfg) = ?n" using D(1) by (simp add: sizes_ok_def)
  have c: "?c ! a \<longleftrightarrow> connected cfg ! a \<and> a \<noteq> i" if "a < ?n" for a by (cases "a = i") (use that l in simp_all)
  have E: "x \<in> ?E \<longleftrightarrow> (\<exists>j < ?n. has_ends cfg i \<and> x = end_of cfg i j \<or> has_ends cfg j \<and> x = end_of cfg j i)" for x
    by (auto split: if_splits)
  have "enabled (cf_net ?cfg) x \<longleftrightarrow> (\<exists>a < ?n. \<exists>b < ?n. ?c ! a \<and> ?c ! b \<and> x = end_of cfg a b)" for x
  proof
    assume en: "enabled (cf_net ?cfg) x"
    then have x: "x \<notin> ?E" "enabled (cf_net cfg) x" by (auto split: if_splits)
    then obtain a b where ab: "a < ?n" "b < ?n" "connected cfg ! a" "connected cfg ! b" "x = end_of cfg a b"
      unfolding D(6) by blast
    then have "\<not> (a = i \<or> b = i)" using x(1) D(2) unfolding E by blast
    then show "\<exists>a < ?n. \<exists>b < ?n. ?c ! a \<and> ?c ! b \<and> x = end_of cfg a b" using ab c by blast
  next
    assume "\<exists>a < ?n. \<exists>b < ?n. ?c ! a \<and> ?c ! b \<and> x = end_of cfg a b"
    then obtain a b where ab: "a < ?n" "b < ?n" "connected cfg ! a" "a \<noteq> i" "connected cfg ! b" "b \<noteq> i" "x = end_of cfg a b"
      using c by blast
    then have "x \<notin> ?E" using D(2,5) i unfolding E by blast
    moreover have "enabled (cf_net cfg) x" using ab unfolding D(6) by blast
    ultimately show "enabled (cf_net ?cfg) x" by simp
  qed
  moreover have "sizes_ok ?cfg" using D(1) by (simp add: sizes_ok_def)
  ultimately have "link_inv ?cfg" using D(2-5) c unfolding link_inv_def e by simp
  then show ?thesis using eq by auto
qed

lemma link_crash1:
  assumes inv: "link_inv cfg" and i: "i < cf_n cfg"
  shows "\<exists>cfg'. crash1 i cfg = Inr cfg' \<and> link_inv cfg' \<and> connected cfg' = (connected cfg)[i := False] \<and>
    endnames cfg' = endnames cfg \<and> cf_n cfg' = cf_n cfg \<and> ends (cf_net cfg') = ends (cf_net cfg) \<and>
    rafts cfg' = (rafts cfg)[i := None] \<and>
    saved_state cfg' = (saved_state cfg)[i := map_option (\<lambda>p. SaveRaftState MakePersister (ReadRaftState p)) (saved_of i cfg)] \<and>
    servers (cf_net cfg') = (servers (cf_net cfg))(server_name i := None) \<and>
    connections (cf_net cfg') = connections (cf_net cfg)"
proof -
  obtain d where d: "disconnect i cfg = Inr d" "link_inv d" "connected d = (connected cfg)[i := False]"
      "endnames d = endnames cfg" "cf_n d = cf_n cfg" "rafts d = rafts cfg" "saved_state d = saved_state cfg"
      "ends (cf_net d) = ends (cf_net cfg)" "servers (cf_net d) = servers (cf_net cfg)"
      "connections (cf_net d) = connections (cf_net cfg)"
    using link_disconnect [OF inv i] by blast
  have s: "saved_of i (d\<lparr>cf_net := r\<rparr>) = saved_of i cfg" for r by (cases "rafts cfg ! i") (use d in \<open>simp_all add: saved_of_def\<close>)
  let ?s = "map_option ((\<lambda>p. SaveRaftState MakePersister (ReadRaftState p)) \<circ> Copy) (saved_of i cfg)"
  let ?c = "d\<lparr>cf_net := DeleteServer (server_name i) (cf_net d), rafts := (rafts d)[i := None], saved_state := (saved_state d)[i := ?s]\<rparr>"
  have c: "crash1 i cfg = Inr ?c"
    using d(1) s by (simp add: crash1_def Let_def option.map_comp)
  have "?s = map_option (\<lambda>p. SaveRaftState MakePersister (ReadRaftState p)) (saved_of i cfg)"
    by (simp add: option.map_comp comp_def)
  moreover have "link_inv ?c" by (subst link_inv_cong [of _ d]) (use d in \<open>simp_all add: DeleteServer_def\<close>)
  ultimately show ?thesis unfolding c using d by (simp add: DeleteServer_def)
qed

section \<open>Starting a peer\<close>

text \<open>Names that no client end has yet.\<close>

definition fresh_names :: "string list \<Rightarrow> config \<Rightarrow> bool" where
  "fresh_names ns cfg \<longleftrightarrow> length ns = cf_n cfg \<and> distinct ns \<and> set ns \<inter> set (ends (cf_net cfg)) = {}"

text \<open>The ends in \<open>ns\<close> have been made, are not enabled, and lead to the servers in order.\<close>

definition ends_made :: "string list \<Rightarrow> nat \<Rightarrow> config \<Rightarrow> config \<Rightarrow> bool" where
  "ends_made ns k cfg cfg' \<longleftrightarrow> (\<exists>net. cfg' = cfg\<lparr>cf_net := net\<rparr> \<and>
     set (ends net) = set (take k ns) \<union> set (ends (cf_net cfg)) \<and> servers net = servers (cf_net cfg) \<and>
     (\<forall>e. enabled net e = (e \<notin> set (take k ns) \<and> enabled (cf_net cfg) e)) \<and>
     (\<forall>j < k. connections net (ns ! j) = Some (server_name j)) \<and>
     (\<forall>e. e \<notin> set (take k ns) \<longrightarrow> connections net e = connections (cf_net cfg) e))"

lemma make_ends:
  assumes "distinct ns" and "set ns \<inter> set (ends (cf_net cfg)) = {}" and "k \<le> length ns"
  shows "\<exists>cfg'. forE (make_end ns) [0..<k] cfg = Inr cfg' \<and> ends_made ns k cfg cfg'"
  using assms(3)
proof (induction k)
  case 0
  show ?case by (auto simp: ends_made_def intro!: exI [of _ "cf_net cfg"])
next
  case (Suc k)
  then obtain net where m: "forE (make_end ns) [0..<k] cfg = Inr (cfg\<lparr>cf_net := net\<rparr>)"
      "set (ends net) = set (take k ns) \<union> set (ends (cf_net cfg))" "servers net = servers (cf_net cfg)"
      "\<And>e. enabled net e = (e \<notin> set (take k ns) \<and> enabled (cf_net cfg) e)"
      "\<And>j. j < k \<Longrightarrow> connections net (ns ! j) = Some (server_name j)"
      "\<And>e. e \<notin> set (take k ns) \<Longrightarrow> connections net e = connections (cf_net cfg) e"
    by (auto simp: ends_made_def)
  have k: "k < length ns" using Suc.prems by simp
  then have nk: "ns ! k \<notin> set (take k ns)" using assms(1) by (auto simp: in_set_conv_nth nth_eq_iff_index_eq)
  have nk': "ns ! k \<notin> set (ends (cf_net cfg))" using nth_mem [OF k] assms(2) by blast
  have tk: "take (Suc k) ns = take k ns @ [ns ! k]" using k by (simp add: take_Suc_conv_app_nth)
  have inj: "ns ! j \<noteq> ns ! k" if "j < k" for j using that k assms(1) by (simp add: nth_eq_iff_index_eq)
  let ?net = "Connect (ns ! k) (server_name k) (net\<lparr>ends := ns ! k # ends net, enabled := (enabled net)(ns ! k := False),
    connections := (connections net)(ns ! k := None)\<rparr>)"
  have "forE (make_end ns) [0..<Suc k] cfg = Inr (cfg\<lparr>cf_net := ?net\<rparr>)"
    using m(1,2) k nk nk' by (simp add: forE_snoc make_end_def MakeEnd_def)
  moreover have "ends_made ns (Suc k) cfg (cfg\<lparr>cf_net := ?net\<rparr>)"
    unfolding ends_made_def using m(2-6) inj
    by (intro exI [of _ ?net]) (auto simp: tk Connect_def less_Suc_eq)
  ultimately show ?case by blast
qed

text \<open>The persister from which \<^verbatim>\<open>start1\<close> restarts a peer, given what was saved for it.\<close>

definition restart_from :: "gval Persister option \<Rightarrow> gval Persister" where
  "restart_from sv =
     (case sv of None \<Rightarrow> MakePersister | Some p \<Rightarrow> Copy (SaveRaftState MakePersister (ReadRaftState p)))"

lemma link_start1:
  assumes inv: "link_inv cfg" and i: "i < cf_n cfg" and ns: "fresh_names ns cfg"
    and rf: "Make ns (int i) (restart_from (saved_of i cfg)) t = Inr rf"
  shows "\<exists>cfg'. start1 i ns addr t cfg = Inr cfg' \<and> link_inv cfg' \<and> connected cfg' = (connected cfg)[i := False] \<and>
    endnames cfg' = (endnames cfg)[i := Some ns] \<and> cf_n cfg' = cf_n cfg \<and>
    set (ends (cf_net cfg')) = set ns \<union> set (ends (cf_net cfg)) \<and> rafts cfg' = (rafts cfg)[i := Some rf] \<and>
    (\<forall>k. k \<noteq> i \<longrightarrow> saved_state cfg' ! k = saved_state cfg ! k) \<and>
    servers (cf_net cfg') = (servers (cf_net cfg))(server_name i := Some addr) \<and>
    (\<forall>e. e \<notin> set ns \<longrightarrow> connections (cf_net cfg') e = connections (cf_net cfg) e)"
proof -
  let ?n = "cf_n cfg"
  obtain c where c: "crash1 i cfg = Inr c" "link_inv c" "connected c = (connected cfg)[i := False]" "endnames c = endnames cfg"
      "cf_n c = ?n" "ends (cf_net c) = ends (cf_net cfg)" "rafts c = (rafts cfg)[i := None]"
      "saved_state c = (saved_state cfg)[i := map_option (\<lambda>p. SaveRaftState MakePersister (ReadRaftState p)) (saved_of i cfg)]"
      "servers (cf_net c) = (servers (cf_net cfg))(server_name i := None)" "connections (cf_net c) = connections (cf_net cfg)"
    using link_crash1 [OF inv i] by blast
  note D = link_invD [OF c(2)]
  have sz: "length (endnames cfg) = ?n" "length (saved_state cfg) = ?n" "length (rafts cfg) = ?n" "length (connected cfg) = ?n"
    using link_invD(1) [OF inv] by (simp_all add: sizes_ok_def)
  have ns': "length ns = ?n" "distinct ns" "set ns \<inter> set (ends (cf_net cfg)) = {}" using ns by (simp_all add: fresh_names_def)
  let ?c = "c\<lparr>endnames := (endnames c)[i := Some ns]\<rparr>"
  obtain net where m: "forE (make_end ns) [0..<?n] ?c = Inr (?c\<lparr>cf_net := net\<rparr>)" "set (ends net) = set ns \<union> set (ends (cf_net cfg))"
      "\<And>e. enabled net e = (e \<notin> set ns \<and> enabled (cf_net c) e)" "\<And>j. j < ?n \<Longrightarrow> connections net (ns ! j) = Some (server_name j)"
      "\<And>e. e \<notin> set ns \<Longrightarrow> connections net e = connections (cf_net c) e" "servers net = servers (cf_net c)"
    using make_ends [OF ns'(2), of ?c ?n] ns' c(6) by (auto simp: ends_made_def)
  define pers where "pers = (case saved_state c ! i of Some p \<Rightarrow> Copy p | None \<Rightarrow> MakePersister)"
  have pr: "pers = restart_from (saved_of i cfg)"
    using i sz c(8) by (cases "saved_of i cfg") (simp_all add: pers_def restart_from_def)
  define d where "d = ?c\<lparr>cf_net := AddServer (server_name i) addr net, saved_state := (saved_state c)[i := Some pers],
    rafts := (rafts c)[i := Some rf]\<rparr>"
  have st: "start1 i ns addr t cfg = Inr d"
    using c(1,5) m(1) rf pr by (simp add: start1_def Let_def pers_def [symmetric] d_def)
  have dsel: "connected d = (connected cfg)[i := False]" "endnames d = (endnames cfg)[i := Some ns]" "cf_n d = ?n"
      "ends (cf_net d) = ends net" "enabled (cf_net d) = enabled net" "connections (cf_net d) = connections net"
    using c by (simp_all add: d_def AddServer_def)
  have he: "has_ends d a \<longleftrightarrow> a = i \<or> has_ends c a" "end_of d a b = (if a = i then ns ! b else end_of c a b)" if "a < ?n" for a b
    using that i sz c(4) dsel(2) by (auto simp: has_ends_def end_of_def nth_list_update)
  have old: "end_of c a b \<notin> set ns" if "a < ?n" "b < ?n" "has_ends c a" for a b
    using D(3) [of a b] that c(5,6) ns'(3) by auto
  have ci: "\<not> connected d ! i" using dsel(1) i sz by simp
  have "sizes_ok d" using D(1) c(3-5) dsel(1-3) ns'(1) sz i by (auto simp: sizes_ok_def d_def nth_list_update)
  moreover have "has_ends d a" if "a < ?n" "connected d ! a" for a using that D(2) he(1) c(3,5) dsel(1) by simp
  moreover have "end_of d a b \<in> set (ends (cf_net d)) \<and> connections (cf_net d) (end_of d a b) = Some (server_name b)"
    if "a < ?n" "b < ?n" "has_ends d a" for a b
    using that he [OF that(1)] D(3,4) [of a b] old [of a b] m(2,4,5) ns'(1) c(5,6) dsel(4,6) by auto
  moreover have "a = a' \<and> b = b'" if "a < ?n" "b < ?n" "a' < ?n" "b' < ?n" "has_ends d a" "has_ends d a'" "end_of d a b = end_of d a' b'"
    for a b a' b'
    using that he D(5) [of a b a' b'] old ns'(1,2) c(5)
    by (cases "a = i"; cases "a' = i") (auto simp: nth_eq_iff_index_eq dest: nth_mem, (metis nth_mem)+)
  moreover have "enabled (cf_net d) e \<longleftrightarrow> (\<exists>a < ?n. \<exists>b < ?n. connected d ! a \<and> connected d ! b \<and> e = end_of d a b)" for e
  proof -
    have same: "end_of d a b = end_of c a b" if "connected d ! a" "a < ?n" for a b using that ci he(2) by auto
    have new: "end_of c a b \<notin> set ns" if "connected c ! a" "a < ?n" "b < ?n" for a b using old that D(2) c(5) by simp
    have cc: "connected d = connected c" using c(3) dsel(1) by simp
    have "enabled (cf_net d) e \<longleftrightarrow> e \<notin> set ns \<and> (\<exists>a < ?n. \<exists>b < ?n. connected c ! a \<and> connected c ! b \<and> e = end_of c a b)"
      unfolding dsel(5) m(3) D(6) c(5) ..
    also have "\<dots> \<longleftrightarrow> (\<exists>a < ?n. \<exists>b < ?n. connected c ! a \<and> connected c ! b \<and> e = end_of c a b)" using new by blast
    also have "\<dots> \<longleftrightarrow> (\<exists>a < ?n. \<exists>b < ?n. connected d ! a \<and> connected d ! b \<and> e = end_of d a b)" 
      unfolding cc [symmetric] by (simp add: same cong: conj_cong)
    finally show ?thesis .
  qed
  ultimately have "link_inv d" unfolding link_inv_def dsel(3) by blast
  moreover have "rafts d = (rafts cfg)[i := Some rf]" "\<forall>k. k \<noteq> i \<longrightarrow> saved_state d ! k = saved_state cfg ! k"
    using c(7,8) by (simp_all add: d_def)
  moreover have "servers (cf_net d) = (servers (cf_net cfg))(server_name i := Some addr)"
    using c(9) m(6) by (simp add: d_def AddServer_def)
  ultimately show ?thesis using st dsel(1-4,6) m(2,5) c(10) by (intro exI [of _ d]) simp
qed

section \<open>What the tests do\<close>

text \<open>\<open>Peer_op\<close>: the running peer \<open>i\<close> has done something, and is now in the given state.\<close>

datatype config_op =
    Connect_op nat
  | Disconnect_op nat
  | Crash_op nat
  | Start_op nat "string list" nat tick
  | Peer_op nat Raft

fun config_step :: "config_op \<Rightarrow> config \<Rightarrow> config result" where
  "config_step (Connect_op i) cfg = connect i cfg"
| "config_step (Disconnect_op i) cfg = disconnect i cfg"
| "config_step (Crash_op i) cfg = crash1 i cfg"
| "config_step (Start_op i ns addr t) cfg = start1 i ns addr t cfg"
| "config_step (Peer_op i rf) cfg = Inr (cfg\<lparr>rafts := (rafts cfg)[i := map_option (\<lambda>_. rf) (rafts cfg ! i)]\<rparr>)"

text \<open>
  Operations name existing peers, only a running peer is connected, new ends get new names, and peers keep what
  they persist in a state that can be restored.
\<close>

definition restorable :: "gval Persister \<Rightarrow> bool" where
  "restorable p \<longleftrightarrow> (\<exists>rf. saved rf \<and> sendable_log (Log rf) \<and> ReadRaftState p = ReadRaftState (persister rf))"

fun op_ok :: "config_op \<Rightarrow> config \<Rightarrow> bool" where
  "op_ok (Connect_op i) cfg = (i < cf_n cfg \<and> rafts cfg ! i \<noteq> None)"
| "op_ok (Disconnect_op i) cfg = (i < cf_n cfg)"
| "op_ok (Crash_op i) cfg = (i < cf_n cfg)"
| "op_ok (Start_op i ns addr t) cfg = (i < cf_n cfg \<and> fresh_names ns cfg)"
| "op_ok (Peer_op i rf) cfg = (i < cf_n cfg \<and> restorable (persister rf))"

primrec config_run :: "config_op list \<Rightarrow> config \<Rightarrow> config result" where
  "config_run [] cfg = Inr cfg"
| "config_run (a # as) cfg = bindE (config_step a cfg) (config_run as)"

primrec ops_ok :: "config_op list \<Rightarrow> config \<Rightarrow> bool" where
  "ops_ok [] cfg = True"
| "ops_ok (a # as) cfg = (op_ok a cfg \<and> (case config_step a cfg of Inr cfg' \<Rightarrow> ops_ok as cfg' | Inl _ \<Rightarrow> True))"

definition saves_ok :: "config \<Rightarrow> bool" where
  "saves_ok cfg \<longleftrightarrow> (\<forall>i < cf_n cfg. \<forall>p. saved_of i cfg = Some p \<longrightarrow> restorable p)"

lemma restorable_cong: "ReadRaftState p = ReadRaftState q \<Longrightarrow> restorable p = restorable q"
  by (simp add: restorable_def)

lemma Make_restorable:
  assumes "restorable p"
  shows "\<exists>rf. Make ns i (Copy (SaveRaftState MakePersister (ReadRaftState p))) t = Inr rf \<and> restorable (persister rf)"
proof -
  obtain rf0 where r: "saved rf0" "sendable_log (Log rf0)" "ReadRaftState p = ReadRaftState (persister rf0)"
    using assms by (auto simp: restorable_def)
  let ?q = "SaveRaftState MakePersister (ReadRaftState p) :: gval Persister"
  define rf1 where "rf1 = rf0\<lparr>persister := ?q\<rparr>"
  have "saved rf1" "sendable_log (Log rf1)" "persister rf1 = ?q"
    using r by (simp_all add: rf1_def saved_def persistData_def)
  then obtain rf where "Make ns i (Copy ?q) t = Inr rf" "saved rf" "Log rf = Log rf1"
    using Make_recovers_state [of rf1 ns i t] by auto
  then show ?thesis using \<open>sendable_log (Log rf1)\<close> unfolding restorable_def by metis
qed

lemma Make_new: "\<exists>rf. Make ns i MakePersister t = Inr rf \<and> restorable (persister rf)"
proof -
  let ?rf = "projr (Make ns i MakePersister t)"
  have "Make ns i MakePersister t = Inr ?rf" "saved ?rf" "sendable_log (Log ?rf)"
    by (simp_all add: Make_fresh) (simp_all add: saved_def sendable_log_def)
  then show ?thesis unfolding restorable_def by blast
qed

definition harness_inv :: "config \<Rightarrow> bool" where
  "harness_inv cfg \<longleftrightarrow> link_inv cfg \<and> saves_ok cfg \<and>
     (\<forall>i < cf_n cfg. (connected cfg ! i \<longrightarrow> rafts cfg ! i \<noteq> None) \<and> (rafts cfg ! i \<noteq> None \<longrightarrow> has_ends cfg i))"

lemma harness_invD:
  assumes "harness_inv cfg"
  shows "link_inv cfg" "saves_ok cfg" "i < cf_n cfg \<Longrightarrow> connected cfg ! i \<Longrightarrow> rafts cfg ! i \<noteq> None"
    "i < cf_n cfg \<Longrightarrow> rafts cfg ! i \<noteq> None \<Longrightarrow> has_ends cfg i"
    "length (rafts cfg) = cf_n cfg" "length (connected cfg) = cf_n cfg" "length (saved_state cfg) = cf_n cfg"
    "length (endnames cfg) = cf_n cfg"
  using assms by (auto simp: harness_inv_def link_inv_def sizes_ok_def)

lemma restart_ok:
  assumes "saves_ok cfg" and "i < cf_n cfg"
  obtains rf where "Make ns (int i) (restart_from (saved_of i cfg)) t = Inr rf" "restorable (persister rf)"
proof (cases "saved_of i cfg")
  case None
  then show thesis using Make_new [of ns "int i" t] that by (auto simp: restart_from_def)
next
  case (Some p)
  then have "restorable p" using assms by (simp add: saves_ok_def)
  then show thesis using Make_restorable [of p ns "int i" t] that Some by (auto simp: restart_from_def)
qed

lemma harness_start1:
  assumes inv: "harness_inv cfg" and i: "i < cf_n cfg" and ns: "fresh_names ns cfg"
  shows "\<exists>cfg'. start1 i ns addr t cfg = Inr cfg' \<and> harness_inv cfg' \<and> cf_n cfg' = cf_n cfg \<and>
    set (ends (cf_net cfg')) = set ns \<union> set (ends (cf_net cfg)) \<and> rafts cfg' ! i \<noteq> None \<and>
    (\<forall>k < cf_n cfg. rafts cfg ! k \<noteq> None \<longrightarrow> rafts cfg' ! k \<noteq> None)"
proof -
  note D = harness_invD [OF inv]
  obtain rf where rf: "Make ns (int i) (restart_from (saved_of i cfg)) t = Inr rf" "restorable (persister rf)"
    by (rule restart_ok [OF D(2) i])
  obtain c where c: "start1 i ns addr t cfg = Inr c" "link_inv c" "connected c = (connected cfg)[i := False]"
      "endnames c = (endnames cfg)[i := Some ns]" "cf_n c = cf_n cfg" "set (ends (cf_net c)) = set ns \<union> set (ends (cf_net cfg))"
      "rafts c = (rafts cfg)[i := Some rf]" "\<forall>k. k \<noteq> i \<longrightarrow> saved_state c ! k = saved_state cfg ! k"
    using link_start1 [OF D(1) i ns rf(1), of addr] by blast
  have "saved_of k c = (if k = i then Some (persister rf) else saved_of k cfg)" if "k < cf_n cfg" for k
    using that c(7,8) D(5) i by (auto simp: saved_of_def nth_list_update split: option.splits)
  then have "saves_ok c" using D(2) rf(2) c(5) by (simp add: saves_ok_def)
  moreover have "(connected c ! k \<longrightarrow> rafts c ! k \<noteq> None) \<and> (rafts c ! k \<noteq> None \<longrightarrow> has_ends c k)" if "k < cf_n cfg" for k
    using that D(3,4) [of k] D(5,6,8) c(3,4,7) i by (cases "k = i") (simp_all add: has_ends_def)
  ultimately have "harness_inv c" using c(2,5) by (simp add: harness_inv_def)
  moreover have "rafts c ! k \<noteq> None" if "k < cf_n cfg" "rafts cfg ! k \<noteq> None \<or> k = i" for k
    using that c(7) D(5) i by (cases "k = i") simp_all
  ultimately show ?thesis using c(1,5,6) i by (intro exI [of _ c]) simp
qed

lemma harness_crash1:
  assumes inv: "harness_inv cfg" and i: "i < cf_n cfg"
  shows "\<exists>cfg'. crash1 i cfg = Inr cfg' \<and> harness_inv cfg'"
proof -
  note D = harness_invD [OF inv]
  obtain c where c: "crash1 i cfg = Inr c" "link_inv c" "connected c = (connected cfg)[i := False]" "endnames c = endnames cfg"
      "cf_n c = cf_n cfg" "rafts c = (rafts cfg)[i := None]"
      "saved_state c = (saved_state cfg)[i := map_option (\<lambda>p. SaveRaftState MakePersister (ReadRaftState p)) (saved_of i cfg)]"
    using link_crash1 [OF D(1) i] by blast
  have "saved_of k c = (if k = i then map_option (\<lambda>p. SaveRaftState MakePersister (ReadRaftState p)) (saved_of i cfg)
      else saved_of k cfg)" if "k < cf_n cfg" for k
    using that c(6,7) D(5,7) i by (auto simp: saved_of_def nth_list_update split: option.splits)
  moreover have "restorable (SaveRaftState MakePersister (ReadRaftState p))" if "restorable p" for p
    using that by (simp add: restorable_def)
  ultimately have "saves_ok c" using D(2) c(5) i by (auto simp: saves_ok_def)
  moreover have "(connected c ! k \<longrightarrow> rafts c ! k \<noteq> None) \<and> (rafts c ! k \<noteq> None \<longrightarrow> has_ends c k)" if "k < cf_n cfg" for k
    using that D(3,4) [of k] D(5,6) c(3,4,6) i by (cases "k = i") (simp_all add: has_ends_def)
  ultimately show ?thesis using c(1,2,5) by (simp add: harness_inv_def)
qed

lemma harness_step:
  assumes inv: "harness_inv cfg" and ok: "op_ok a cfg"
  shows "\<exists>cfg'. config_step a cfg = Inr cfg' \<and> harness_inv cfg'"
proof -
  note D = harness_invD [OF inv]
  have same: "saves_ok c = saves_ok cfg" if "rafts c = rafts cfg" "saved_state c = saved_state cfg" "cf_n c = cf_n cfg" for c
  proof -
    have "saved_of k c = saved_of k cfg" for k using that by (cases "rafts cfg ! k") (simp_all add: saved_of_def)
    then show ?thesis using that(3) by (simp add: saves_ok_def)
  qed
  show ?thesis
  proof (cases a)
    case (Connect_op i)
    then have i: "i < cf_n cfg" "rafts cfg ! i \<noteq> None" using ok by simp_all
    obtain c where c: "connect i cfg = Inr c" "link_inv c" "connected c = (connected cfg)[i := True]" "endnames c = endnames cfg"
        "cf_n c = cf_n cfg" "rafts c = rafts cfg" "saved_state c = saved_state cfg"
      using link_connect [OF D(1) i(1) D(4) [OF i]] by blast
    have "(connected c ! k \<longrightarrow> rafts c ! k \<noteq> None) \<and> (rafts c ! k \<noteq> None \<longrightarrow> has_ends c k)" if "k < cf_n cfg" for k
      using that D(3,4) [of k] D(6) c(3,4,6) i by (cases "k = i") (simp_all add: has_ends_def)
    then show ?thesis using Connect_op c(1,2,5) same [OF c(6,7,5)] D(2) by (simp add: harness_inv_def)
  next
    case (Disconnect_op i)
    then have i: "i < cf_n cfg" using ok by simp
    obtain c where c: "disconnect i cfg = Inr c" "link_inv c" "connected c = (connected cfg)[i := False]" "endnames c = endnames cfg"
        "cf_n c = cf_n cfg" "rafts c = rafts cfg" "saved_state c = saved_state cfg"
      using link_disconnect [OF D(1) i] by blast
    have "(connected c ! k \<longrightarrow> rafts c ! k \<noteq> None) \<and> (rafts c ! k \<noteq> None \<longrightarrow> has_ends c k)" if "k < cf_n cfg" for k
      using that D(3,4) [of k] D(6) c(3,4,6) i by (cases "k = i") (simp_all add: has_ends_def)
    then show ?thesis using Disconnect_op c(1,2,5) same [OF c(6,7,5)] D(2) by (simp add: harness_inv_def)
  next
    case (Crash_op i)
    then show ?thesis using harness_crash1 [OF inv] ok by simp
  next
    case (Start_op i ns addr t)
    then show ?thesis using harness_start1 [OF inv, of i ns addr t] ok by auto
  next
    case (Peer_op i rf)
    let ?c = "cfg\<lparr>rafts := (rafts cfg)[i := map_option (\<lambda>_. rf) (rafts cfg ! i)]\<rparr>"
    have i: "i < cf_n cfg" "restorable (persister rf)" using ok Peer_op by simp_all
    have nn: "rafts ?c ! k = None \<longleftrightarrow> rafts cfg ! k = None" for k using i(1) D(5) by (cases "k = i") auto
    have "saved_of k ?c = (if k = i \<and> rafts cfg ! i \<noteq> None then Some (persister rf) else saved_of k cfg)" if "k < cf_n cfg" for k
      using that i(1) D(5) by (auto simp: saved_of_def nth_list_update split: option.splits)
    then have "saves_ok ?c" using D(2) i(2) by (simp add: saves_ok_def)
    moreover have "link_inv ?c" by (subst link_inv_cong [of _ cfg]) (use D(1) in simp_all)
    moreover have "(connected ?c ! k \<longrightarrow> rafts ?c ! k \<noteq> None) \<and> (rafts ?c ! k \<noteq> None \<longrightarrow> has_ends ?c k)" if "k < cf_n cfg" for k
      using that D(3,4) [of k] nn [of k] by (simp add: has_ends_def)
    ultimately show ?thesis using Peer_op by (simp add: harness_inv_def)
  qed
qed

lemma harness_run: "harness_inv cfg \<Longrightarrow> ops_ok as cfg \<Longrightarrow> \<exists>cfg'. config_run as cfg = Inr cfg' \<and> harness_inv cfg'"
proof (induction "as" arbitrary: cfg)
  case (Cons a as')
  then obtain c where "config_step a cfg = Inr c" "harness_inv c" using harness_step by fastforce
  then show ?case using Cons by simp
qed simp

lemma harness_cong:
  assumes "harness_inv cfg" and "cfg' = cfg\<lparr>logs := l\<rparr>"
  shows "harness_inv cfg'"
proof -
  have "link_inv cfg' = link_inv cfg" using assms(2) by (intro link_inv_cong) simp_all
  moreover have "saved_of k cfg' = saved_of k cfg" for k using assms(2) by (cases "rafts cfg ! k") (simp_all add: saved_of_def)
  ultimately show ?thesis using assms by (simp add: harness_inv_def saves_ok_def has_ends_def)
qed

text \<open>Random names: different for every end.\<close>

definition names_ok :: "nat \<Rightarrow> (nat \<Rightarrow> string list) \<Rightarrow> bool" where
  "names_ok n names \<longleftrightarrow> (\<forall>i < n. length (names i) = n \<and> distinct (names i)) \<and>
     (\<forall>i < n. \<forall>j < n. i \<noteq> j \<longrightarrow> set (names i) \<inter> set (names j) = {})"

lemma start_loop:
  assumes names: "names_ok n names" and "k \<le> n" and inv: "harness_inv cfg" "cf_n cfg = n" "ends (cf_net cfg) = []"
  shows "\<exists>cfg'. forE (\<lambda>i cfg. start1 i (names i) (addrs i) (ts i) (cfg\<lparr>logs := (logs cfg)[i := Map.empty]\<rparr>)) [0..<k] cfg = Inr cfg' \<and>
    harness_inv cfg' \<and> cf_n cfg' = n \<and> set (ends (cf_net cfg')) = (\<Union>i < k. set (names i)) \<and> (\<forall>i < k. rafts cfg' ! i \<noteq> None)"
  using assms(2)
proof (induction k)
  case 0
  then show ?case using inv by simp
next
  case (Suc k)
  then obtain c where c: "forE (\<lambda>i cfg. start1 i (names i) (addrs i) (ts i) (cfg\<lparr>logs := (logs cfg)[i := Map.empty]\<rparr>)) [0..<k] cfg = Inr c"
      "harness_inv c" "cf_n c = n" "set (ends (cf_net c)) = (\<Union>i < k. set (names i))" "\<forall>i < k. rafts c ! i \<noteq> None"
    by auto
  let ?c = "c\<lparr>logs := (logs c)[k := Map.empty]\<rparr>"
  have inv': "harness_inv ?c" by (rule harness_cong [OF c(2) refl])
  have "set (names k) \<inter> set (names i) = {}" if "i < k" for i
    using names Suc.prems that by (simp add: names_ok_def)
  then have "fresh_names (names k) ?c"
    using names Suc.prems c(3,4) by (simp add: fresh_names_def names_ok_def disjoint_iff)
  then obtain d where d: "start1 k (names k) (addrs k) (ts k) ?c = Inr d" "harness_inv d" "cf_n d = n"
      "set (ends (cf_net d)) = set (names k) \<union> set (ends (cf_net c))" "rafts d ! k \<noteq> None"
      "\<forall>i < n. rafts c ! i \<noteq> None \<longrightarrow> rafts d ! i \<noteq> None"
    using harness_start1 [OF inv', of k "names k" "addrs k" "ts k"] Suc.prems c(3) by auto
  then have "\<forall>i < Suc k. rafts d ! i \<noteq> None" using c(5) Suc.prems by (simp add: less_Suc_eq)
  then show ?case using c(1,4) d by (auto simp: forE_snoc lessThan_Suc)
qed

lemma connect_loop:
  assumes "harness_inv cfg" and "cf_n cfg = n" and "\<forall>i < n. rafts cfg ! i \<noteq> None" and "k \<le> n"
  shows "\<exists>cfg'. forE connect [0..<k] cfg = Inr cfg' \<and> harness_inv cfg' \<and> cf_n cfg' = n \<and> (\<forall>i < n. rafts cfg' ! i \<noteq> None) \<and>
    (\<forall>i < k. connected cfg' ! i)"
  using assms(4)
proof (induction k)
  case (Suc k)
  then obtain c where c: "forE connect [0..<k] cfg = Inr c" "harness_inv c" "cf_n c = n" "\<forall>i < n. rafts c ! i \<noteq> None"
      "\<forall>i < k. connected c ! i"
    by auto
  have k: "k < cf_n c" "rafts c ! k \<noteq> None" using Suc.prems c(3,4) by auto
  note D = harness_invD [OF c(2)]
  obtain d where d: "connect k c = Inr d" "connected d = (connected c)[k := True]" "cf_n d = cf_n c" "rafts d = rafts c"
    using link_connect [OF D(1) k(1) D(4) [OF k]] by blast
  moreover have "harness_inv d" using harness_step [OF c(2), of "Connect_op k"] k d(1) by auto
  moreover have "\<forall>i < Suc k. connected d ! i" using c(5) d(2) k(1) D(6) by (auto simp: less_Suc_eq nth_list_update)
  ultimately show ?case using c by (simp add: forE_snoc)
qed (use assms in simp)

lemma harness_make_config:
  assumes "names_ok n names"
  shows "\<exists>cfg. make_config n unreliable names addrs ts = Inr cfg \<and> harness_inv cfg \<and> cf_n cfg = n \<and> (\<forall>i < n. connected cfg ! i)"
proof -
  define c where "c = (setunreliable unreliable (empty_config n))\<lparr>cf_net := LongDelays True (cf_net (setunreliable unreliable (empty_config n)))\<rparr>"
  have "harness_inv c" "cf_n c = n" "ends (cf_net c) = []"
    by (auto simp: c_def harness_inv_def link_inv_def sizes_ok_def saves_ok_def saved_of_def has_ends_def end_of_def
        setunreliable_def empty_config_def LongDelays_def Reliable_def MakeNetwork_def)
  then obtain d where d: "forE (\<lambda>i cfg. start1 i (names i) (addrs i) (ts i) (cfg\<lparr>logs := (logs cfg)[i := Map.empty]\<rparr>)) [0..<n] c = Inr d"
      "harness_inv d" "cf_n d = n" "\<forall>i < n. rafts d ! i \<noteq> None"
    using start_loop [OF assms order_refl, of c addrs ts] by auto
  show ?thesis using d(1) connect_loop [OF d(2-4) order_refl] by (auto simp: make_config_def c_def Let_def)
qed

section \<open>Properties\<close>

text \<open>
  C29. Links of the test network. With names that are all different, \<^verbatim>\<open>make_config\<close> succeeds and connects all
  peers. Afterwards, whatever the tests do (connect running peers, disconnect, crash and restart peers with new
  names for their ends), no operation panics, a client end is enabled exactly when it is the current end between
  two connected peers, and it leads to the right server: disconnected peers are cut off in both directions, and
  no end of a replaced instance is ever enabled.
\<close>

theorem config_links:
  assumes "names_ok n names"
  shows "\<exists>cfg. make_config n unreliable names addrs ts = Inr cfg \<and> cf_n cfg = n \<and> (\<forall>i < n. connected cfg ! i) \<and>
    (\<forall>ops. ops_ok ops cfg \<longrightarrow> (\<exists>cfg'. config_run ops cfg = Inr cfg' \<and>
       (\<forall>e. enabled (cf_net cfg') e \<longleftrightarrow> (\<exists>i < cf_n cfg'. \<exists>j < cf_n cfg'. connected cfg' ! i \<and> connected cfg' ! j \<and>
          e = the (endnames cfg' ! i) ! j)) \<and>
       (\<forall>i < cf_n cfg'. \<forall>j < cf_n cfg'. connected cfg' ! i \<longrightarrow> rafts cfg' ! i \<noteq> None \<and>
          connections (cf_net cfg') (the (endnames cfg' ! i) ! j) = Some (server_name j))))"
proof -
  obtain cfg where c: "make_config n unreliable names addrs ts = Inr cfg" "harness_inv cfg" "cf_n cfg = n" "\<forall>i < n. connected cfg ! i"
    using harness_make_config [OF assms] by blast
  have "\<exists>cfg'. config_run ops cfg = Inr cfg' \<and>
       (\<forall>e. enabled (cf_net cfg') e \<longleftrightarrow> (\<exists>i < cf_n cfg'. \<exists>j < cf_n cfg'. connected cfg' ! i \<and> connected cfg' ! j \<and>
          e = the (endnames cfg' ! i) ! j)) \<and>
       (\<forall>i < cf_n cfg'. \<forall>j < cf_n cfg'. connected cfg' ! i \<longrightarrow> rafts cfg' ! i \<noteq> None \<and>
          connections (cf_net cfg') (the (endnames cfg' ! i) ! j) = Some (server_name j))" if ok: "ops_ok ops cfg" for ops
  proof -
    obtain d where d: "config_run ops cfg = Inr d" "harness_inv d" using harness_run [OF c(2) ok] by blast
    note D = harness_invD [OF d(2)]
    have "connections (cf_net d) (the (endnames d ! i) ! j) = Some (server_name j)"
      if "i < cf_n d" "j < cf_n d" "connected d ! i" for i j
      using link_invD(2,4) [OF D(1)] that by (simp add: end_of_def)
    then show ?thesis using d(1) D(3) link_invD(6) [OF D(1)] by (auto simp: end_of_def)
  qed
  then show ?thesis using c by blast
qed

definition sample_names :: "nat \<Rightarrow> string list" where
  "sample_names i = [[CHR ''a'', char_of i], [CHR ''b'', char_of i]]"

theorem config_links_witness:
  "\<exists>cfg. make_config 2 False sample_names (\<lambda>i. i) (\<lambda>_. (0, 0)) = Inr cfg \<and> enabled (cf_net cfg) (the (endnames cfg ! 0) ! 1) \<and>
     connections (cf_net cfg) (the (endnames cfg ! 0) ! 1) = Some (server_name 1)"
proof -
  have l2: "i = 0 \<or> i = 1" if "i < 2" for i :: nat using that by auto
  have "names_ok 2 sample_names"
    unfolding names_ok_def by (auto simp: sample_names_def dest!: l2)
  then obtain cfg where c: "make_config 2 False sample_names (\<lambda>i. i) (\<lambda>_. (0, 0)) = Inr cfg" "cf_n cfg = 2" "\<forall>i < 2. connected cfg ! i"
      "\<forall>ops. ops_ok ops cfg \<longrightarrow> (\<exists>cfg'. config_run ops cfg = Inr cfg' \<and>
       (\<forall>e. enabled (cf_net cfg') e \<longleftrightarrow> (\<exists>i < cf_n cfg'. \<exists>j < cf_n cfg'. connected cfg' ! i \<and> connected cfg' ! j \<and>
          e = the (endnames cfg' ! i) ! j)) \<and>
       (\<forall>i < cf_n cfg'. \<forall>j < cf_n cfg'. connected cfg' ! i \<longrightarrow> rafts cfg' ! i \<noteq> None \<and>
          connections (cf_net cfg') (the (endnames cfg' ! i) ! j) = Some (server_name j)))"
    using config_links [of 2 sample_names False "\<lambda>i. i" "\<lambda>_. (0, 0)"] by blast
  have up: "connected cfg ! 0" "connected cfg ! 1" "0 < cf_n cfg" "1 < cf_n cfg" using c(2,3) by simp_all
  have "\<forall>e. enabled (cf_net cfg) e \<longleftrightarrow> (\<exists>i < cf_n cfg. \<exists>j < cf_n cfg. connected cfg ! i \<and> connected cfg ! j \<and>
      e = the (endnames cfg ! i) ! j)"
    and "\<forall>i < cf_n cfg. \<forall>j < cf_n cfg. connected cfg ! i \<longrightarrow> connections (cf_net cfg) (the (endnames cfg ! i) ! j) = Some (server_name j)"
    using c(4) [rule_format, of "[]"] by simp_all
  then show ?thesis using c(1) up by blast
qed

end
