(* ===== verification/Config_Checks.thy ===== *)
theory Config_Checks
  imports Config Raft_NoPanic
begin

text \<open>
  How the test harness inspects the peers (\<^verbatim>\<open>src/src/raft/config.go\<close>): the goroutine that reads the apply channel
  of each peer and compares what the peers apply, and the functions \<^verbatim>\<open>nCommitted\<close>, \<^verbatim>\<open>wait\<close>, \<^verbatim>\<open>checkOneLeader\<close>,
  \<^verbatim>\<open>checkTerms\<close> and \<^verbatim>\<open>checkNoLeader\<close> that the tests call.

  These functions look at the peers at several moments, so they get what they see as arguments. Composed with the
  cluster of theory \<open>Raft_Cluster\<close>, the safety theorems of Raft become statements about the tests: in calm runs
  the harness never finds two leaders of a term, never sees different commands at an index and never sees an
  entry applied out of order.
\<close>

section \<open>The reader of an apply channel\<close>

definition not_an_int :: fault where
  "not_an_int = Fatal ''apply error: committed command is not an int''"

definition check_msg :: "nat \<Rightarrow> ApplyMsg \<Rightarrow> config \<Rightarrow> config result" where
  "check_msg i m cfg =
     (if \<not> CommandValid m then Inr cfg
      else case Command_msg m of
        Some (TInt, VInt v) \<Rightarrow>
          let k = CommandIndex m;
              differs = (\<exists>l \<in> set (logs cfg). l k \<noteq> None \<and> l k \<noteq> Some v) in
          bindE (go_index (logs cfg) (int i)) (\<lambda>l.
            let prevok = l (k - 1) \<noteq> None;
                cfg = cfg\<lparr>logs := (logs cfg)[i := l(k \<mapsto> v)]\<rparr>;
                cfg = (if k > maxIndex cfg then cfg\<lparr>maxIndex := k\<rparr> else cfg)
            in if k > 1 \<and> \<not> prevok then Inl (Fatal ''apply error: apply out of order'')
               else if differs then Inl (Fatal ''apply error: commit index with different values'')
               else Inr cfg)
      | _ \<Rightarrow> Inl not_an_int)"

section \<open>Counting and waiting\<close>

definition count_log :: "int \<Rightarrow> config \<Rightarrow> nat \<Rightarrow> int \<times> int \<Rightarrow> (int \<times> int) result" where
  "count_log index cfg i cc =
     (case cc of (cnt, cmd) \<Rightarrow>
        bindE (go_index (applyErr cfg) (int i)) (\<lambda>err.
          if err \<noteq> '''' then Inl (Fatal err)
          else bindE (go_index (logs cfg) (int i)) (\<lambda>l.
            case l index of
              Some cmd1 \<Rightarrow>
                if cnt > 0 \<and> cmd \<noteq> cmd1 then Inl (Fatal ''committed values do not match'')
                else Inr (cnt + 1, cmd1)
            | None \<Rightarrow> Inr (cnt, cmd))))"

definition nCommitted :: "int \<Rightarrow> config \<Rightarrow> (int \<times> int) result" where
  "nCommitted index cfg = forE (count_log index cfg) [0..<length (rafts cfg)] (0, -1)"

text \<open>\<^verbatim>\<open>GetState\<close> on a peer that may be nil.\<close>

definition get_state :: "Raft option \<Rightarrow> (int \<times> bool) result" where
  "get_state r = (case r of None \<Rightarrow> Inl NilDereference | Some rf \<Rightarrow> Inr (GetState rf))"

fun moved_on :: "int \<Rightarrow> Raft option list \<Rightarrow> bool result" where
  "moved_on startTerm [] = Inr False"
| "moved_on startTerm (r # rs) =
     bindE (get_state r) (\<lambda>(t, _). if t > startTerm then Inr True else moved_on startTerm rs)"

text \<open>Each round of \<^verbatim>\<open>wait\<close> sees the configuration twice, before and after it has slept.\<close>

fun wait_loop :: "(config \<times> config) list \<Rightarrow> int \<Rightarrow> int \<Rightarrow> int \<Rightarrow> bool result" where
  "wait_loop [] index n startTerm = Inr False"
| "wait_loop ((cfg, later) # rounds) index n startTerm =
     bindE (nCommitted index cfg) (\<lambda>(nd, _).
       if nd \<ge> n then Inr False
       else if startTerm > -1
       then bindE (moved_on startTerm (rafts later)) (\<lambda>gone.
              if gone then Inr True else wait_loop rounds index n startTerm)
       else wait_loop rounds index n startTerm)"

definition wait_committed :: "(config \<times> config) list \<Rightarrow> config \<Rightarrow> int \<Rightarrow> int \<Rightarrow> int \<Rightarrow> int result" where
  "wait_committed rounds final index n startTerm =
     bindE (wait_loop (take 30 rounds) index n startTerm) (\<lambda>gone.
       if gone then Inr (-1)
       else bindE (nCommitted index final) (\<lambda>(nd, cmd).
         if nd < n then Inl (Fatal ''only some decided for index'') else Inr cmd))"

section \<open>A complete agreement\<close>

text \<open>
  \<^verbatim>\<open>one\<close>: the inner loop tries each peer in turn until one accepts the command; \<open>view k\<close> is the configuration as
  the tester sees it with \<open>k + 1\<close> tries left. Then it polls for the agreement, seeing the configurations \<open>obs\<close>, one
  every 20 ms for at most two seconds. Both are repeated for at most ten seconds; the list of rounds is as long as
  time permits.
\<close>

fun try_servers :: "nat \<Rightarrow> interface \<Rightarrow> int \<Rightarrow> (nat \<Rightarrow> config) \<Rightarrow> nat \<Rightarrow> nat \<Rightarrow> (int \<times> nat) result" where
  "try_servers n cmd now view starts 0 = Inr (-1, starts)"
| "try_servers n cmd now view starts (Suc k) =
     (let starts = (starts + 1) mod n; cfg = view k in
      bindE (go_index (connected cfg) (int starts)) (\<lambda>on.
        bindE (if on then go_index (rafts cfg) (int starts) else Inr None) (\<lambda>r.
          case r of
            None \<Rightarrow> try_servers n cmd now view starts k
          | Some rf \<Rightarrow> bindE (Start cmd now rf) (\<lambda>(_, (index1, _, ok), _).
              if ok then Inr (index1, starts) else try_servers n cmd now view starts k))))"

fun poll_agreement :: "config list \<Rightarrow> int \<Rightarrow> int \<Rightarrow> int \<Rightarrow> bool result" where
  "poll_agreement [] index cmd expectedServers = Inr False"
| "poll_agreement (cfg # obs) index cmd expectedServers =
     bindE (nCommitted index cfg) (\<lambda>(nd, cmd1).
       if nd > 0 \<and> nd \<ge> expectedServers \<and> cmd1 = cmd then Inr True
       else poll_agreement obs index cmd expectedServers)"

fun one :: "nat \<Rightarrow> int \<Rightarrow> int \<Rightarrow> bool \<Rightarrow> (int \<times> (nat \<Rightarrow> config) \<times> config list) list \<Rightarrow> nat \<Rightarrow> int result" where
  "one n cmd expectedServers retry [] starts = Inl (Fatal ''one failed to reach agreement'')"
| "one n cmd expectedServers retry ((now, view, obs) # rounds) starts =
     bindE (try_servers n (Some (TInt, VInt cmd)) now view starts n) (\<lambda>(index, starts).
       if index \<noteq> -1
       then bindE (poll_agreement obs index cmd expectedServers) (\<lambda>ok.
              if ok then Inr index
              else if \<not> retry then Inl (Fatal ''one failed to reach agreement'')
              else one n cmd expectedServers retry rounds starts)
       else one n cmd expectedServers retry rounds starts)"

text \<open>An index that \<^verbatim>\<open>one\<close> returns, and a value that \<^verbatim>\<open>wait\<close> returns, have been counted in enough logs.\<close>

lemma poll_agreement_ok:
  "poll_agreement obs index cmd m = Inr True \<Longrightarrow> \<exists>cfg \<in> set obs. \<exists>nd. nCommitted index cfg = Inr (nd, cmd) \<and> nd > 0 \<and> nd \<ge> m"
  by (induction obs index cmd m rule: poll_agreement.induct) (auto simp: go_simps split: if_splits)

lemma one_committed:
  "one n cmd m retry rounds starts = Inr index \<Longrightarrow>
   \<exists>(now, view, obs) \<in> set rounds. \<exists>cfg \<in> set obs. \<exists>nd. nCommitted index cfg = Inr (nd, cmd) \<and> nd > 0 \<and> nd \<ge> m"
proof (induction n cmd m retry rounds starts rule: one.induct)
  case (2 n cmd m retry now view obs rounds starts)
  then show ?case by (auto simp: go_simps split: if_splits dest!: poll_agreement_ok; fastforce)
qed simp

lemma wait_committed_ok:
  "wait_committed rounds final index n startTerm = Inr cmd \<Longrightarrow> cmd = -1 \<or> (\<exists>nd. nCommitted index final = Inr (nd, cmd) \<and> nd \<ge> n)"
  by (auto simp: wait_committed_def go_simps split: if_splits)

section \<open>Looking for leaders\<close>

text \<open>The map from terms to the peers that claimed to lead them.\<close>

fun add_leader :: "int \<Rightarrow> nat \<Rightarrow> (int \<times> nat list) list \<Rightarrow> (int \<times> nat list) list" where
  "add_leader t i [] = [(t, [i])]"
| "add_leader t i ((t', js) # m) = (if t' = t then (t', js @ [i]) # m else (t', js) # add_leader t i m)"

definition sample_leader1 ::
  "config \<Rightarrow> (nat \<Rightarrow> Raft option) \<Rightarrow> nat \<Rightarrow> (int \<times> nat list) list \<Rightarrow> (int \<times> nat list) list result" where
  "sample_leader1 cfg seen i m =
     bindE (go_index (connected cfg) (int i)) (\<lambda>on.
       if on then bindE (get_state (seen i)) (\<lambda>(t, leader). Inr (if leader then add_leader t i m else m))
       else Inr m)"

definition two_leaders :: fault where
  "two_leaders = Fatal ''term has more than one leader''"

fun last_term :: "(int \<times> nat list) list \<Rightarrow> int \<Rightarrow> int result" where
  "last_term [] u = Inr u"
| "last_term ((t, js) # m) u = (if length js > 1 then Inl two_leaders else last_term m (if t > u then t else u))"

text \<open>One round of \<^verbatim>\<open>checkOneLeader\<close>: the peer it returns, or none when there was no leader.\<close>

definition leader_round :: "config \<Rightarrow> (nat \<Rightarrow> Raft option) \<Rightarrow> nat option result" where
  "leader_round cfg seen =
     bindE (forE (sample_leader1 cfg seen) [0..<cf_n cfg] []) (\<lambda>leaders.
       bindE (last_term leaders (-1)) (\<lambda>lastTermWithLeader.
         if leaders \<noteq> []
         then bindE (go_index (case map_of leaders lastTermWithLeader of Some js \<Rightarrow> js | None \<Rightarrow> []) 0) (\<lambda>i. Inr (Some i))
         else Inr None))"

fun checkOneLeader :: "config \<Rightarrow> (nat \<Rightarrow> Raft option) list \<Rightarrow> nat result" where
  "checkOneLeader cfg [] = Inl (Fatal ''expected one leader, got none'')"
| "checkOneLeader cfg (seen # rounds) =
     bindE (leader_round cfg seen) (\<lambda>r. case r of Some i \<Rightarrow> Inr i | None \<Rightarrow> checkOneLeader cfg rounds)"

definition check_term1 :: "config \<Rightarrow> (nat \<Rightarrow> Raft option) \<Rightarrow> nat \<Rightarrow> int \<Rightarrow> int result" where
  "check_term1 cfg seen i t =
     bindE (go_index (connected cfg) (int i)) (\<lambda>on.
       if on then bindE (get_state (seen i)) (\<lambda>(xterm, _).
              if t = -1 then Inr xterm
              else if t \<noteq> xterm then Inl (Fatal ''servers disagree on term'') else Inr t)
       else Inr t)"

definition checkTerms :: "config \<Rightarrow> (nat \<Rightarrow> Raft option) \<Rightarrow> int result" where
  "checkTerms cfg seen = forE (check_term1 cfg seen) [0..<cf_n cfg] (-1)"

definition check_no_leader1 :: "config \<Rightarrow> (nat \<Rightarrow> Raft option) \<Rightarrow> nat \<Rightarrow> unit \<Rightarrow> unit result" where
  "check_no_leader1 cfg seen i u =
     bindE (go_index (connected cfg) (int i)) (\<lambda>on.
       if on then bindE (get_state (seen i)) (\<lambda>(_, is_leader).
              if is_leader then Inl (Fatal ''expected no leader'') else Inr ())
       else Inr ())"

definition checkNoLeader :: "config \<Rightarrow> (nat \<Rightarrow> Raft option) \<Rightarrow> unit result" where
  "checkNoLeader cfg seen = forE (check_no_leader1 cfg seen) [0..<cf_n cfg] ()"

section \<open>Leaders at several moments\<close>

definition calm_later :: "cluster \<Rightarrow> cluster \<Rightarrow> bool" where
  "calm_later s s' \<longleftrightarrow> (\<exists>as. exec as s = Some s' \<and> calm_run as s)"

lemma calm_later_refl: "calm_later s s"
  unfolding calm_later_def by (intro exI [of _ "[]"]) simp

lemma calm_later_trans: "calm_later s s' \<Longrightarrow> calm_later s' s'' \<Longrightarrow> calm_later s s''"
  unfolding calm_later_def by (elim exE conjE, rule_tac x = "as @ asa" in exI) (simp add: exec_append calm_run_append)

lemma psteps_won: "(pstep n)\<^sup>*\<^sup>* x y \<Longrightarrow> pinv n x \<Longrightarrow> p_won x T = Some w \<Longrightarrow> p_won y T = Some w"
proof (induction rule: rtranclp_induct)
  case (step y z)
  then have "pinv n y" using psteps_keep by blast
  then show ?case using extendsD(2) [OF pstep_extends [OF step(2)]] step by blast
qed

lemma one_leader_over_time:
  assumes "calm_reachable n s" and "0 < n" and "calm_later s s'" and "state (nodes s i) = Leader" and "state (nodes s' j) = Leader"
    and "CurrentTerm (nodes s i) = CurrentTerm (nodes s' j)"
  shows "i = j"
proof -
  obtain x ow C where x: "sim n s x ow C" by (rule sim_reachable [OF assms(1,2)])
  obtain y ow' C' where y: "(pstep n)\<^sup>*\<^sup>* x y" "sim n s' y ow' C'"
    using assms(3) sim_exec [OF x] unfolding calm_later_def by metis
  let ?T = "CurrentTerm (nodes s i)"
  obtain E where "p_won x ?T = Some (i, E)"
    using node_invD(4) [OF pinvD(1) [OF simD(2) [OF x]], of i] sim_peer [OF x, of i] assms(4) by auto
  then have "p_won y ?T = Some (i, E)" by (rule psteps_won [OF y(1) simD(2) [OF x]])
  moreover obtain E' where "p_won y ?T = Some (j, E')"
    using node_invD(4) [OF pinvD(1) [OF simD(2) [OF y(2)]], of j] sim_peer [OF y(2), of j] assms(5,6) by auto
  ultimately show ?thesis by simp
qed

text \<open>The peers of a list that were seen as connected leaders of term \<open>t\<close>.\<close>

definition leads :: "config \<Rightarrow> (nat \<Rightarrow> Raft option) \<Rightarrow> int \<Rightarrow> nat \<Rightarrow> bool" where
  "leads cfg seen t i \<longleftrightarrow> connected cfg ! i \<and> (case seen i of None \<Rightarrow> False | Some rf \<Rightarrow> GetState rf = (t, True))"

definition leader_map :: "config \<Rightarrow> (nat \<Rightarrow> Raft option) \<Rightarrow> nat \<Rightarrow> int \<rightharpoonup> nat list" where
  "leader_map cfg seen k t = (let js = filter (leads cfg seen t) [0..<k] in if js = [] then None else Some js)"

lemma map_of_add_leader:
  "map_of (add_leader t i m) = (map_of m)(t \<mapsto> (case map_of m t of None \<Rightarrow> [] | Some js \<Rightarrow> js) @ [i])"
  by (induction t i m rule: add_leader.induct) (auto simp: fun_eq_iff)

lemma keys_add_leader: "fst ` set (add_leader t i m) = insert t (fst ` set m)"
  by (induction t i m rule: add_leader.induct) auto

lemma distinct_add_leader: "distinct (map fst m) \<Longrightarrow> distinct (map fst (add_leader t i m))"
  by (induction t i m rule: add_leader.induct) (auto simp: keys_add_leader)

lemma sample_loop:
  assumes "k \<le> length (connected cfg)" and "\<And>i. i < k \<Longrightarrow> connected cfg ! i \<Longrightarrow> seen i \<noteq> None"
  shows "\<exists>m. forE (sample_leader1 cfg seen) [0..<k] [] = Inr m \<and> map_of m = leader_map cfg seen k \<and> distinct (map fst m)"
  using assms
proof (induction k)
  case 0
  then show ?case by (simp add: leader_map_def fun_eq_iff)
next
  case (Suc k)
  then obtain m where m: "forE (sample_leader1 cfg seen) [0..<k] [] = Inr m" "map_of m = leader_map cfg seen k" "distinct (map fst m)"
    by auto
  show ?case
  proof (cases "\<exists>t. leads cfg seen t k")
    case True
    then obtain t rf where t: "connected cfg ! k" "seen k = Some rf" "GetState rf = (t, True)"
      by (auto simp: leads_def split: option.splits)
    then have l: "leads cfg seen u k \<longleftrightarrow> u = t" for u by (auto simp: leads_def)
    have "sample_leader1 cfg seen k m = Inr (add_leader t k m)"
      using t Suc.prems(1) by (simp add: sample_leader1_def get_state_def)
    moreover have "map_of (add_leader t k m) = leader_map cfg seen (Suc k)"
      using l by (auto simp: map_of_add_leader m(2) leader_map_def fun_eq_iff Let_def)
    ultimately show ?thesis using m distinct_add_leader by (simp add: forE_snoc)
  next
    case False
    then have l: "\<not> leads cfg seen u k" for u by blast
    have "sample_leader1 cfg seen k m = Inr m"
    proof (cases "connected cfg ! k")
      case True
      then obtain rf where rf: "seen k = Some rf" using Suc.prems(2) by blast
      then have "\<not> snd (GetState rf)" using l [of "fst (GetState rf)"] True by (cases "GetState rf") (auto simp: leads_def)
      then show ?thesis using True rf Suc.prems(1) by (cases "GetState rf") (simp add: sample_leader1_def get_state_def)
    qed (use Suc.prems(1) in \<open>simp add: sample_leader1_def\<close>)
    moreover have "leader_map cfg seen (Suc k) = leader_map cfg seen k" using l by (simp add: leader_map_def fun_eq_iff)
    ultimately show ?thesis using m by (simp add: forE_snoc)
  qed
qed

lemma last_term_max:
  assumes "\<forall>(t, js) \<in> set m. length js \<le> 1"
  shows "\<exists>u. last_term m l = Inr u \<and> l \<le> u \<and> (u = l \<or> u \<in> fst ` set m) \<and> (\<forall>t \<in> fst ` set m. t \<le> u)"
  using assms
proof (induction m arbitrary: l)
  case (Cons a m)
  obtain t js where a: "a = (t, js)" by fastforce
  have "\<forall>(t, js) \<in> set m. length js \<le> 1" using Cons.prems by simp
  then obtain u where u: "last_term m (if t > l then t else l) = Inr u" "(if t > l then t else l) \<le> u"
      "u = (if t > l then t else l) \<or> u \<in> fst ` set m" "\<forall>t \<in> fst ` set m. t \<le> u"
    using Cons.IH by blast
  have "last_term (a # m) l = Inr u" using Cons.prems u(1) by (simp add: a)
  then show ?case using u(2-4) by (intro exI [of _ u]) (auto simp: a split: if_splits)
qed simp

text \<open>
  A round of questions during a calm run: peer \<open>i\<close> is asked in the \<open>i\<close>-th of a sequence of states.
\<close>

definition observed :: "nat \<Rightarrow> config \<Rightarrow> cluster list \<Rightarrow> (nat \<Rightarrow> Raft option) \<Rightarrow> bool" where
  "observed n cfg ss seen \<longleftrightarrow> length ss = n \<and> cf_n cfg = n \<and> length (connected cfg) = n \<and> (\<forall>i < n. calm_reachable n (ss ! i)) \<and>
     (\<forall>i j. i < j \<and> j < n \<longrightarrow> calm_later (ss ! i) (ss ! j)) \<and> (\<forall>i < n. connected cfg ! i \<longrightarrow> seen i = Some (nodes (ss ! i) i))"

lemma observed_leads:
  assumes "observed n cfg ss seen" and "i < n"
  shows "leads cfg seen t i \<longleftrightarrow> connected cfg ! i \<and> state (nodes (ss ! i) i) = Leader \<and> CurrentTerm (nodes (ss ! i) i) = t"
  using assms by (auto simp: observed_def leads_def GetState_def)

lemma observed_unique:
  assumes o: "observed n cfg ss seen" and "i < n" "j < n" and l: "leads cfg seen t i" "leads cfg seen t j"
  shows "i = j"
proof -
  have "a = b" if "a < b" "b < n" "leads cfg seen t a" "leads cfg seen t b" for a b
    using one_leader_over_time [of n "ss ! a" "ss ! b" a b] that o observed_leads [OF o] by (auto simp: observed_def)
  then show ?thesis using assms(2,3) l by (metis linorder_neqE_nat)
qed

lemma leader_round_calm:
  assumes o: "observed n cfg ss seen"
  shows "\<exists>r. leader_round cfg seen = Inr r \<and>
    (case r of None \<Rightarrow> \<forall>i < n. connected cfg ! i \<longrightarrow> state (nodes (ss ! i) i) \<noteq> Leader
     | Some i \<Rightarrow> i < n \<and> connected cfg ! i \<and> state (nodes (ss ! i) i) = Leader \<and>
         (\<forall>j < n. connected cfg ! j \<longrightarrow> state (nodes (ss ! j) j) = Leader \<longrightarrow>
            CurrentTerm (nodes (ss ! j) j) \<le> CurrentTerm (nodes (ss ! i) i)))"
proof -
  have n: "cf_n cfg = n" "n \<le> length (connected cfg)" "\<And>i. i < n \<Longrightarrow> connected cfg ! i \<Longrightarrow> seen i \<noteq> None"
    using o by (auto simp: observed_def)
  obtain m where m: "forE (sample_leader1 cfg seen) [0..<n] [] = Inr m" "map_of m = leader_map cfg seen n" "distinct (map fst m)"
    using sample_loop [of n cfg seen] n(2,3) by blast
  have entry: "js = filter (leads cfg seen t) [0..<n] \<and> js \<noteq> []" if "(t, js) \<in> set m" for t js
  proof -
    have "map_of m t = Some js" using that m(3) by (simp add: map_of_eq_Some_iff)
    then show ?thesis unfolding m(2) by (auto simp: leader_map_def Let_def split: if_splits)
  qed
  have one: "\<exists>i < n. js = [i] \<and> leads cfg seen t i" if "(t, js) \<in> set m" for t js
  proof -
    have js: "js \<noteq> []" "distinct js" "\<forall>i \<in> set js. i < n \<and> leads cfg seen t i" using entry [OF that] by auto
    then obtain i ks where k: "js = i # ks" by (cases js) auto
    have "ks = []"
    proof (cases ks)
      case (Cons j ls)
      then show ?thesis using observed_unique [OF o, of i j t] js(2,3) k by simp
    qed
    then show ?thesis using k js(3) by simp
  qed
  then have "\<forall>(t, js) \<in> set m. length js \<le> 1" by fastforce
  then obtain u where u: "last_term m (-1) = Inr u" "-1 \<le> u" "u = -1 \<or> u \<in> fst ` set m" "\<forall>t \<in> fst ` set m. t \<le> u"
    using last_term_max by blast
  have key: "t \<in> fst ` set m" if "leads cfg seen t j" "j < n" for t j
  proof -
    have "leader_map cfg seen n t \<noteq> None" using that by (auto simp: leader_map_def Let_def filter_empty_conv)
    then show ?thesis unfolding m(2) [symmetric] by (simp add: map_of_eq_None_iff)
  qed
  show ?thesis
  proof (cases "m = []")
    case True
    then have "\<not> leads cfg seen t j" if "j < n" for t j using key that by auto
    then have "\<forall>i < n. connected cfg ! i \<longrightarrow> state (nodes (ss ! i) i) \<noteq> Leader" using observed_leads [OF o] by blast
    then show ?thesis using m(1) n(1) True by (simp add: leader_round_def)
  next
    case False
    have pos: "0 \<le> t" if t: "t \<in> fst ` set m" for t
    proof -
      obtain js where "(t, js) \<in> set m" using t by force
      then obtain i where i: "i < n" "leads cfg seen t i" using one by blast
      have "0 < n" "calm_reachable n (ss ! i)" using o i(1) by (auto simp: observed_def)
      then obtain x ow C where x: "sim n (ss ! i) x ow C" by (metis sim_reachable)
      then show ?thesis
        using node_invD(3) [OF pinvD(1) [OF simD(2) [OF x]], of i] sim_peer(1) [OF x, of i] observed_leads [OF o i(1)] i(2) by simp
    qed
    have "u \<in> fst ` set m" using u(3,4) False pos by (cases m) force+
    then obtain js where js: "(u, js) \<in> set m" by force
    then obtain i where i: "i < n" "js = [i]" "leads cfg seen u i" using one by blast
    have "map_of m u = Some [i]" using js i(2) m(3) by (simp add: map_of_eq_Some_iff)
    then have r: "leader_round cfg seen = Inr (Some i)" using m(1) n(1) u(1) False by (simp add: leader_round_def go_index_def)
    have "CurrentTerm (nodes (ss ! j) j) \<le> u" if "j < n" "connected cfg ! j" "state (nodes (ss ! j) j) = Leader" for j
      using key [of _ j] u(4) observed_leads [OF o that(1)] that by blast
    then show ?thesis using r i observed_leads [OF o i(1), of u] by simp
  qed
qed

section \<open>The readers of all apply channels\<close>

text \<open>
  A cluster with the harness that reads its apply channels. Each instance of a peer has its own channel and its
  own reader; \<open>epoch i\<close> counts the restarts of peer \<open>i\<close>, and \<open>queue i e\<close> holds what the reader of its \<open>e\<close>-th instance
  has received and not yet processed (at most one message in the code, whose channels have no buffer).
\<close>

record tester =
  clu :: cluster
  tcfg :: config
  epoch :: "nat \<Rightarrow> nat"
  queue :: "nat \<Rightarrow> nat \<Rightarrow> ApplyMsg list"

datatype taction = Act action | Check nat nat

definition note_action :: "action \<Rightarrow> cluster \<Rightarrow> tester \<Rightarrow> tester" where
  "note_action a s T =
     (case a of
        Apply i \<Rightarrow> T\<lparr>clu := s, queue := (queue T)(i := (queue T i)(epoch T i := queue T i (epoch T i) @ [last (applyCh (nodes s i))]))\<rparr>
      | Crash t i ps \<Rightarrow> T\<lparr>clu := s, epoch := (epoch T)(i := epoch T i + 1)\<rparr>
      | _ \<Rightarrow> T\<lparr>clu := s\<rparr>)"

lemma note_action_sel [simp]: "tcfg (note_action a s T) = tcfg T" "clu (note_action a s T) = s"
  by (simp_all add: note_action_def split: action.splits)

fun tstep :: "taction \<Rightarrow> tester \<Rightarrow> tester result option" where
  "tstep (Act a) T = map_option (\<lambda>r. bindE r (\<lambda>s. Inr (note_action a s T))) (step a (clu T))"
| "tstep (Check i e) T =
     (case queue T i e of
        [] \<Rightarrow> None
      | m # ms \<Rightarrow> Some (bindE (check_msg i m (tcfg T)) (\<lambda>c.
          Inr (T\<lparr>tcfg := c, queue := (queue T)(i := (queue T i)(e := ms))\<rparr>))))"

definition tcalm :: "taction \<Rightarrow> tester \<Rightarrow> bool" where
  "tcalm a T \<longleftrightarrow> (case a of Act b \<Rightarrow> calm b (clu T) | Check i e \<Rightarrow> True)"

definition tester_init :: "nat \<Rightarrow> (nat \<Rightarrow> tick) \<Rightarrow> tester" where
  "tester_init n ts = \<lparr>clu = cluster_init n ts, tcfg = empty_config n, epoch = (\<lambda>_. 0), queue = (\<lambda>_ _. [])\<rparr>"

inductive treach :: "nat \<Rightarrow> tester \<Rightarrow> bool" for n where
  tr_init: "treach n (tester_init n ts)"
| tr_step: "treach n T \<Longrightarrow> tcalm a T \<Longrightarrow> tstep a T = Some (Inr T') \<Longrightarrow> treach n T'"

section \<open>Only applying and restarting change what is applied\<close>

lemma applied_ops:
  assumes "Log rf \<noteq> []"
  shows "RequestVote t args rf = Inr (rf', r) \<Longrightarrow> lastApplied rf' = lastApplied rf"
    and "AppendEntries t1 t2 aargs rf = Inr (rf', ar) \<Longrightarrow> lastApplied rf' = lastApplied rf"
    and "vote_granted k rf = Inr (rf', x) \<Longrightarrow> lastApplied rf' = lastApplied rf"
    and "append_rejected j aargs reply nx rf = Inr (rf', y) \<Longrightarrow> lastApplied rf' = lastApplied rf"
    and "append_accepted j index ta rf = Inr (rf', z) \<Longrightarrow> lastApplied rf' = lastApplied rf"
proof -
  show "lastApplied rf' = lastApplied rf" if "RequestVote t args rf = Inr (rf', r)"
    using that by (auto simp: RequestVote_eq [OF assms] split: if_splits)
  show "lastApplied rf' = lastApplied rf" if "AppendEntries t1 t2 aargs rf = Inr (rf', ar)"
    using that by (cases rule: AppendEntries_cases) simp_all
  show "lastApplied rf' = lastApplied rf" if "vote_granted k rf = Inr (rf', x)"
    using that by (auto simp: vote_granted_def Let_def go_simps split: if_splits dest!: init_indices_applied)
qed (auto simp: append_rejected_def append_accepted_def Let_def go_simps split: if_splits)

lemma applied_unless:
  assumes sim: "sim n s x ow C" and st: "step a s = Some (Inr s')" and na: "a \<noteq> Apply v" "\<And>t ps. a \<noteq> Crash t v ps"
  shows "lastApplied (nodes s' v) = lastApplied (nodes s v)"
proof -
  note ops = applied_ops [OF sim_peer(6) [OF sim]]
  show ?thesis
  proof (cases a)
    case (Run now p)
    show ?thesis
    proof (cases "threads s p")
      case (ElectionLoop e i T js)
      then show ?thesis using st Run by (cases js) (auto simp: run_thread_def go_simps)
    next
      case (VoteCall e i j ph)
      then show ?thesis using st Run
        by (cases ph) (auto simp: run_thread_def go_simps Let_def split: if_splits dest: ops)
    next
      case (StartCall i c ph)
      then show ?thesis using st Run by (cases ph) (auto simp: run_thread_def Let_def split_beta)
    next
      case (Heartbeat i ph)
      then show ?thesis using st Run by (cases ph) (auto simp: run_thread_def)
    next
      case (Bcast k i b ph)
      then show ?thesis using st Run by (cases "(p, k, i, b, ph, s)" rule: run_bcast.cases) (auto simp: run_thread_def)
    next
      case (AppendCall k i j b ph)
      then show ?thesis using st Run
        by (cases ph) (auto simp: run_thread_def go_simps Let_def split: if_splits dest: ops)
    qed (use st Run in \<open>simp add: run_thread_def\<close>)
  next
    case (Deliver t1 t2 p)
    then show ?thesis using st
      by (auto simp: deliver_def go_simps split: thread.splits vphase.splits aphase.splits dest: ops)
  next
    case (Lose p)
    then show ?thesis using st by (auto simp: lose_def split: thread.splits vphase.splits aphase.splits)
  next
    case (Apply i)
    then show ?thesis using st na by (auto simp: go_simps split: if_splits)
  next
    case (Crash t i ps)
    then have "i \<noteq> v" using na(2) [of t ps] by auto
    then show ?thesis using st Crash by (auto simp: crash_def go_simps split: if_splits)
  qed (use st in \<open>auto simp: Let_def split: if_splits\<close>)
qed

section \<open>The invariant of the readers\<close>

definition agreed :: "nat \<Rightarrow> proto \<Rightarrow> int \<Rightarrow> interface \<Rightarrow> bool" where
  "agreed n x k c \<longleftrightarrow> (\<exists>j e. k = int j \<and> decided n x j e \<and> c = Command e)"

lemma agreed_unique: "pinv n x \<Longrightarrow> agreed n x k c \<Longrightarrow> agreed n x k c' \<Longrightarrow> c = c'"
  unfolding agreed_def using decided_unique by (metis nat_int)

lemma agreed_step: "pstep n x y \<Longrightarrow> pinv n x \<Longrightarrow> agreed n x k c \<Longrightarrow> agreed n y k c"
  unfolding agreed_def using decided_extends [OF pstep_extends] by metis

text \<open>The queue continues the log without a gap, up to index \<open>hi\<close>.\<close>

definition in_line :: "(int \<rightharpoonup> int) \<Rightarrow> ApplyMsg list \<Rightarrow> int \<Rightarrow> bool" where
  "in_line l q hi \<longleftrightarrow> (\<exists>a \<ge> 0. hi = a + len q \<and> map CommandIndex q = [a + 1..hi] \<and> (\<forall>k. 1 \<le> k \<and> k \<le> a \<longrightarrow> l k \<noteq> None))"

lemma in_line_nil: "in_line l [] 0"
  by (auto simp: in_line_def)

lemma in_line_snoc: "in_line l q hi \<Longrightarrow> CommandIndex m = hi + 1 \<Longrightarrow> in_line l (q @ [m]) (hi + 1)"
  unfolding in_line_def by (auto simp: upto_rec2)

lemma in_line_more: "in_line l q hi \<Longrightarrow> dom l \<subseteq> dom l' \<Longrightarrow> in_line l' q hi"
  unfolding in_line_def by (fastforce simp: subset_iff dom_def)

lemma in_line_pop:
  assumes "in_line l (m # q) hi"
  shows "in_line (l(CommandIndex m \<mapsto> v)) q hi" "1 < CommandIndex m \<Longrightarrow> l (CommandIndex m - 1) \<noteq> None"
proof -
  obtain a where a: "0 \<le> a" "hi = a + len (m # q)" "map CommandIndex (m # q) = [a + 1..hi]"
      "\<forall>k. 1 \<le> k \<and> k \<le> a \<longrightarrow> l k \<noteq> None"
    using assms unfolding in_line_def by blast
  have "[a + 1..hi] = (a + 1) # [a + 1 + 1..hi]" using a(2) by (simp add: upto_rec1)
  then have c: "CommandIndex m = a + 1" "map CommandIndex q = [a + 1 + 1..hi]" using a(3) by simp_all
  then show "in_line (l(CommandIndex m \<mapsto> v)) q hi" unfolding in_line_def using a by (intro exI [of _ "a + 1"]) auto
  show "l (CommandIndex m - 1) \<noteq> None" if "1 < CommandIndex m" using a(4) c(1) that by simp
qed

definition tester_inv :: "nat \<Rightarrow> tester \<Rightarrow> proto \<Rightarrow> bool" where
  "tester_inv n T x \<longleftrightarrow> length (logs (tcfg T)) = n \<and>
     (\<forall>l \<in> set (logs (tcfg T)). \<forall>k v. l k = Some v \<longrightarrow> agreed n x k (Some (TInt, VInt v))) \<and>
     (\<forall>i e. \<forall>m \<in> set (queue T i e). i < n \<and> agreed n x (CommandIndex m) (Command_msg m) \<and> CommandValid m) \<and>
     (\<forall>i < n. \<forall>e. \<exists>hi. in_line (logs (tcfg T) ! i) (queue T i e) hi) \<and>
     (\<forall>i < n. in_line (logs (tcfg T) ! i) (queue T i (epoch T i)) (lastApplied (nodes (clu T) i))) \<and>
     (\<forall>i e. epoch T i < e \<longrightarrow> queue T i e = [])"

lemma tester_invD:
  assumes "tester_inv n T x"
  shows "length (logs (tcfg T)) = n" "l \<in> set (logs (tcfg T)) \<Longrightarrow> l k = Some v \<Longrightarrow> agreed n x k (Some (TInt, VInt v))"
    "m \<in> set (queue T i e) \<Longrightarrow> i < n \<and> agreed n x (CommandIndex m) (Command_msg m) \<and> CommandValid m"
    "i < n \<Longrightarrow> \<exists>hi. in_line (logs (tcfg T) ! i) (queue T i e) hi"
    "i < n \<Longrightarrow> in_line (logs (tcfg T) ! i) (queue T i (epoch T i)) (lastApplied (nodes (clu T) i))"
    "epoch T i < e \<Longrightarrow> queue T i e = []"
  using assms unfolding tester_inv_def by blast+

text \<open>What the reader does with the next message.\<close>

definition recorded :: "nat \<Rightarrow> int \<Rightarrow> int \<Rightarrow> config \<Rightarrow> config" where
  "recorded i k v c =
     (let c = c\<lparr>logs := (logs c)[i := (logs c ! i)(k \<mapsto> v)]\<rparr> in if k > maxIndex c then c\<lparr>maxIndex := k\<rparr> else c)"

lemma recorded_sel [simp]:
  "logs (recorded i k v c) = (logs c)[i := (logs c ! i)(k \<mapsto> v)]" "applyErr (recorded i k v c) = applyErr c"
  "rafts (recorded i k v c) = rafts c"
  by (simp_all add: recorded_def Let_def)

lemma check_next:
  assumes inv: "tester_inv n T x" "pinv n x" and q: "queue T i e = m # ms"
  shows "check_msg i m (tcfg T) = Inl not_an_int \<or>
    (\<exists>v. Command_msg m = Some (TInt, VInt v) \<and> check_msg i m (tcfg T) = Inr (recorded i (CommandIndex m) v (tcfg T)))"
proof (cases "\<exists>v. Command_msg m = Some (TInt, VInt v)")
  case True
  then obtain v where v: "Command_msg m = Some (TInt, VInt v)" by blast
  note D = tester_invD [OF inv(1)]
  have m: "i < n" "agreed n x (CommandIndex m) (Some (TInt, VInt v))" "CommandValid m" using D(3) [of m i e] q v by auto
  have "l (CommandIndex m) = None \<or> l (CommandIndex m) = Some v" if "l \<in> set (logs (tcfg T))" for l
    using D(2) [OF that, of "CommandIndex m"] agreed_unique [OF inv(2) m(2)] by (cases "l (CommandIndex m)") auto
  then have d: "\<not> (\<exists>l \<in> set (logs (tcfg T)). l (CommandIndex m) \<noteq> None \<and> l (CommandIndex m) \<noteq> Some v)" by metis
  obtain hi where "in_line (logs (tcfg T) ! i) (m # ms) hi" using D(4) [OF m(1), of e] q by auto
  then have "1 < CommandIndex m \<Longrightarrow> (logs (tcfg T) ! i) (CommandIndex m - 1) \<noteq> None" by (rule in_line_pop(2))
  then have "check_msg i m (tcfg T) = Inr (recorded i (CommandIndex m) v (tcfg T))"
    using m d v D(1) by (simp add: check_msg_def recorded_def Let_def)
  then show ?thesis using v by blast
next
  case False
  have "CommandValid m" using tester_invD(3) [OF inv(1), of m i e] q by simp
  then have "check_msg i m (tcfg T) = Inl not_an_int"
    using False by (auto simp: check_msg_def split: option.splits gtype.splits gval.splits)
  then show ?thesis by blast
qed

lemma check_keeps:
  assumes inv: "tester_inv n T x" "pinv n x" and st: "tstep (Check i e) T = Some (Inr T')"
  shows "tester_inv n T' x" "clu T' = clu T"
proof -
  note D = tester_invD [OF inv(1)]
  obtain m ms where q: "queue T i e = m # ms" using st by (auto split: list.splits)
  obtain v where v: "Command_msg m = Some (TInt, VInt v)"
      "T' = T\<lparr>tcfg := recorded i (CommandIndex m) v (tcfg T), queue := (queue T)(i := (queue T i)(e := ms))\<rparr>"
    using check_next [OF inv q] st q by (auto simp: not_an_int_def)
  have i: "i < n" "agreed n x (CommandIndex m) (Some (TInt, VInt v))" using D(3) [of m i e] q v by auto
  let ?l = "logs (tcfg T) ! i" let ?l' = "?l(CommandIndex m \<mapsto> v)"
  show "clu T' = clu T" using v by simp
  have lg: "logs (tcfg T') ! j = (if j = i then ?l' else logs (tcfg T) ! j)" "length (logs (tcfg T')) = n" if "j < n" for j
    using that i(1) D(1) v(2) by (simp_all add: nth_list_update)
  have qs: "queue T' j f = (if j = i \<and> f = e then ms else queue T j f)" for j f using v(2) by simp
  have lines: "in_line (logs (tcfg T') ! j) (queue T' j f) hi" if "in_line (logs (tcfg T) ! j) (queue T j f) hi" "j < n" for j f hi
    using that in_line_pop(1) [of ?l m ms hi v] in_line_more [of ?l _ hi ?l'] q by (auto simp: lg qs)
  show "tester_inv n T' x"
    unfolding tester_inv_def
  proof (intro conjI allI ballI impI)
    show "length (logs (tcfg T')) = n" by (rule lg(2) [OF i(1)])
    show "agreed n x k (Some (TInt, VInt u))" if "l \<in> set (logs (tcfg T'))" "l k = Some u" for l k u
    proof -
      have "l = ?l' \<or> l \<in> set (logs (tcfg T))" using that(1) v(2) set_update_subset_insert [of "logs (tcfg T)" i ?l'] by auto
      moreover have "?l \<in> set (logs (tcfg T))" using i(1) D(1) by simp
      ultimately show ?thesis using that(2) D(2) i(2) by (auto split: if_splits)
    qed
    show "j < n" "agreed n x (CommandIndex m') (Command_msg m')" "CommandValid m'" if "m' \<in> set (queue T' j f)" for j f m'
      using D(3) [of m' j f] that q by (auto simp: qs split: if_splits)
    show "\<exists>hi. in_line (logs (tcfg T') ! j) (queue T' j f) hi" if "j < n" for j f using D(4) [OF that, of f] lines that by blast
    show "in_line (logs (tcfg T') ! j) (queue T' j (epoch T' j)) (lastApplied (nodes (clu T') j))" if "j < n" for j
      using lines [OF D(5) [OF that] that] v(2) by simp
    show "queue T' j f = []" if "epoch T' j < f" for j f
    proof -
      have "queue T j f = []" using D(6) that v(2) by simp
      then show ?thesis using q by (auto simp: qs)
    qed
  qed
qed

text \<open>Steps of the cluster.\<close>

lemma apply_delivers:
  assumes st: "step (Apply i) s = Some (Inr s')" and sim: "sim n s' y ow C"
  defines "m \<equiv> last (applyCh (nodes s' i))"
  shows "i < n" "lastApplied (nodes s' i) = lastApplied (nodes s i) + 1" "CommandIndex m = lastApplied (nodes s i) + 1"
    "CommandValid m" "agreed n y (CommandIndex m) (Command_msg m)"
proof -
  let ?k = "lastApplied (nodes s i) + 1"
  obtain rf where rf: "apply_entry ?k (nodes s i) = Inr rf" "s' = set_node i rf s" "i < size_of s"
    using st by (auto simp: apply_step_def go_simps split: if_splits)
  then have "0 \<le> ?k" "?k < len (Log (nodes s i))" by (auto simp: apply_entry_def go_simps Let_def)
  then have e: "nodes s' i = (nodes s i)\<lparr>lastApplied := ?k, applyCh := applyCh (nodes s i) @ [msg_at (Log (nodes s i)) ?k]\<rparr>"
    using rf by (simp add: apply_entry_eq)
  show i: "i < n" using rf(2,3) sim_data [OF sim] by (simp add: data_inv_def)
  show "lastApplied (nodes s' i) = ?k" "CommandIndex m = ?k" "CommandValid m" using e by (simp_all add: m_def msg_at_def)
  have "m \<in> set (applyCh (nodes s' i))" using e by (simp add: m_def)
  then show "agreed n y (CommandIndex m) (Command_msg m)"
    using simD(4) [OF sim, of i] i unfolding applied_ok_def agreed_def by blast
qed

lemma crash_resets: "sim n s x ow C \<Longrightarrow> step (Crash t i ps) s = Some (Inr s') \<Longrightarrow> lastApplied (nodes s' i) = 0"
  using Make_recovers_state [of "nodes s i" ps "int i" t] data_invD(1) [OF sim_data, of n s x ow C i]
  by (auto simp: crash_def peer_ok_def split: if_splits)

lemma act_keeps:
  assumes inv: "tester_inv n T x" and sim: "sim n (clu T) x ow C" and calm: "calm a (clu T)" and st: "step a (clu T) = Some (Inr s')"
  obtains y ow' C' where "sim n s' y ow' C'" "tester_inv n (note_action a s' T) y"
proof -
  note D = tester_invD [OF inv]
  obtain y ow' C' where y: "pstep n x y" "sim n s' y ow' C'" using calm_follows [OF sim calm st] by (auto simp: follows_def)
  have ag: "agreed n y k c" if "agreed n x k c" for k c by (rule agreed_step [OF y(1) simD(2) [OF sim] that])
  have same: "lastApplied (nodes s' v) = lastApplied (nodes (clu T) v)" if "a \<noteq> Apply v" "\<And>t ps. a \<noteq> Crash t v ps" for v
    by (rule applied_unless [OF sim st that])
  define T' where "T' = note_action a s' T"
  have cf: "tcfg T' = tcfg T" "clu T' = s'" by (simp_all add: T'_def note_action_def split: action.splits)
  have "tester_inv n T' y"
  proof (cases a)
    case (Apply i)
    note new = apply_delivers [OF st [unfolded Apply] y(2)]
    let ?m = "last (applyCh (nodes s' i))"
    have q: "queue T' j f = (if j = i \<and> f = epoch T i then queue T j f @ [?m] else queue T j f)" "epoch T' = epoch T" for j f
      by (simp_all add: T'_def note_action_def Apply)
    have lines: "in_line (logs (tcfg T) ! i) (queue T' i (epoch T i)) (lastApplied (nodes s' i))"
      using in_line_snoc [OF D(5) [OF new(1)] new(3)] new(2) by (simp add: q(1))
    show ?thesis
      unfolding tester_inv_def cf q(2)
    proof (intro conjI allI ballI impI)
      show "j < n" "agreed n y (CommandIndex m) (Command_msg m)" "CommandValid m" if "m \<in> set (queue T' j f)" for j f m
        using that D(3) [of m j f] ag new(1,4,5) by (auto simp: q(1) split: if_splits)
      show "\<exists>hi. in_line (logs (tcfg T) ! j) (queue T' j f) hi" if "j < n" for j f
        using lines D(4) [OF that, of f] by (cases "j = i \<and> f = epoch T i") (auto simp: q(1))
      show "in_line (logs (tcfg T) ! j) (queue T' j (epoch T j)) (lastApplied (nodes s' j))" if "j < n" for j
        using lines D(5) [OF that] same [of j] Apply by (cases "j = i") (auto simp: q(1))
    qed (use D ag in \<open>auto simp: q(1)\<close>)
  next
    case (Crash t i ps)
    have q: "queue T' = queue T" "epoch T' = (epoch T)(i := epoch T i + 1)" by (simp_all add: T'_def note_action_def Crash)
    have z: "lastApplied (nodes s' i) = 0" by (rule crash_resets [OF sim st [unfolded Crash]])
    show ?thesis
      unfolding tester_inv_def cf q
    proof (intro conjI allI ballI impI)
      show "in_line (logs (tcfg T) ! j) (queue T j (((epoch T)(i := epoch T i + 1)) j)) (lastApplied (nodes s' j))" if "j < n" for j
        using D(5) [OF that] D(6) [of i "epoch T i + 1"] z same [of j] in_line_nil Crash by (cases "j = i") auto
      show "queue T j f = []" if "((epoch T)(i := epoch T i + 1)) j < f" for j f
        using that D(6) [of j f] by (auto split: if_splits)
    qed (use D ag in auto)
  next
    case (Pass i)
    have "T' = T\<lparr>clu := s'\<rparr>" by (simp add: T'_def note_action_def Pass)
    then show ?thesis using D ag same Pass unfolding tester_inv_def by auto
  qed (use D ag same in \<open>auto simp: T'_def note_action_def tester_inv_def\<close>)
  then show thesis using that y(2) by (simp add: T'_def)
qed

lemma tester_reachable:
  assumes "treach n T" and "0 < n"
  shows "calm_reachable n (clu T) \<and> (\<exists>x ow C. sim n (clu T) x ow C \<and> tester_inv n T x)"
  using assms(1)
proof (induction rule: treach.induct)
  case (tr_init ts)
  have "tester_inv n (tester_init n ts) proto_init"
    by (auto simp: tester_inv_def tester_init_def empty_config_def cluster_init_def boot_peer in_line_def)
  then show ?case using sim_init [OF assms(2), of ts] calm_init [of n ts] by (auto simp: tester_init_def)
next
  case (tr_step T a T')
  then obtain x ow C where x: "sim n (clu T) x ow C" "tester_inv n T x" by blast
  show ?case
  proof (cases a)
    case (Act b)
    then obtain s' where s': "step b (clu T) = Some (Inr s')" "T' = note_action b s' T" "calm b (clu T)"
      using tr_step(2,3) by (auto simp: go_simps tcalm_def)
    have "clu T' = s'" using s'(2) by (auto simp: note_action_def split: action.splits)
    moreover obtain y ow' C' where "sim n s' y ow' C'" "tester_inv n T' y"
      using act_keeps [OF x(2,1) s'(3,1)] s'(2) by blast
    ultimately show ?thesis using calm_step [OF _ s'(3,1)] tr_step.IH by blast
  next
    case (Check i e)
    then show ?thesis using check_keeps [OF x(2) simD(2) [OF x(1)], of i e T'] x(1) tr_step by auto
  qed
qed

lemma check_msg_frame: "check_msg i m c = Inr c' \<Longrightarrow> applyErr c' = applyErr c \<and> rafts c' = rafts c"
  by (auto simp: check_msg_def go_simps Let_def split: if_splits option.splits gtype.splits gval.splits)

lemma tester_cfg: "treach n T \<Longrightarrow> applyErr (tcfg T) = replicate n '''' \<and> length (rafts (tcfg T)) = n"
proof (induction rule: treach.induct)
  case (tr_step T a T')
  show ?case
  proof (cases a)
    case (Act b)
    then have "tcfg T' = tcfg T" using tr_step(3) by (auto simp: go_simps)
    then show ?thesis using tr_step.IH by simp
  next
    case (Check i e)
    then show ?thesis using tr_step(3) tr_step.IH check_msg_frame by (auto simp: go_simps split: list.splits)
  qed
qed (simp add: tester_init_def empty_config_def)

lemma nCommitted_counts:
  assumes "applyErr c = replicate n ''''" and "length (logs c) = n" and "length (rafts c) = n"
    and agree: "\<And>i j v w. i < n \<Longrightarrow> j < n \<Longrightarrow> (logs c ! i) index = Some v \<Longrightarrow> (logs c ! j) index = Some w \<Longrightarrow> v = w"
  shows "\<exists>cmd. nCommitted index c = Inr (int (card {i. i < n \<and> (logs c ! i) index \<noteq> None}), cmd) \<and>
    (\<forall>i < n. \<forall>v. (logs c ! i) index = Some v \<longrightarrow> v = cmd)"
proof -
  let ?S = "\<lambda>k. {i. i < k \<and> (logs c ! i) index \<noteq> None}"
  have "\<exists>cmd. forE (count_log index c) [0..<k] (0, -1) = Inr (int (card (?S k)), cmd) \<and>
      (\<forall>i < k. \<forall>v. (logs c ! i) index = Some v \<longrightarrow> v = cmd)" if "k \<le> n" for k
    using that
  proof (induction k)
    case (Suc k)
    then obtain cmd where IH: "forE (count_log index c) [0..<k] (0, -1) = Inr (int (card (?S k)), cmd)"
        "\<forall>i < k. \<forall>v. (logs c ! i) index = Some v \<longrightarrow> v = cmd"
      by auto
    have k: "k < n" using Suc.prems by simp
    show ?case
    proof (cases "(logs c ! k) index")
      case None
      then have "?S (Suc k) = ?S k" by (auto simp: less_Suc_eq)
      moreover have "count_log index c k (int (card (?S k)), cmd) = Inr (int (card (?S k)), cmd)"
        using None k assms(1,2) by (simp add: count_log_def)
      ultimately show ?thesis using IH None by (auto simp: forE_snoc less_Suc_eq)
    next
      case (Some v)
      have S: "?S (Suc k) = insert k (?S k)" using Some by (auto simp: less_Suc_eq)
      define d where "d = card (?S k)"
      have "cmd = v" if "0 < d"
      proof -
        obtain i w where i: "i < k" "(logs c ! i) index = Some w" using \<open>0 < d\<close> by (auto simp: d_def card_gt_0_iff)
        then show ?thesis using IH(2) agree [of i k w v] Some k by simp
      qed
      then have "count_log index c k (int d, cmd) = Inr (int d + 1, v)"
        using Some k assms(1,2) by (auto simp: count_log_def)
      then have "count_log index c k (int (card (?S k)), cmd) = Inr (int (card (?S k)) + 1, v)" unfolding d_def .
      moreover have "int (card (?S (Suc k))) = int (card (?S k)) + 1" unfolding S by (subst card_insert_disjoint) auto
      moreover have "\<forall>i < Suc k. \<forall>w. (logs c ! i) index = Some w \<longrightarrow> w = v"
        using agree [OF _ k _ Some] Suc.prems by (meson Suc_le_eq less_le_trans order_less_le_trans)
      ultimately show ?thesis using IH(1) by (simp add: forE_snoc)
    qed
  qed simp
  then show ?thesis using assms(3) unfolding nCommitted_def by blast
qed

section \<open>Properties\<close>


fun texec :: "taction list \<Rightarrow> tester \<Rightarrow> tester option" where
  "texec [] T = Some T"
| "texec (a # as) T = (if tcalm a T then (case tstep a T of Some (Inr T') \<Rightarrow> texec as T' | _ \<Rightarrow> None) else None)"

lemma texec_reach: "texec as T = Some T' \<Longrightarrow> treach n T \<Longrightarrow> treach n T'"
  by (induction "as" arbitrary: T) (auto split: option.splits sum.splits if_splits intro: tr_step)

definition sample_tester :: tester where
  "sample_tester = the (texec (map Act (calm_election @ replicate_run) @ [Check 0 0]) (tester_init 3 (\<lambda>_. t0)))"


text \<open>
  C28. \<^verbatim>\<open>checkOneLeader\<close> during calm runs, although it asks the peers one after the other while they go on
  running: it never reports two leaders of one term. It fails only when no connected peer claimed to be leader in
  any round, and otherwise returns a connected peer that claimed leadership in the highest term of its round.
\<close>

theorem checkOneLeader_calm:
  assumes "\<forall>seen \<in> set rounds. \<exists>ss. observed n cfg ss seen"
  shows "(\<forall>f. checkOneLeader cfg rounds = Inl f \<longrightarrow> f = Fatal ''expected one leader, got none'' \<and>
      (\<forall>seen \<in> set rounds. \<forall>i < n. connected cfg ! i \<longrightarrow> \<not> snd (GetState (the (seen i))))) \<and>
    (\<forall>i. checkOneLeader cfg rounds = Inr i \<longrightarrow> (\<exists>seen \<in> set rounds. i < n \<and> connected cfg ! i \<and> snd (GetState (the (seen i))) \<and>
      (\<forall>j < n. connected cfg ! j \<and> snd (GetState (the (seen j))) \<longrightarrow> fst (GetState (the (seen j))) \<le> fst (GetState (the (seen i))))))"
  using assms
proof (induction rounds)
  case (Cons seen rounds)
  obtain ss where o: "observed n cfg ss seen" using Cons.prems by auto
  have g: "snd (GetState (the (seen i))) \<longleftrightarrow> state (nodes (ss ! i) i) = Leader" "fst (GetState (the (seen i))) = CurrentTerm (nodes (ss ! i) i)"
    if "i < n" "connected cfg ! i" for i
    using o that by (auto simp: observed_def GetState_def)
  obtain r where r: "leader_round cfg seen = Inr r" and c: "case r of None \<Rightarrow> \<forall>i < n. connected cfg ! i \<longrightarrow> state (nodes (ss ! i) i) \<noteq> Leader
     | Some i \<Rightarrow> i < n \<and> connected cfg ! i \<and> state (nodes (ss ! i) i) = Leader \<and>
         (\<forall>j < n. connected cfg ! j \<longrightarrow> state (nodes (ss ! j) j) = Leader \<longrightarrow>
            CurrentTerm (nodes (ss ! j) j) \<le> CurrentTerm (nodes (ss ! i) i))"
    using leader_round_calm [OF o] by blast
  show ?case
  proof (cases r)
    case None
    then have "\<forall>i < n. connected cfg ! i \<longrightarrow> \<not> snd (GetState (the (seen i)))" using c g by simp
    moreover have "checkOneLeader cfg (seen # rounds) = checkOneLeader cfg rounds" using r None by simp
    ultimately show ?thesis using Cons.IH Cons.prems by (simp del: checkOneLeader.simps)
  next
    case (Some i)
    then have i: "i < n" "connected cfg ! i" "snd (GetState (the (seen i)))" using c g by simp_all
    moreover have "fst (GetState (the (seen j))) \<le> fst (GetState (the (seen i)))"
      if "j < n" "connected cfg ! j" "snd (GetState (the (seen j)))" for j
      using c g [OF that(1,2)] g [OF i(1,2)] that Some by simp
    moreover have "checkOneLeader cfg (seen # rounds) = Inr i" using r Some by simp
    ultimately show ?thesis by (simp del: checkOneLeader.simps)
  qed
qed simp

definition sample_config :: config where
  "sample_config = (empty_config 3)\<lparr>connected := [True, True, True]\<rparr>"

theorem checkOneLeader_calm_witness:
  "checkOneLeader sample_config [\<lambda>i. Some (nodes elected3 i)] = Inr 0"
proof -
  let ?seen = "\<lambda>i. Some (nodes elected3 i)"
  have "observed 3 sample_config (replicate 3 elected3) ?seen"
    using elected3_reachable calm_later_refl by (auto simp: observed_def sample_config_def empty_config_def)
  then have o: "\<forall>seen \<in> set [?seen]. \<exists>ss. observed 3 sample_config ss seen" by auto
  note c = checkOneLeader_calm [OF o]
  have l: "snd (GetState (nodes elected3 0))" "\<not> snd (GetState (nodes elected3 1))" "\<not> snd (GetState (nodes elected3 2))"
    by code_simp+
  have up: "connected sample_config ! 0" by (simp add: sample_config_def)
  have "checkOneLeader sample_config [?seen] \<noteq> Inl f" for f using conjunct1 [OF c] l(1) up by force
  then obtain i where i: "checkOneLeader sample_config [?seen] = Inr i" by (cases "checkOneLeader sample_config [?seen]") auto
  then have "i < 3" "snd (GetState (nodes elected3 i))" using conjunct2 [OF c] by force+
  then have "i = 0" using l(2,3) by (cases "i = 1"; cases "i = 2") auto
  then show ?thesis using i by simp
qed

end
