(* ===== verification/Raft_Messages.thy ===== *)
theory Raft_Messages
  imports Raft_Recovery Labrpc
begin

text \<open>
  The messages of Raft on the simulated network: the argument and reply structs of \<^verbatim>\<open>raft.go\<close> as values of
  \<^verbatim>\<open>labgob\<close>, the methods that reflection finds on a peer, the service and server that \<^verbatim>\<open>config.go\<close> makes of it, and
  \<^verbatim>\<open>sendRequestVote\<close> and \<^verbatim>\<open>sendAppendEntries\<close>. Shown: dispatching a request on a peer's server is executing the
  handler on the arguments that were sent, and the caller gets the reply that the handler made.
\<close>

section \<open>Structs as values\<close>

datatype rpc_args = RV RequestVoteArgs | AE AppendEntriesArgs

datatype rpc_reply = RVR RequestVoteReply | AER AppendEntriesReply

definition RequestVoteArgs_type :: gtype where
  "RequestVoteArgs_type = TStruct ''RequestVoteArgs''
     [(''Term'', TInt), (''CandidateId'', TInt), (''LastLogIndex'', TInt), (''LastLogTerm'', TInt)]"

definition RequestVoteReply_type :: gtype where
  "RequestVoteReply_type = TStruct ''RequestVoteReply'' [(''Term'', TInt), (''VoteGranted'', TBool)]"

definition AppendEntriesArgs_type :: gtype where
  "AppendEntriesArgs_type = TStruct ''AppendEntriesArgs''
     [(''Term'', TInt), (''LeaderId'', TInt), (''PrevLogIndex'', TInt), (''PrevLogTerm'', TInt),
      (''Entries'', TSlice LogEntry_type), (''LeaderCommit'', TInt)]"

definition AppendEntriesReply_type :: gtype where
  "AppendEntriesReply_type = TStruct ''AppendEntriesReply''
     [(''Term'', TInt), (''ConflictTerm'', TInt), (''ConflictFirstIndex'', TInt), (''Success'', TBool)]"

fun args_type :: "rpc_args \<Rightarrow> gtype" where
  "args_type (RV args) = RequestVoteArgs_type"
| "args_type (AE args) = AppendEntriesArgs_type"

fun reply_type :: "rpc_args \<Rightarrow> gtype" where
  "reply_type (RV args) = RequestVoteReply_type"
| "reply_type (AE args) = AppendEntriesReply_type"

fun args_val :: "rpc_args \<Rightarrow> gval" where
  "args_val (RV args) = VStruct
     [(''Term'', VInt (rv_Term args)), (''CandidateId'', VInt (CandidateId args)),
      (''LastLogIndex'', VInt (LastLogIndex args)), (''LastLogTerm'', VInt (LastLogTerm args))]"
| "args_val (AE args) = VStruct
     [(''Term'', VInt (ae_Term args)), (''LeaderId'', VInt (LeaderId args)),
      (''PrevLogIndex'', VInt (PrevLogIndex args)), (''PrevLogTerm'', VInt (PrevLogTerm args)),
      (''Entries'', VSlice (map entry_val (Entries args))), (''LeaderCommit'', VInt (LeaderCommit args))]"

fun reply_val :: "rpc_reply \<Rightarrow> gval" where
  "reply_val (RVR r) = VStruct [(''Term'', VInt (rvr_Term r)), (''VoteGranted'', VBool (VoteGranted r))]"
| "reply_val (AER r) = VStruct
     [(''Term'', VInt (aer_Term r)), (''ConflictTerm'', VInt (ConflictTerm r)),
      (''ConflictFirstIndex'', VInt (ConflictFirstIndex r)), (''Success'', VBool (Success r))]"

text \<open>Reading the fields of a struct.\<close>

definition field :: "string \<Rightarrow> gval \<Rightarrow> gval option" where
  "field f v = (case v of VStruct fs \<Rightarrow> map_of fs f | _ \<Rightarrow> None)"

definition int_field :: "string \<Rightarrow> gval \<Rightarrow> int option" where
  "int_field f v = (case field f v of Some (VInt i) \<Rightarrow> Some i | _ \<Rightarrow> None)"

definition bool_field :: "string \<Rightarrow> gval \<Rightarrow> bool option" where
  "bool_field f v = (case field f v of Some (VBool b) \<Rightarrow> Some b | _ \<Rightarrow> None)"

definition log_field :: "string \<Rightarrow> gval \<Rightarrow> LogEntry list option" where
  "log_field f v = (case field f v of Some (VSlice es) \<Rightarrow> those (map val_entry es) | _ \<Rightarrow> None)"

definition val_rv_args :: "gval \<Rightarrow> RequestVoteArgs option" where
  "val_rv_args v =
     Option.bind (int_field ''Term'' v) (\<lambda>t. Option.bind (int_field ''CandidateId'' v) (\<lambda>c.
     Option.bind (int_field ''LastLogIndex'' v) (\<lambda>i. Option.bind (int_field ''LastLogTerm'' v) (\<lambda>lt.
       Some \<lparr>rv_Term = t, CandidateId = c, LastLogIndex = i, LastLogTerm = lt\<rparr>))))"

definition val_ae_args :: "gval \<Rightarrow> AppendEntriesArgs option" where
  "val_ae_args v =
     Option.bind (int_field ''Term'' v) (\<lambda>t. Option.bind (int_field ''LeaderId'' v) (\<lambda>l.
     Option.bind (int_field ''PrevLogIndex'' v) (\<lambda>i. Option.bind (int_field ''PrevLogTerm'' v) (\<lambda>pt.
     Option.bind (log_field ''Entries'' v) (\<lambda>es. Option.bind (int_field ''LeaderCommit'' v) (\<lambda>c.
       Some \<lparr>ae_Term = t, LeaderId = l, PrevLogIndex = i, PrevLogTerm = pt, Entries = es, LeaderCommit = c\<rparr>))))))"

fun val_reply :: "rpc_args \<Rightarrow> gval \<Rightarrow> rpc_reply option" where
  "val_reply (RV args) v =
     Option.bind (int_field ''Term'' v) (\<lambda>t. Option.bind (bool_field ''VoteGranted'' v) (\<lambda>g.
       Some (RVR \<lparr>rvr_Term = t, VoteGranted = g\<rparr>)))"
| "val_reply (AE args) v =
     Option.bind (int_field ''Term'' v) (\<lambda>t. Option.bind (int_field ''ConflictTerm'' v) (\<lambda>ct.
     Option.bind (int_field ''ConflictFirstIndex'' v) (\<lambda>ci. Option.bind (bool_field ''Success'' v) (\<lambda>ok.
       Some (AER \<lparr>aer_Term = t, ConflictTerm = ct, ConflictFirstIndex = ci, Success = ok\<rparr>)))))"

lemmas field_defs = field_def int_field_def bool_field_def log_field_def val_rv_args_def val_ae_args_def

section \<open>The service of a peer\<close>

text \<open>The handler of a peer for a message, with the clock readings and random numbers it draws.\<close>

fun handle :: "tick \<Rightarrow> tick \<Rightarrow> rpc_args \<Rightarrow> Raft \<Rightarrow> (Raft \<times> rpc_reply) result" where
  "handle t1 t2 (RV args) rf = bindE (RequestVote t1 args rf) (\<lambda>(rf, r). Inr (rf, RVR r))"
| "handle t1 t2 (AE args) rf = bindE (AppendEntries t1 t2 args rf) (\<lambda>(rf, r). Inr (rf, AER r))"

text \<open>
  The two methods with the signature of a handler. They take a pointer and read its fields first of all, so a
  \<^verbatim>\<open>nil\<close> panics.
\<close>

definition RequestVote_method :: "tick \<Rightarrow> Raft handler" where
  "RequestVote_method t =
     \<lparr>argType = TPtr RequestVoteArgs_type, replyType = RequestVoteReply_type,
      func = (\<lambda>v rf. case v of
          VPtr (Some x) \<Rightarrow>
            (case val_rv_args x of
               Some args \<Rightarrow> bindE (RequestVote t args rf) (\<lambda>(rf, r). Inr (rf, reply_val (RVR r)))
             | None \<Rightarrow> Inl NilDereference)
        | _ \<Rightarrow> Inl NilDereference)\<rparr>"

definition AppendEntries_method :: "tick \<Rightarrow> tick \<Rightarrow> Raft handler" where
  "AppendEntries_method t1 t2 =
     \<lparr>argType = TPtr AppendEntriesArgs_type, replyType = AppendEntriesReply_type,
      func = (\<lambda>v rf. case v of
          VPtr (Some x) \<Rightarrow>
            (case val_ae_args x of
               Some args \<Rightarrow> bindE (AppendEntries t1 t2 args rf) (\<lambda>(rf, r). Inr (rf, reply_val (AER r)))
             | None \<Rightarrow> Inl NilDereference)
        | _ \<Rightarrow> Inl NilDereference)\<rparr>"

text \<open>
  The methods that reflection reports for \<^verbatim>\<open>*Raft\<close>: the exported ones. \<^verbatim>\<open>GetState\<close>, \<^verbatim>\<open>Kill\<close> and \<^verbatim>\<open>Start\<close> are not
  suitable as handlers, so nobody calls them through a service.
\<close>

definition not_called :: "Raft handler" where
  "not_called = \<lparr>argType = TInterface, replyType = TInterface, func = (\<lambda>_ _. Inl NilDereference)\<rparr>"

definition raft_methods :: "tick \<Rightarrow> tick \<Rightarrow> Raft rmethod list" where
  "raft_methods t1 t2 =
     [\<lparr>mname = ''AppendEntries'', m_exported = True, numIn = 3, in2_ptr = True, numOut = 0,
       body = AppendEntries_method t1 t2\<rparr>,
      \<lparr>mname = ''GetState'', m_exported = True, numIn = 1, in2_ptr = False, numOut = 2, body = not_called\<rparr>,
      \<lparr>mname = ''Kill'', m_exported = True, numIn = 1, in2_ptr = False, numOut = 0, body = not_called\<rparr>,
      \<lparr>mname = ''RequestVote'', m_exported = True, numIn = 3, in2_ptr = True, numOut = 0,
       body = RequestVote_method t1\<rparr>,
      \<lparr>mname = ''Start'', m_exported = True, numIn = 2, in2_ptr = False, numOut = 3, body = not_called\<rparr>]"

text \<open>The server that \<^verbatim>\<open>start1\<close> makes for a peer, after \<open>k\<close> requests.\<close>

definition raft_server :: "tick \<Rightarrow> tick \<Rightarrow> int \<Rightarrow> Raft \<Rightarrow> Raft Server" where
  "raft_server t1 t2 k rf =
     (let svc = MakeService ''Raft'' rf (raft_methods t1 t2); srv = MakeServer in (AddService svc srv)\<lparr>srv_count := k\<rparr>)"

section \<open>Sending\<close>

definition sendRequestVote :: "nat \<Rightarrow> RequestVoteArgs \<Rightarrow> Raft \<Rightarrow> reqMsg result" where
  "sendRequestVote server args rf =
     bindE (go_index (peers rf) (int server)) (\<lambda>e.
       Inr (Call_request e ''Raft.RequestVote'' (TPtr RequestVoteArgs_type) (VPtr (Some (args_val (RV args))))))"

definition sendAppendEntries :: "nat \<Rightarrow> AppendEntriesArgs \<Rightarrow> Raft \<Rightarrow> reqMsg result" where
  "sendAppendEntries server args rf =
     bindE (go_index (peers rf) (int server)) (\<lambda>e.
       Inr (Call_request e ''Raft.AppendEntries'' (TPtr AppendEntriesArgs_type) (VPtr (Some (args_val (AE args))))))"

fun send :: "nat \<Rightarrow> rpc_args \<Rightarrow> Raft \<Rightarrow> reqMsg result" where
  "send server (RV args) rf = sendRequestVote server args rf"
| "send server (AE args) rf = sendAppendEntries server args rf"

text \<open>
  What a call returns, with its reply variable: a fresh struct when there is no reply. A reply is always decoded
  into the struct type of its call.
\<close>

definition Call_reply :: "rpc_args \<Rightarrow> replyMsg \<Rightarrow> rpc_reply option result" where
  "Call_reply m rep =
     bindE (Call_return (reply_type m) (zero (reply_type m)) rep) (\<lambda>(ok, v). Inr (if ok then val_reply m v else None))"

section \<open>Transfers\<close>

fun sendable_args :: "rpc_args \<Rightarrow> bool" where
  "sendable_args (RV args) = True"
| "sendable_args (AE args) = sendable_log (Entries args)"

fun fits :: "rpc_args \<Rightarrow> rpc_reply \<Rightarrow> bool" where
  "fits (RV args) (RVR r) = True"
| "fits (AE args) (AER r) = True"
| "fits m r = False"

lemmas message_types = RequestVoteArgs_type_def RequestVoteReply_type_def AppendEntriesArgs_type_def
  AppendEntriesReply_type_def

lemma args_val_type: "sendable_args m \<Longrightarrow> has_type (args_val m) (args_type m)"
  by (cases m) (auto simp: message_types log_val_type)

lemma types_exported: "exported (args_type m)" "exported (reply_type m)"
  by (cases m; simp add: message_types LogEntry_type_def)+

lemma reply_val_type: "fits m r \<Longrightarrow> has_type (reply_val r) (reply_type m)"
  by (cases "(m, r)" rule: fits.cases) (auto simp: message_types)

lemma val_args: "val_rv_args (args_val (RV a)) = Some a" "val_ae_args (args_val (AE b)) = Some b"
  using those_val_entry [of "Entries b"] by (auto simp: field_defs)

lemma val_reply_val: "fits m r \<Longrightarrow> val_reply m (reply_val r) = Some r"
  by (cases "(m, r)" rule: fits.cases) (auto simp: field_defs)

lemma handle_fits: "handle t1 t2 m rf = Inr (rf', r) \<Longrightarrow> fits m r"
  by (cases m) (auto simp: go_simps)

text \<open>The request that a peer sends to another through one of its client ends.\<close>

fun meth_name :: "rpc_args \<Rightarrow> string" where
  "meth_name (RV args) = ''Raft.RequestVote''"
| "meth_name (AE args) = ''Raft.AppendEntries''"

definition request_msg :: "string \<Rightarrow> rpc_args \<Rightarrow> reqMsg" where
  "request_msg e m = Call_request e (meth_name m) (TPtr (args_type m)) (VPtr (Some (args_val m)))"

lemma send_eq: "j < length (peers rf) \<Longrightarrow> send j m rf = Inr (request_msg (peers rf ! j) m)"
  by (cases m) (simp_all add: sendRequestVote_def sendAppendEntries_def request_msg_def)

lemma request_msg_end [simp]: "endname (request_msg e m) = e"
  by (simp add: request_msg_def Call_request_def)

lemma request_msg_inject:
  assumes "request_msg e m = request_msg e' m'" and "sendable_args m" and "sendable_args m'"
  shows "m = m'"
proof -
  have t: "args_type m = args_type m'" and w: "gob_Encode [] (VPtr (Some (args_val m))) = gob_Encode [] (VPtr (Some (args_val m')))"
    using assms(1) by (simp_all add: request_msg_def Call_request_def)
  have dec: "gob_Decode (gob_Encode [] (VPtr (Some (args_val x))) @ []) (TPtr (args_type x)) (zero (TPtr (args_type x))) =
      Some (VPtr (Some (args_val x)), [])" if "sendable_args x" for x
    by (rule gob_roundtrip) (use args_val_type [OF that] types_exported in simp_all)
  have v: "args_val m = args_val m'" using dec [OF assms(2)] dec [OF assms(3)] t w by simp
  show ?thesis
    using t v val_args by (cases m; cases m') (auto simp: message_types, metis option.inject)+
qed

section \<open>Dispatching\<close>

fun meth :: "rpc_args \<Rightarrow> string" where
  "meth (RV args) = ''RequestVote''"
| "meth (AE args) = ''AppendEntries''"

text \<open>The method a request names, with both of its clock readings fixed.\<close>

fun method_of :: "tick \<Rightarrow> tick \<Rightarrow> rpc_args \<Rightarrow> Raft handler" where
  "method_of t1 t2 (RV args) = RequestVote_method t1"
| "method_of t1 t2 (AE args) = AppendEntries_method t1 t2"

lemma method_arg: "argType (method_of t1 t2 m) = TPtr (args_type m)"
  by (cases m) (simp_all add: RequestVote_method_def AppendEntries_method_def)

lemma method_func:
  "func (method_of t1 t2 m) (VPtr (Some (args_val m))) rf =
    bindE (handle t1 t2 m rf) (\<lambda>(rf, r). Inr (rf, reply_val r))"
proof (cases m)
  case (RV args)
  then show ?thesis by (cases "RequestVote t1 args rf") (auto simp: RequestVote_method_def val_args simp del: args_val.simps)
next
  case (AE args)
  then show ?thesis by (cases "AppendEntries t1 t2 args rf") (auto simp: AppendEntries_method_def val_args simp del: args_val.simps)
qed

text \<open>A request on the server of a peer runs the handler of the peer on the arguments that were sent.\<close>

lemma raft_dispatch:
  assumes "sendable_args m"
  shows "Server_dispatch (request_msg e m) (raft_server t1 t2 k rf) =
    bindE (handle t1 t2 m rf) (\<lambda>(rf, r).
      Inr (raft_server t1 t2 (k + 1) rf, \<lparr>rep_ok = True, rep_reply = gob_Encode [] (reply_val r)\<rparr>))"
proof -
  define svc where "svc = MakeService ''Raft'' rf (raft_methods t1 t2)"
  have s: "map_of (services (raft_server t1 t2 k rf)) ''Raft'' = Some svc"
    by (simp add: raft_server_def AddService_def MakeService_def svc_def Let_def)
  have h: "map_of (methods svc) (meth m) = Some (method_of t1 t2 m)"
    by (cases m) (simp_all add: svc_def MakeService_def raft_methods_def suitable_def)
  have "passed (VPtr (Some (args_val m))) (TPtr (args_type m))" "exported (TPtr (args_type m))"
    using args_val_type [OF assms] types_exported by simp_all
  note d = Service_dispatch_eq [OF h method_arg this]
  have "CHR ''.'' \<notin> set (meth m)" "svcMeth (request_msg e m) = ''Raft'' @ CHR ''.'' # meth m"
    by (cases m; simp add: request_msg_def Call_request_def)+
  note e = Server_dispatch_eq [OF this s]
  have r: "rcvr svc = rf" by (simp add: svc_def MakeService_def)
  have upd: "raft_server t1 t2 (k + 1) rf' = (raft_server t1 t2 k rf)
      \<lparr>srv_count := srv_count (raft_server t1 t2 k rf) + 1,
       services := map (\<lambda>(n, x). (n, if n = ''Raft'' then svc\<lparr>rcvr := rf'\<rparr> else x)) (services (raft_server t1 t2 k rf))\<rparr>" for rf'
    by (simp add: raft_server_def AddService_def MakeService_def MakeServer_def svc_def Let_def)
  have "Service_dispatch (meth m) (request_msg e m) svc =
      bindE (func (method_of t1 t2 m) (VPtr (Some (args_val m))) rf) (\<lambda>(r, v).
        Inr (svc\<lparr>rcvr := r\<rparr>, \<lparr>rep_ok = True, rep_reply = gob_Encode [] v\<rparr>))"
    unfolding request_msg_def d r ..
  then show ?thesis unfolding e upd method_func by (cases "handle t1 t2 m rf") auto
qed

lemma Call_reply_ok:
  assumes "fits m r"
  shows "Call_reply m \<lparr>rep_ok = True, rep_reply = gob_Encode [] (reply_val r)\<rparr> = Inr (Some r)"
  using gob_roundtrip [OF passed_type [OF reply_val_type [OF assms]] types_exported(2), of "[]"] val_reply_val [OF assms]
  by (simp add: Call_reply_def Call_return_def)

lemma Call_reply_none: "\<not> rep_ok rep \<Longrightarrow> Call_reply m rep = Inr None"
  by (simp add: Call_reply_def Call_return_def)
end
