(* ===== verification/Raft_System.thy ===== *)
theory Raft_System
  imports Config Raft_Messages
begin

text \<open>
  The whole program put together: the harness of \<^verbatim>\<open>config.go\<close>, the simulated network of \<^verbatim>\<open>labrpc.go\<close> with the
  encoding of \<^verbatim>\<open>labgob\<close>, and the peers of \<^verbatim>\<open>raft.go\<close> with their goroutines.

  A call of a goroutine is a request that the network processes on its own (\<open>proc_step\<close>): the goroutine hands it
  over (\<open>Issue\<close>), the network reads its tables, dispatches the request on the server object that was registered
  then, and answers (\<open>Network_step\<close>), and the goroutine takes the answer (\<open>Return\<close>). The tester connects,
  disconnects, crashes and restarts peers with the operations of theory \<open>Config\<close>.

  An instance that the tester has crashed is not stopped: \<^verbatim>\<open>Kill\<close> does nothing. Its object stays where a request
  that was under way may still execute, its goroutines go on, and may send over the client ends that
  it has. Nothing is assumed of such an instance: its object changes in any way (\<open>Retired_change\<close>), and it sends
  any request over client ends that no running peer has (\<open>Stray_send\<close>).

  A request has the content its arguments had when they were built; that they share an array with the log is the
  subject of theory \<open>Raft_Slices\<close>. Each of \<^verbatim>\<open>connect\<close>, \<^verbatim>\<open>disconnect\<close>, \<^verbatim>\<open>crash1\<close> and \<^verbatim>\<open>start1\<close> is one step.

  Shown here: a step of a peer is local, it depends on and changes that peer and the goroutine that runs, and a running
  peer keeps its client ends and saves no snapshot. The theories \<open>Raft_Simulation\<close> and \<open>Raft_System_Safety\<close>
  have the properties.
\<close>

section \<open>State\<close>

text \<open>
  \<open>harness\<close>: in \<open>rafts\<close> only whether a peer runs is meaningful; the object of the running peer \<open>i\<close> is
  \<open>nodes (peersys c) i\<close>. \<open>retired\<close>: the objects of crashed instances, at the address of their server.
  \<open>served\<close>: the request count of the server at an address. \<open>allocated\<close>: the addresses that have been used.
  \<open>in_net\<close>: how far the call of a goroutine has got. \<open>stray_calls\<close>: the requests of crashed instances.
\<close>

record system =
  harness :: config
  peersys :: cluster
  retired :: "nat \<Rightarrow> Raft"
  served :: "nat \<Rightarrow> int"
  allocated :: "nat list"
  in_net :: "nat \<Rightarrow> proc option"
  stray_calls :: "nat \<Rightarrow> proc option"

definition peer_up :: "system \<Rightarrow> nat \<Rightarrow> bool" where
  "peer_up c i \<longleftrightarrow> i < cf_n (harness c) \<and> rafts (harness c) ! i \<noteq> None"

text \<open>The harness with the objects of the running peers.\<close>

definition harness_view :: "system \<Rightarrow> config" where
  "harness_view c = (harness c)\<lparr>rafts := map (\<lambda>i. if peer_up c i then Some (nodes (peersys c) i) else None) [0..<cf_n (harness c)]\<rparr>"

definition address :: "system \<Rightarrow> nat \<Rightarrow> nat option" where
  "address c i = servers (cf_net (harness c)) (server_name i)"

definition peer_at :: "system \<Rightarrow> nat \<Rightarrow> nat option" where
  "peer_at c a = List.find (\<lambda>i. address c i = Some a) [0..<cf_n (harness c)]"

definition object_at :: "system \<Rightarrow> nat \<Rightarrow> Raft" where
  "object_at c a = (case peer_at c a of Some i \<Rightarrow> nodes (peersys c) i | None \<Rightarrow> retired c a)"

text \<open>What the network sees: its tables, and a server for every object.\<close>

definition lab_view :: "tick \<Rightarrow> tick \<Rightarrow> system \<Rightarrow> Raft lab_net" where
  "lab_view t1 t2 c = \<lparr>net = cf_net (harness c), heap = (\<lambda>a. raft_server t1 t2 (served c a) (object_at c a))\<rparr>"

definition receiver :: "Raft Server \<Rightarrow> Raft" where
  "receiver srv = rcvr (the (map_of (services srv) ''Raft''))"

text \<open>The server object at an address has been changed.\<close>

definition put_server :: "nat \<Rightarrow> Raft Server \<Rightarrow> system \<Rightarrow> system" where
  "put_server a srv c =
     (let c' = (case peer_at c a of
          Some i \<Rightarrow> c\<lparr>peersys := set_node i (receiver srv) (peersys c)\<rparr>
        | None \<Rightarrow> c\<lparr>retired := (retired c)(a := receiver srv)\<rparr>)
      in c'\<lparr>served := (served c)(a := srv_count srv)\<rparr>)"

text \<open>The step of a request at which a handler runs, and the server it runs on.\<close>

fun executes_at :: "proc_action \<Rightarrow> proc \<Rightarrow> nat option" where
  "executes_at PExecute (Executing req sn a rel longre) = Some a"
| "executes_at PExecute (Abandoned req a) = Some a"
| "executes_at x pr = None"

definition lab_update :: "proc_action \<Rightarrow> proc \<Rightarrow> Raft lab_net \<Rightarrow> system \<Rightarrow> system" where
  "lab_update x pr w c =
     (let c = c\<lparr>harness := (harness c)\<lparr>cf_net := net w\<rparr>\<rparr>
      in case executes_at x pr of None \<Rightarrow> c | Some a \<Rightarrow> put_server a (heap w a) c)"

section \<open>Calls\<close>

text \<open>The call in which a goroutine is: the peer that makes it, the peer it is for, and the message.\<close>

fun calling :: "thread \<Rightarrow> (nat \<times> nat \<times> rpc_args) option" where
  "calling (VoteCall e i j (VSent args)) = Some (i, j, RV args)"
| "calling (AppendCall k i j b (ASent args nx)) = Some (i, j, AE args)"
| "calling th = None"

text \<open>The goroutine after its call has returned with a reply, and without one.\<close>

fun replied :: "rpc_reply \<Rightarrow> thread \<Rightarrow> thread" where
  "replied (RVR r) (VoteCall e i j (VSent args)) = VoteCall e i j (VReplied args r)"
| "replied (RVR r) (VoteCall e i j (VOrphan args)) = VoteCall e i j (VDone False)"
| "replied (AER r) (AppendCall k i j b (ASent args nx)) = AppendCall k i j b (AReplied args r nx)"
| "replied (AER r) (AppendCall k i j b (AOrphan args)) = AppendCall k i j b ADone"
| "replied r th = th"

fun unanswered :: "thread \<Rightarrow> thread" where
  "unanswered (VoteCall e i j ph) = VoteCall e i j (VDone False)"
| "unanswered (AppendCall k i j b ph) = AppendCall k i j b ADone"
| "unanswered th = th"

definition issue :: "nat \<Rightarrow> system \<Rightarrow> system result option" where
  "issue p c =
     (case (calling (threads (peersys c) p), in_net c p) of
        (Some (i, j, m), None) \<Rightarrow>
          Some (bindE (send j m (nodes (peersys c) i)) (\<lambda>req. Inr (c\<lparr>in_net := (in_net c)(p \<mapsto> Sending req)\<rparr>)))
      | _ \<Rightarrow> None)"

text \<open>
  A call returns when the network has answered. When it has given up on a server that is gone, the handler may still
  run, so the request stays with the network.
\<close>

definition returns :: "nat \<Rightarrow> system \<Rightarrow> system result option" where
  "returns p c =
     (let th = threads (peersys c) p in
      case (calling th, in_net c p) of
        (Some (i, j, m), Some (Answered rep)) \<Rightarrow>
          Some (bindE (Call_reply m rep) (\<lambda>r.
            Inr (c\<lparr>peersys := set_thread p (case r of Some r \<Rightarrow> replied r th | None \<Rightarrow> unanswered th) (peersys c),
                   in_net := (in_net c)(p := None)\<rparr>)))
      | (Some (i, j, m), Some (Abandoned req a)) \<Rightarrow>
          Some (Inr (c\<lparr>peersys := set_thread p (unanswered th) (peersys c)\<rparr>))
      | _ \<Rightarrow> None)"

definition network_step :: "tick \<Rightarrow> tick \<Rightarrow> nat \<Rightarrow> proc_action \<Rightarrow> system \<Rightarrow> system result option" where
  "network_step t1 t2 p x c =
     (case in_net c p of
        None \<Rightarrow> None
      | Some pr \<Rightarrow> map_option (\<lambda>r. bindE r (\<lambda>(pr', w). Inr ((lab_update x pr w c)\<lparr>in_net := (in_net c)(p \<mapsto> pr')\<rparr>)))
          (proc_step x pr (lab_view t1 t2 c)))"

section \<open>Crashed instances\<close>

text \<open>A client end of a crashed instance: it exists, and no running peer has it.\<close>

definition dead_end :: "system \<Rightarrow> string \<Rightarrow> bool" where
  "dead_end c e \<longleftrightarrow> e \<in> set (ends (cf_net (harness c))) \<and>
     (\<forall>i < cf_n (harness c). peer_up c i \<longrightarrow> e \<notin> set (peers (nodes (peersys c) i)))"

definition stray_send :: "nat \<Rightarrow> reqMsg \<Rightarrow> system \<Rightarrow> system result option" where
  "stray_send q req c =
     (if stray_calls c q = None \<and> dead_end c (endname req) then Some (Inr (c\<lparr>stray_calls := (stray_calls c)(q \<mapsto> Sending req)\<rparr>)) else None)"

definition stray_step :: "tick \<Rightarrow> tick \<Rightarrow> nat \<Rightarrow> proc_action \<Rightarrow> system \<Rightarrow> system result option" where
  "stray_step t1 t2 q x c =
     (case stray_calls c q of
        None \<Rightarrow> None
      | Some pr \<Rightarrow> map_option (\<lambda>r. bindE r (\<lambda>(pr', w). Inr ((lab_update x pr w c)\<lparr>stray_calls := (stray_calls c)(q \<mapsto> pr')\<rparr>)))
          (proc_step x pr (lab_view t1 t2 c)))"

section \<open>The tester\<close>

text \<open>
  The instance running as peer \<open>i\<close>, if any, is retired: its object is left at its address, and its goroutines are no
  longer goroutines of a running peer.
\<close>

definition retire :: "nat \<Rightarrow> system \<Rightarrow> system" where
  "retire i c =
     c\<lparr>peersys := (peersys c)\<lparr>threads := (\<lambda>p. kill_thread i (threads (peersys c) p)),
         applying := (applying (peersys c))(i := 0), applier := (applier (peersys c))(i := Awake)\<rparr>,
       retired := (case address c i of None \<Rightarrow> retired c | Some a \<Rightarrow> (retired c)(a := nodes (peersys c) i))\<rparr>"

text \<open>As in the tests: only a running peer is connected, new client ends have new names, a new server a new address.\<close>

fun tester_ok :: "config_op \<Rightarrow> system \<Rightarrow> bool" where
  "tester_ok (Connect_op i) c = peer_up c i"
| "tester_ok (Disconnect_op i) c = (i < cf_n (harness c))"
| "tester_ok (Crash_op i) c = (i < cf_n (harness c))"
| "tester_ok (Start_op i ns a t) c = (i < cf_n (harness c) \<and> fresh_names ns (harness c) \<and> a \<notin> set (allocated c))"
| "tester_ok (Peer_op i rf) c = False"

fun tester_effect :: "config_op \<Rightarrow> config \<Rightarrow> system \<Rightarrow> system" where
  "tester_effect (Crash_op i) cfg c = (retire i c)\<lparr>harness := cfg\<rparr>"
| "tester_effect (Start_op i ns a t) cfg c =
     (let c = retire i c;
          c = c\<lparr>peersys := set_node i (the (rafts cfg ! i)) (peersys c)\<rparr>
      in c\<lparr>harness := cfg, served := (served c)(a := 0), allocated := a # allocated c\<rparr>)"
| "tester_effect op cfg c = c\<lparr>harness := cfg\<rparr>"

definition tester_step :: "config_op \<Rightarrow> system \<Rightarrow> system result option" where
  "tester_step op c =
     (if tester_ok op c
      then Some (bindE (config_step op (harness_view c)) (\<lambda>cfg. Inr (tester_effect op cfg c))) else None)"

section \<open>Steps and runs\<close>

datatype sys_action =
    Peer action
  | Issue nat
  | Network_step tick tick nat proc_action
  | Return nat
  | Stray_send nat reqMsg
  | Stray_step tick tick nat proc_action
  | Retired_change nat Raft
  | Tester config_op
  | Set_unreliable bool
  | Set_longreordering bool
  | Net_cleanup
  | Net_stop

text \<open>The actions of the cluster that are steps of a running peer.\<close>

fun peer_ready :: "action \<Rightarrow> system \<Rightarrow> bool" where
  "peer_ready (Run now p) c = True"
| "peer_ready (Timeout t i) c = peer_up c i"
| "peer_ready (Client i cmd) c = peer_up c i"
| "peer_ready (Beat i) c = peer_up c i"
| "peer_ready (Pass i) c = peer_up c i"
| "peer_ready (Doze i) c = peer_up c i"
| "peer_ready (Wake i) c = peer_up c i"
| "peer_ready (Apply i) c = peer_up c i"
| "peer_ready a c = False"

definition on_net :: "(Network \<Rightarrow> Network) \<Rightarrow> system \<Rightarrow> system" where
  "on_net f c = c\<lparr>harness := (harness c)\<lparr>cf_net := f (cf_net (harness c))\<rparr>\<rparr>"

fun sys_step :: "sys_action \<Rightarrow> system \<Rightarrow> system result option" where
  "sys_step (Peer a) c =
     (if peer_ready a c
      then map_option (\<lambda>r. bindE r (\<lambda>s. Inr (c\<lparr>peersys := s\<rparr>))) (step a (peersys c)) else None)"
| "sys_step (Issue p) c = issue p c"
| "sys_step (Network_step t1 t2 p x) c = network_step t1 t2 p x c"
| "sys_step (Return p) c = returns p c"
| "sys_step (Stray_send q req) c = stray_send q req c"
| "sys_step (Stray_step t1 t2 q x) c = stray_step t1 t2 q x c"
| "sys_step (Retired_change a rf) c = Some (Inr (c\<lparr>retired := (retired c)(a := rf)\<rparr>))"
| "sys_step (Tester op) c = tester_step op c"
| "sys_step (Set_unreliable b) c = Some (Inr (c\<lparr>harness := setunreliable b (harness c)\<rparr>))"
| "sys_step (Set_longreordering b) c = Some (Inr (c\<lparr>harness := setlongreordering b (harness c)\<rparr>))"
| "sys_step Net_cleanup c = Some (Inr (on_net Cleanup c))"
| "sys_step Net_stop c = Some (Inr (on_net stop_loop c))"

fun sys_exec :: "sys_action list \<Rightarrow> system \<Rightarrow> system option" where
  "sys_exec [] c = Some c"
| "sys_exec (a # as) c = (case sys_step a c of Some (Inr c') \<Rightarrow> sys_exec as c' | _ \<Rightarrow> None)"

definition sys_calm :: "sys_action \<Rightarrow> system \<Rightarrow> bool" where
  "sys_calm a c = (case a of Peer b \<Rightarrow> calm b (peersys c) | _ \<Rightarrow> True)"

fun sys_calm_run :: "sys_action list \<Rightarrow> system \<Rightarrow> bool" where
  "sys_calm_run [] c = True"
| "sys_calm_run (a # as) c =
     (sys_calm a c \<and> (case sys_step a c of Some (Inr c') \<Rightarrow> sys_calm_run as c' | _ \<Rightarrow> True))"

text \<open>Before \<^verbatim>\<open>make_config\<close> starts the first peer.\<close>

definition sys_init :: "nat \<Rightarrow> bool \<Rightarrow> system" where
  "sys_init n unreliable =
     (let cfg = setunreliable unreliable (empty_config n);
          cfg = cfg\<lparr>cf_net := LongDelays True (cf_net cfg)\<rparr> in
      \<lparr>harness = cfg, peersys = cluster_init n (\<lambda>_. t0), retired = boot n (\<lambda>_. t0), served = (\<lambda>_. 0), allocated = [],
       in_net = (\<lambda>_. None), stray_calls = (\<lambda>_. None)\<rparr>)"


section \<open>Steps of a peer are local\<close>

text \<open>The peer a goroutine belongs to, unless it has ended or waits in vain.\<close>

fun runs_on :: "thread \<Rightarrow> nat option" where
  "runs_on Idle = None"
| "runs_on (ElectionLoop e i T js) = Some i"
| "runs_on (VoteCall e i j ph) = (case ph of VDone b \<Rightarrow> None | VOrphan args \<Rightarrow> None | _ \<Rightarrow> Some i)"
| "runs_on (StartCall i cmd ph) = Some i"
| "runs_on (Heartbeat i ph) = Some i"
| "runs_on (Bcast k i b ph) = Some i"
| "runs_on (AppendCall k i j b ph) = (case ph of ADone \<Rightarrow> None | AOrphan args \<Rightarrow> None | _ \<Rightarrow> Some i)"

definition actor :: "action \<Rightarrow> cluster \<Rightarrow> nat option" where
  "actor a s =
     (case a of Run now p \<Rightarrow> runs_on (threads s p) | Timeout t i \<Rightarrow> Some i | Client i cmd \<Rightarrow> Some i | Beat i \<Rightarrow> Some i
      | Pass i \<Rightarrow> Some i | Doze i \<Rightarrow> Some i | Wake i \<Rightarrow> Some i | Apply i \<Rightarrow> Some i | _ \<Rightarrow> None)"

text \<open>The goroutines that a step changes or starts.\<close>

definition touched :: "action \<Rightarrow> cluster \<Rightarrow> cluster \<Rightarrow> nat \<Rightarrow> bool" where
  "touched a s s' q \<longleftrightarrow> (case a of Run now p \<Rightarrow> q = p | _ \<Rightarrow> False) \<or> fresh s \<le> q \<and> q < fresh s'"

text \<open>The same step with other peers and goroutines around.\<close>

definition around :: "(nat \<Rightarrow> Raft) \<Rightarrow> (nat \<Rightarrow> thread) \<Rightarrow> cluster \<Rightarrow> cluster" where
  "around N T s = s\<lparr>nodes := N, threads := T\<rparr>"

definition local_at :: "nat \<Rightarrow> (nat \<Rightarrow> bool) \<Rightarrow> cluster \<Rightarrow> cluster \<Rightarrow> bool" where
  "local_at i P s s' \<longleftrightarrow> size_of s' = size_of s \<and> fresh s \<le> fresh s' \<and> (\<forall>k. k \<noteq> i \<longrightarrow> nodes s' k = nodes s k) \<and>
     (\<forall>q. \<not> P q \<longrightarrow> threads s' q = threads s q) \<and> (\<forall>q. P q \<longrightarrow> runs_on (threads s' q) \<in> {None, Some i})"

lemma next_only: "(k \<le> q \<and> q < Suc k) = (q = (k::nat))" "(k \<le> q \<and> q < k) = False"
  by auto

text \<open>One critical section of goroutine \<open>p\<close> of peer \<open>i\<close> changes that peer, that goroutine and what it starts.\<close>

definition own_step :: "int \<Rightarrow> nat \<Rightarrow> cluster \<Rightarrow> cluster \<Rightarrow> nat \<Rightarrow> bool" where
  "own_step now p s s' i \<longleftrightarrow> runs_on (threads s p) = Some i \<and> calling (threads s p) = None \<and>
     local_at i (\<lambda>q. q = p \<or> fresh s \<le> q \<and> q < fresh s') s s' \<and>
     (\<forall>N T. N i = nodes s i \<longrightarrow> T p = threads s p \<longrightarrow> run_thread now p (around N T s) =
        Some (Inr (around (N(i := nodes s' i)) (\<lambda>q. if q = p \<or> fresh s \<le> q \<and> q < fresh s' then threads s' q else T q) s')))"

lemmas own_step_defs = own_step_def run_thread_def around_def local_at_def cluster_updates Let_def next_only le_less_Suc_eq

lemma own_step_vote:
  assumes th: "threads s p = VoteCall e i j ph" and st: "run_thread now p s = Some (Inr s')"
  shows "own_step now p s s' i"
proof (cases "\<exists>args reply. ph = VChecked args reply \<and> VoteGranted reply")
  case True
  then obtain args reply where ph: "ph = VChecked args reply" "VoteGranted reply" by blast
  then obtain rf k won where "vote_granted (nvotes s e) (nodes s i) = Inr (rf, k, won)"
    using st th by (auto simp: run_thread_def go_simps)
  then show ?thesis using st th ph by (cases won) (auto simp: own_step_defs fun_eq_iff split: if_splits)
qed (use st th in \<open>cases ph; auto simp: own_step_defs fun_eq_iff split: if_splits\<close>)

lemma own_step_append:
  assumes th: "threads s p = AppendCall k i j b ph" and st: "run_thread now p s = Some (Inr s')"
  shows "own_step now p s s' i"
proof (cases ph)
  case ATerm
  then obtain args nx where "build_args (int j) b (nodes s i) = Inr (args, nx)"
    using st th by (auto simp: run_thread_def go_simps)
  then show ?thesis using st th ATerm by (auto simp: own_step_defs fun_eq_iff split: if_splits)
next
  case (AChecked args reply nx)
  show ?thesis
  proof (cases "Success reply")
    case True
    then obtain rf ta adv where "append_accepted (int j) (bc_index b) (tallies s k) (nodes s i) = Inr (rf, ta, adv)"
      using st th AChecked by (auto simp: run_thread_def go_simps)
    then show ?thesis using st th AChecked True by (cases adv) (auto simp: own_step_defs fun_eq_iff split: if_splits)
  next
    case False
    then obtain rf retry where "append_rejected (int j) args reply nx (nodes s i) = Inr (rf, retry)"
      using st th AChecked by (auto simp: run_thread_def go_simps)
    then show ?thesis using st th AChecked False by (auto simp: own_step_defs fun_eq_iff split: if_splits)
  qed
qed (use st th in \<open>auto simp: own_step_defs fun_eq_iff split: if_splits\<close>)

lemma run_own_step:
  assumes st: "run_thread now p s = Some (Inr s')"
  shows "\<exists>i. own_step now p s s' i"
proof (cases "threads s p")
  case (ElectionLoop e i T js)
  then have "own_step now p s s' i" using st by (cases js) (auto simp: own_step_defs go_simps fun_eq_iff split: if_splits)
  then show ?thesis by blast
next
  case (StartCall i cmd ph)
  then have "own_step now p s s' i" using st by (cases ph) (auto simp: own_step_defs split_beta fun_eq_iff split: if_splits)
  then show ?thesis by blast
next
  case (Heartbeat i ph)
  then have "own_step now p s s' i" using st by (cases ph) (auto simp: own_step_defs fun_eq_iff split: if_splits)
  then show ?thesis by blast
next
  case (Bcast k i b ph)
  then have "own_step now p s s' i" using st
    by (cases "(p, k, i, b, ph, s)" rule: run_bcast.cases) (auto simp: own_step_defs fun_eq_iff split: if_splits)
  then show ?thesis by blast
next
  case (VoteCall e i j ph)
  then show ?thesis using own_step_vote st by blast
next
  case (AppendCall k i j b ph)
  then show ?thesis using own_step_append st by blast
qed (use st in \<open>simp add: run_thread_def\<close>)

lemma run_local:
  assumes st: "run_thread now p s = Some (Inr s')"
  obtains i where "runs_on (threads s p) = Some i" "calling (threads s p) = None"
    "local_at i (\<lambda>q. q = p \<or> fresh s \<le> q \<and> q < fresh s') s s'"
    "\<And>N T. N i = nodes s i \<Longrightarrow> T p = threads s p \<Longrightarrow> run_thread now p (around N T s) =
       Some (Inr (around (N(i := nodes s' i)) (\<lambda>q. if q = p \<or> fresh s \<le> q \<and> q < fresh s' then threads s' q else T q) s'))"
  using run_own_step [OF st] that unfolding own_step_def by blast

lemma step_local:
  assumes st: "step a s = Some (Inr s')" and i: "actor a s = Some i"
  shows "local_at i (touched a s s') s s'"
    and "N i = nodes s i \<Longrightarrow> (\<And>now p. a = Run now p \<Longrightarrow> T p = threads s p) \<Longrightarrow> step a (around N T s) =
      Some (Inr (around (N(i := nodes s' i)) (\<lambda>q. if touched a s s' q then threads s' q else T q) s'))"
proof -
  note ds = around_def local_at_def cluster_updates Let_def touched_def next_only le_less_Suc_eq actor_def
  have "local_at i (touched a s s') s s' \<and> (N i = nodes s i \<longrightarrow> (\<forall>now p. a = Run now p \<longrightarrow> T p = threads s p) \<longrightarrow>
    step a (around N T s) = Some (Inr (around (N(i := nodes s' i)) (\<lambda>q. if touched a s s' q then threads s' q else T q) s')))"
  proof (cases a)
    case (Run now p)
    then have "run_thread now p s = Some (Inr s')" using st by simp
    then obtain i' where l: "runs_on (threads s p) = Some i'" "local_at i' (\<lambda>q. q = p \<or> fresh s \<le> q \<and> q < fresh s') s s'"
      "\<And>N T. N i' = nodes s i' \<Longrightarrow> T p = threads s p \<Longrightarrow> run_thread now p (around N T s) =
         Some (Inr (around (N(i' := nodes s' i')) (\<lambda>q. if q = p \<or> fresh s \<le> q \<and> q < fresh s' then threads s' q else T q) s'))"
      by (rule run_local) blast
    moreover have "i' = i" "touched a s s' = (\<lambda>q. q = p \<or> fresh s \<le> q \<and> q < fresh s')"
      using l(1) i Run by (simp_all add: actor_def touched_def fun_eq_iff)
    ultimately show ?thesis using Run by simp
  next
    case (Apply k)
    then obtain rf where "apply_step (applying s k) (nodes s k) = Some (Inr rf)" "s' = set_node k rf s"
      using st by (auto simp: go_simps split: if_splits)
    then show ?thesis using st Apply i by (auto simp: ds fun_eq_iff split: if_splits)
  qed (use st i in \<open>auto simp: ds fun_eq_iff split: if_splits applier_pc.splits\<close>)
  then show "local_at i (touched a s s') s s'"
    and "N i = nodes s i \<Longrightarrow> (\<And>now p. a = Run now p \<Longrightarrow> T p = threads s p) \<Longrightarrow> step a (around N T s) =
      Some (Inr (around (N(i := nodes s' i)) (\<lambda>q. if touched a s s' q then threads s' q else T q) s'))"
    by blast+
qed

lemma local_atD:
  assumes "local_at i P s s'"
  shows "size_of s' = size_of s" "fresh s \<le> fresh s'" "k \<noteq> i \<Longrightarrow> nodes s' k = nodes s k"
    "\<not> P q \<Longrightarrow> threads s' q = threads s q" "P q \<Longrightarrow> runs_on (threads s' q) \<in> {None, Some i}"
  using assms by (simp_all add: local_at_def)

lemma calm_around:
  assumes "actor a s = Some i" and "N i = nodes s i" and "\<And>now p. a = Run now p \<Longrightarrow> T p = threads s p"
  shows "calm a (around N T s) = calm a s"
proof (cases a)
  case (Run now p)
  then show ?thesis using assms by (cases "threads s p") (auto simp: calm_def actor_def around_def split: vphase.splits aphase.splits sphase.splits)
qed (simp_all add: calm_def)

section \<open>What a running peer keeps\<close>

text \<open>A running peer keeps its client ends, and saves no snapshot.\<close>

definition keeps :: "Raft \<Rightarrow> Raft \<Rightarrow> bool" where
  "keeps rf rf' \<longleftrightarrow> peers rf' = peers rf \<and> ReadSnapshot (persister rf') = ReadSnapshot (persister rf)"

lemma keeps_refl [simp]: "keeps rf rf"
  by (simp add: keeps_def)

lemma init_indices_keeps: "init_indices k rf = Inr rf' \<Longrightarrow> keeps rf rf'"
  by (induction k arbitrary: rf') (force simp: go_simps keeps_def)+

lemma persist_snapshot [simp]: "ReadSnapshot (persister (persist rf)) = ReadSnapshot (persister rf)"
  by (simp add: persist_def)

lemma term_updated_snapshot [simp]:
  "ReadSnapshot (persister (rv_term_updated args rf)) = ReadSnapshot (persister rf)"
  "ReadSnapshot (persister (ae_term_updated t aargs rf)) = ReadSnapshot (persister rf)"
  by (simp_all add: rv_term_updated_def rv_newer_term_def ae_term_updated_def ae_newer_term_def Let_def)

lemma keeps_vote: "RequestVote t args rf = Inr (rf', r) \<Longrightarrow> keeps rf rf'"
  using RequestVote_empty [of t args rf rf' r]
  by (cases "Log rf = []") (auto simp: RequestVote_eq keeps_def rv_grant_def Let_def split: if_splits)

lemma keeps_append: "AppendEntries t1 t2 args rf = Inr (rf', r) \<Longrightarrow> keeps rf rf'"
  by (erule AppendEntries_cases) (simp_all add: keeps_def ae_accepted_def advance_commit_def Let_def)

lemma keeps_denied: "keeps rf (vote_denied r rf)"
  by (simp add: vote_denied_def keeps_def Let_def)

lemma keeps_granted: "vote_granted k rf = Inr (rf', x) \<Longrightarrow> keeps rf rf'"
  by (auto simp: vote_granted_def Let_def go_simps keeps_def split: if_splits dest!: init_indices_keeps)

lemma keeps_rejected: "append_rejected i args reply nx rf = Inr (rf', x) \<Longrightarrow> keeps rf rf'"
  by (auto simp: append_rejected_def Let_def go_simps keeps_def split: if_splits)

lemma keeps_accepted: "append_accepted i index ta rf = Inr (rf', x) \<Longrightarrow> keeps rf rf'"
  by (auto simp: append_accepted_def Let_def go_simps keeps_def split: if_splits)

lemma keeps_start: "keeps rf (fst (start_append c now rf))"
  by (simp add: start_append_def Let_def keeps_def)

lemma keeps_election: "keeps rf (startElection t rf)"
  by (simp add: startElection_def Let_def keeps_def)

lemma keeps_apply: "apply_step bd rf = Some (Inr rf') \<Longrightarrow> keeps rf rf'"
  by (auto simp: apply_step_def apply_entry_def go_simps Let_def keeps_def split: if_splits)

lemmas keeps_intros = keeps_vote keeps_append keeps_denied keeps_granted keeps_rejected keeps_accepted keeps_start
  keeps_election keeps_apply

lemma handle_keeps: "handle t1 t2 m rf = Inr (rf', r) \<Longrightarrow> keeps rf rf'"
  by (cases m) (auto simp: go_simps intro: keeps_intros)

lemma run_keeps:
  assumes "run_thread now p s = Some (Inr s')"
  shows "keeps (nodes s v) (nodes s' v)"
proof (cases "threads s p")
  case (ElectionLoop e i T js)
  then show ?thesis using assms by (cases js) (auto simp: run_thread_def go_simps cluster_updates)
next
  case (VoteCall e i j ph)
  then show ?thesis using assms
    by (cases ph) (auto simp: run_thread_def go_simps cluster_updates Let_def split: if_splits intro: keeps_intros)
next
  case (StartCall i c ph)
  then show ?thesis using assms
    by (cases ph) (auto simp: run_thread_def cluster_updates Let_def split_beta intro: keeps_intros)
next
  case (Heartbeat i ph)
  then show ?thesis using assms
    by (cases ph) (auto simp: run_thread_def cluster_updates Let_def keeps_def)
next
  case (Bcast k i b ph)
  then show ?thesis using assms
    by (cases "(p, k, i, b, ph, s)" rule: run_bcast.cases) (auto simp: run_thread_def cluster_updates)
next
  case (AppendCall k i j b ph)
  then show ?thesis using assms
    by (cases ph) (auto simp: run_thread_def go_simps cluster_updates Let_def split: if_splits intro: keeps_intros)
qed (use assms in \<open>simp add: run_thread_def\<close>)

lemma step_keeps:
  assumes "step a s = Some (Inr s')" and "actor a s = Some i"
  shows "keeps (nodes s v) (nodes s' v)"
proof (cases a)
  case (Run now p)
  then show ?thesis using assms run_keeps by simp
qed (use assms in \<open>auto simp: actor_def cluster_updates Let_def go_simps split: if_splits intro: keeps_intros\<close>)

text \<open>Restarting from stable storage loses nothing: there is no snapshot on it.\<close>

lemma Make_persister: "Make ns i ps t = Inr rf \<Longrightarrow> persister rf = ps \<and> peers rf = ns"
  by (auto simp: Make_def Let_def go_simps readPersist_def split: option.splits if_splits)

lemma snapshot_section:
  assumes "peer_section c rf rf'"
  shows "ReadSnapshot (persister rf') = ReadSnapshot (persister rf)"
proof -
  have k: "ReadSnapshot (persister y) = ReadSnapshot (persister x)" if "keeps x y" for x y
    using that by (simp add: keeps_def)
  show ?thesis using assms by (induction rule: peer_section.induct) (auto intro: k keeps_intros dest!: Make_persister)
qed

lemma no_snapshot: "reachable n s \<Longrightarrow> ReadSnapshot (persister (nodes s v)) = []"
proof (rule peers_invariant [of "\<lambda>rf. ReadSnapshot (persister rf) = []"])
  show "ReadSnapshot (persister (boot n ts v)) = []" for ts v by (simp add: boot_def Make_fresh) (simp add: persister_defs)
qed (simp_all add: snapshot_section)

lemma restart_from_saved: "ReadSnapshot p = [] \<Longrightarrow> restart_from (Some p) = Copy p"
  by (simp add: restart_from_def persister_defs)

end
