(* ===== verification/Raft_Simulation.thy ===== *)
theory Raft_Simulation
  imports Raft_System
begin

text \<open>
  The cluster of theory \<open>Raft_Cluster\<close> describes the whole program of theory \<open>Raft_System\<close>: a forward simulation.

  The cluster delivers the message of a call when the network executes its handler on the peer it is for, and restarts
  a peer when the tester crashes or starts it. A call that has failed in the program may still be under way in the
  cluster, where it is then never answered; a call whose reply the network holds is answered in the cluster already.
\<close>

section \<open>The simulation\<close>

text \<open>
  A request that the network may still execute is a message that the cluster still has to deliver. It leads to the
  peer the message is for, or to an object that is no peer any more.
\<close>

fun awaits :: "thread \<Rightarrow> (nat \<times> rpc_args) option" where
  "awaits (VoteCall e i j (VSent args)) = Some (j, RV args)"
| "awaits (VoteCall e i j (VOrphan args)) = Some (j, RV args)"
| "awaits (AppendCall k i j b (ASent args nx)) = Some (j, AE args)"
| "awaits (AppendCall k i j b (AOrphan args)) = Some (j, AE args)"
| "awaits th = None"

definition meant :: "system \<Rightarrow> nat \<Rightarrow> nat \<Rightarrow> bool" where
  "meant c a j \<longleftrightarrow> a \<in> set (allocated c) \<and> (\<forall>i < cf_n (harness c). address c i = Some a \<longrightarrow> i = j)"

definition aimed :: "system \<Rightarrow> reqMsg \<Rightarrow> nat \<Rightarrow> bool" where
  "aimed c req j \<longleftrightarrow> endname req \<in> set (ends (cf_net (harness c))) \<and>
     connections (cf_net (harness c)) (endname req) = Some (server_name j)"

fun underway :: "system \<Rightarrow> proc \<Rightarrow> nat \<Rightarrow> rpc_args \<Rightarrow> bool" where
  "underway c (Sending req) j m = (req = request_msg (endname req) m \<and> aimed c req j)"
| "underway c (Received req) j m = (req = request_msg (endname req) m \<and> aimed c req j)"
| "underway c (Executing req sn a rel longre) j m = (req = request_msg (endname req) m \<and> sn = server_name j \<and> meant c a j)"
| "underway c (Abandoned req a) j m = (req = request_msg (endname req) m \<and> meant c a j)"
| "underway c pr j m = False"

fun undone :: "proc \<Rightarrow> bool" where
  "undone (Executed req sn a rel longre rep) = False"
| "undone (Answered rep) = False"
| "undone pr = True"

text \<open>The cluster has delivered the message, and the network holds its reply.\<close>

definition got :: "thread \<Rightarrow> thread \<Rightarrow> replyMsg \<Rightarrow> bool" where
  "got th ta rep \<longleftrightarrow> (\<exists>i j m r. calling th = Some (i, j, m) \<and> fits m r \<and>
     rep = \<lparr>rep_ok = True, rep_reply = gob_Encode [] (reply_val r)\<rparr> \<and> ta = replied r th)"

fun waiting :: "system \<Rightarrow> proc \<Rightarrow> thread \<Rightarrow> thread \<Rightarrow> bool" where
  "waiting c (Executed req sn a rel longre rep) th ta =
     (a \<in> set (allocated c) \<and> (servers (cf_net (harness c)) sn = Some a \<longrightarrow> got th ta rep))"
| "waiting c (Answered rep) th ta = (rep_ok rep \<longrightarrow> got th ta rep)"
| "waiting c (Abandoned req a) th ta = True"
| "waiting c pr th ta = (ta = th)"

definition call_rel :: "system \<Rightarrow> proc option \<Rightarrow> thread \<Rightarrow> thread \<Rightarrow> bool" where
  "call_rel c call th ta \<longleftrightarrow>
     (case call of
        None \<Rightarrow> ta = th \<or> runs_on th = None
      | Some pr \<Rightarrow> (calling th \<noteq> None \<or> runs_on th = None) \<and>
          (undone pr \<longrightarrow> (\<exists>j m. j < cf_n (harness c) \<and> awaits ta = Some (j, m) \<and> underway c pr j m)) \<and>
          (calling th \<noteq> None \<longrightarrow> waiting c pr th ta))"

fun stray_ok :: "system \<Rightarrow> proc \<Rightarrow> bool" where
  "stray_ok c (Sending req) = dead_end c (endname req)"
| "stray_ok c (Received req) = dead_end c (endname req)"
| "stray_ok c (Answered rep) = True"
| "stray_ok c pr = False"

text \<open>The harness and the tables of the network fit the peers that run.\<close>

definition wired :: "nat \<Rightarrow> system \<Rightarrow> bool" where
  "wired n c \<longleftrightarrow> cf_n (harness c) = n \<and> link_inv (harness c) \<and>
     (\<forall>i. peer_up c i \<longrightarrow> endnames (harness c) ! i = Some (peers (nodes (peersys c) i)) \<and>
        (\<exists>a \<in> set (allocated c). address c i = Some a)) \<and>
     (\<forall>i < n. \<not> peer_up c i \<longrightarrow> address c i = None \<and> \<not> connected (harness c) ! i) \<and>
     (\<forall>i < n. \<forall>j < n. \<forall>a. address c i = Some a \<longrightarrow> address c j = Some a \<longrightarrow> i = j) \<and>
     (\<forall>q pr. stray_calls c q = Some pr \<longrightarrow> stray_ok c pr)"

definition sys_rel :: "nat \<Rightarrow> system \<Rightarrow> cluster \<Rightarrow> bool" where
  "sys_rel n c s \<longleftrightarrow> wired n c \<and> s = around (nodes s) (threads s) (peersys c) \<and>
     (\<forall>i. peer_up c i \<longrightarrow> nodes s i = nodes (peersys c) i) \<and>
     (\<forall>i < n. \<not> peer_up c i \<longrightarrow> restart_from (saved_state (harness c) ! i) = Copy (persister (nodes s i))) \<and>
     (\<forall>p. call_rel c (in_net c p) (threads (peersys c) p) (threads s p)) \<and>
     (\<forall>p i. runs_on (threads (peersys c) p) = Some i \<longrightarrow> peer_up c i) \<and>
     (\<forall>p. fresh (peersys c) \<le> p \<longrightarrow> in_net c p = None \<and> threads (peersys c) p = Idle)"

lemma deliver_awaits:
  "awaits (threads s p) = Some (j, m) \<Longrightarrow> handle t1 t2 m (nodes s j) = Inr (rf, r) \<Longrightarrow>
    step (Deliver t1 t2 p) s = Some (Inr (set_thread p (replied r (threads s p)) (set_node j rf s)))"
  by (cases "threads s p" rule: awaits.cases) (auto simp: deliver_def go_simps)

lemma awaits_sendable: "awaits th = Some (j, m) \<Longrightarrow> thread_sendable th \<Longrightarrow> sendable_args m"
  by (cases th rule: awaits.cases) auto

lemma calling_awaits: "calling th = Some (i, j, m) \<Longrightarrow> awaits th = Some (j, m) \<and> runs_on th = Some i"
  by (cases th rule: calling.cases) auto

lemma server_name_inject [simp]: "server_name i = server_name j \<longleftrightarrow> i = j"
  by (metis length_replicate server_name_def)

lemma wiredD:
  assumes "wired n c"
  shows "cf_n (harness c) = n" "link_inv (harness c)"
    "peer_up c i \<Longrightarrow> endnames (harness c) ! i = Some (peers (nodes (peersys c) i))"
    "i < n \<Longrightarrow> address c i = Some a \<Longrightarrow> a \<in> set (allocated c)"
    "i < n \<Longrightarrow> address c i = Some a \<Longrightarrow> peer_up c i"
    "i < n \<Longrightarrow> connected (harness c) ! i \<Longrightarrow> peer_up c i"
    "i < n \<Longrightarrow> j < n \<Longrightarrow> address c i = Some a \<Longrightarrow> address c j = Some a \<Longrightarrow> i = j"
    "stray_calls c q = Some pr \<Longrightarrow> stray_ok c pr"
proof -
  show u: "peer_up c i" if "i < n" "address c i = Some a" for i a using assms that unfolding wired_def by fastforce
  show "a \<in> set (allocated c)" if "i < n" "address c i = Some a" for i a
    using assms u [OF that] that(2) unfolding wired_def by fastforce
qed (use assms in \<open>unfold wired_def; blast\<close>)+

lemma ends_length:
  assumes "wired n c" and "peer_up c i"
  shows "length (peers (nodes (peersys c) i)) = n"
  using link_invD(1) [OF wiredD(2) [OF assms(1)]] wiredD(1) [OF assms(1)] wiredD(3) [OF assms] assms(2)
  by (auto simp: sizes_ok_def peer_up_def)

lemma sys_relD:
  assumes "sys_rel n c s"
  shows "wired n c" "s = around (nodes s) (threads s) (peersys c)" "peer_up c i \<Longrightarrow> nodes s i = nodes (peersys c) i"
    "i < n \<Longrightarrow> \<not> peer_up c i \<Longrightarrow> restart_from (saved_state (harness c) ! i) = Copy (persister (nodes s i))"
    "call_rel c (in_net c p) (threads (peersys c) p) (threads s p)"
    "runs_on (threads (peersys c) p) = Some i \<Longrightarrow> peer_up c i"
    "fresh (peersys c) \<le> p \<Longrightarrow> in_net c p = None" "fresh (peersys c) \<le> p \<Longrightarrow> threads (peersys c) p = Idle"
  using assms unfolding sys_rel_def by blast+

text \<open>Parts of the relation that depend on the harness only.\<close>

lemma same_harness:
  assumes "harness c' = harness c"
  shows "peer_up c' = peer_up c" "address c' = address c" "peer_at c' = peer_at c"
  using assms by (simp_all add: peer_up_def address_def peer_at_def fun_eq_iff)

text \<open>Servers are only registered at new addresses, and client ends keep their connection.\<close>

definition net_extends :: "system \<Rightarrow> system \<Rightarrow> bool" where
  "net_extends c c' \<longleftrightarrow> cf_n (harness c') = cf_n (harness c) \<and> set (allocated c) \<subseteq> set (allocated c') \<and>
     set (ends (cf_net (harness c))) \<subseteq> set (ends (cf_net (harness c'))) \<and>
     (\<forall>e \<in> set (ends (cf_net (harness c))). connections (cf_net (harness c')) e = connections (cf_net (harness c)) e) \<and>
     (\<forall>sn a. a \<in> set (allocated c) \<longrightarrow> servers (cf_net (harness c')) sn = Some a \<longrightarrow> servers (cf_net (harness c)) sn = Some a)"

lemma net_extends_same: "harness c' = harness c \<Longrightarrow> allocated c' = allocated c \<Longrightarrow> net_extends c c'"
  by (simp add: net_extends_def)

lemma underway_extends: "net_extends c c' \<Longrightarrow> underway c pr j m \<Longrightarrow> underway c' pr j m"
  by (cases pr) (auto simp: net_extends_def aimed_def meant_def address_def)

lemma waiting_extends: "net_extends c c' \<Longrightarrow> waiting c pr th ta \<Longrightarrow> waiting c' pr th ta"
  by (cases pr) (auto simp: net_extends_def)

lemma call_rel_extends:
  assumes "net_extends c c'" and "call_rel c call th ta"
  shows "call_rel c' call th ta"
proof -
  have "cf_n (harness c') = cf_n (harness c)" using assms(1) by (simp add: net_extends_def)
  then show ?thesis
    using assms(2) underway_extends [OF assms(1)] waiting_extends [OF assms(1)]
    unfolding call_rel_def by (auto split: option.splits)
qed

lemma stray_ok_cong: "dead_end c' = dead_end c \<Longrightarrow> stray_ok c' pr = stray_ok c pr"
  by (cases pr) auto

lemma wired_cong:
  assumes w: "wired n c" and "harness c' = harness c" and "allocated c' = allocated c" and "stray_calls c' = stray_calls c"
    and p: "\<And>i. peer_up c i \<Longrightarrow> peers (nodes (peersys c') i) = peers (nodes (peersys c) i)"
  shows "wired n c'"
proof -
  have "dead_end c' = dead_end c" using assms(2) p by (auto simp: dead_end_def fun_eq_iff same_harness [OF assms(2)])
  then have "stray_ok c' pr = stray_ok c pr" for pr by (rule stray_ok_cong)
  then show ?thesis using w assms(2-4) p by (simp add: wired_def same_harness [OF assms(2)])
qed

section \<open>Every step is answered by the cluster\<close>

definition matched :: "nat \<Rightarrow> cluster \<Rightarrow> bool \<Rightarrow> system \<Rightarrow> bool" where
  "matched n s k c' \<longleftrightarrow> (\<exists>bs s'. exec bs s = Some s' \<and> sys_rel n c' s' \<and> (k \<longrightarrow> calm_run bs s))"

lemma matched_none: "sys_rel n c' s \<Longrightarrow> matched n s k c'"
  unfolding matched_def by (intro exI [of _ "[]"] exI [of _ s]) simp

lemma matched_one: "step b s = Some (Inr s') \<Longrightarrow> (k \<Longrightarrow> calm b s) \<Longrightarrow> sys_rel n c' s' \<Longrightarrow> matched n s k c'"
  unfolding matched_def by (intro exI [of _ "[b]"] exI [of _ s']) simp

lemma answer_peer:
  assumes R: "sys_rel n c s" and st: "sys_step (Peer b) c = Some (Inr c')"
  shows "matched n s (calm b (peersys c)) c'"
proof -
  note D = sys_relD [OF R]
  obtain s1 where s1: "step b (peersys c) = Some (Inr s1)" "c' = c\<lparr>peersys := s1\<rparr>" "peer_ready b c"
    using st by (auto simp: go_simps split: if_splits)
  have run: "runs_on (threads (peersys c) p) \<noteq> None \<and> calling (threads (peersys c) p) = None" if "b = Run now p" for now p
    using s1(1) that by (auto elim: run_local)
  obtain i where i: "actor b (peersys c) = Some i" "peer_up c i"
    using s1(3) run D(6) by (cases b) (auto simp: actor_def)
  have tp: "threads s p = threads (peersys c) p" "in_net c p = None" "p < fresh (peersys c)" if "b = Run now p" for now p
    using run [OF that] D(5) [of p] D(8) [of p] by (cases "p < fresh (peersys c)"; auto simp: call_rel_def split: option.splits)+
  let ?t = "touched b (peersys c) s1"
  let ?s = "around ((nodes s)(i := nodes s1 i)) (\<lambda>q. if ?t q then threads s1 q else threads s q) s1"
  have "step b (around (nodes s) (threads s) (peersys c)) = Some (Inr ?s)"
    by (rule step_local(2) [OF s1(1) i(1)]) (use D(3) [OF i(2)] tp in auto)
  then have "step b s = Some (Inr ?s)" using D(2) by simp
  moreover have "calm b s" if "calm b (peersys c)"
    using calm_around [OF i(1), of "nodes s" "threads s"] D(2) D(3) [OF i(2)] tp that by simp
  moreover have "sys_rel n c' ?s"
  proof -
    note L = local_atD [OF step_local(1) [OF s1(1) i(1)]]
    have new: "in_net c q = None" if "?t q" for q
      using that tp D(7) [of q] by (auto simp: touched_def split: action.splits)
    have old: "fresh s1 \<le> q \<Longrightarrow> \<not> ?t q" for q using tp L(2) by (auto simp: touched_def split: action.splits)
    have up: "peer_up c' = peer_up c" by (rule same_harness(1)) (simp add: s1(2))
    have "wired n c'" by (rule wired_cong [OF D(1)]) (use s1(2) step_keeps [OF s1(1) i(1)] in \<open>auto simp: keeps_def\<close>)
    moreover have "call_rel c' (in_net c q) (threads s1 q) (if ?t q then threads s1 q else threads s q)" for q
    proof (cases "?t q")
      case True
      then show ?thesis using new [OF True] by (simp add: call_rel_def)
    next
      case False
      then show ?thesis using L(4) [OF False] call_rel_extends [OF net_extends_same D(5) [of q], of c'] s1(2) by simp
    qed
    moreover have "peer_up c k" if "runs_on (threads s1 q) = Some k" for q k
      using that L(4,5) [of q] D(6) [of q k] i(2) by (cases "?t q") auto
    moreover have "in_net c q = None \<and> threads s1 q = Idle" if "fresh s1 \<le> q" for q
      using L(2) L(4) [OF old [OF that]] D(7,8) [of q] that by simp
    ultimately show ?thesis
      using s1(2) D(3,4) L(3) i(2) unfolding sys_rel_def up by (auto simp: around_def)
  qed
  ultimately show ?thesis by (rule matched_one)
qed

text \<open>Changes that leave the relation as it is.\<close>

lemma sys_rel_cong:
  assumes R: "sys_rel n c s" and h: "harness c' = harness c" and e: "allocated c' = allocated c" "stray_calls c' = stray_calls c"
    "peersys c' = peersys c" "in_net c' = in_net c"
  shows "sys_rel n c' s"
proof -
  note D = sys_relD [OF R]
  have "wired n c'" by (rule wired_cong [OF D(1) h e(1,2)]) (simp add: e)
  moreover have "call_rel c' call th ta = call_rel c call th ta" for call th ta
    using call_rel_extends [OF net_extends_same [OF h e(1)]] call_rel_extends [OF net_extends_same [OF h [symmetric] e(1) [symmetric]]]
    by blast
  ultimately show ?thesis using D unfolding sys_rel_def same_harness(1) [OF h] e h by blast
qed

lemma sys_rel_net:
  assumes R: "sys_rel n c s" and h: "c' = c\<lparr>harness := (harness c)\<lparr>cf_net := r\<rparr>\<rparr>"
    and r: "ends r = ends (cf_net (harness c))" "enabled r = enabled (cf_net (harness c))"
      "servers r = servers (cf_net (harness c))" "connections r = connections (cf_net (harness c))"
  shows "sys_rel n c' s"
proof -
  note D = sys_relD [OF R]
  have eq: "peer_up c' = peer_up c" "address c' = address c" "dead_end c' = dead_end c"
    using h r by (auto simp: peer_up_def address_def dead_end_def fun_eq_iff)
  have "link_inv (harness c') = link_inv (harness c)" by (rule link_inv_cong) (use h r in simp_all)
  then have "wired n c'"
    using D(1) h eq stray_ok_cong [OF eq(3)] by (simp add: wired_def)
  moreover have "net_extends c c'" using h r by (simp add: net_extends_def)
  then have "call_rel c' call th ta" if "call_rel c call th ta" for call th ta using call_rel_extends that by blast
  ultimately show ?thesis using D h unfolding sys_rel_def eq by simp
qed

lemma around_updates:
  assumes "s = around (nodes s) (threads s) q"
  shows "set_thread p ta s = around (nodes s) ((threads s)(p := ta)) (set_thread p th q)"
    "set_node j rf s = around ((nodes s)(j := rf)) (threads s) (set_node j rf' q)"
proof -
  have "set_thread p ta s = set_thread p ta (around (nodes s) (threads s) q)" by (rule arg_cong [OF assms])
  then show "set_thread p ta s = around (nodes s) ((threads s)(p := ta)) (set_thread p th q)"
    by (simp add: around_def set_thread_def)
  have "set_node j rf s = set_node j rf (around (nodes s) (threads s) q)" by (rule arg_cong [OF assms])
  then show "set_node j rf s = around ((nodes s)(j := rf)) (threads s) (set_node j rf' q)"
    by (simp add: around_def set_node_def)
qed

lemma cluster_sel [simp]:
  "nodes (set_thread p th s) = nodes s" "threads (set_thread p th s) = (threads s)(p := th)"
  "fresh (set_thread p th s) = fresh s"
  "nodes (set_node j rf s) = (nodes s)(j := rf)" "threads (set_node j rf s) = threads s" "fresh (set_node j rf s) = fresh s"
  "nodes (around N T s) = N" "threads (around N T s) = T"
  by (simp_all add: set_thread_def set_node_def around_def)

text \<open>A call of goroutine \<open>p\<close> gets further.\<close>

lemma sys_rel_call:
  assumes R: "sys_rel n c s" and call: "call_rel c call th ta" and p: "p < fresh (peersys c)"
    and r: "\<And>i. runs_on th = Some i \<Longrightarrow> peer_up c i"
  shows "sys_rel n (c\<lparr>peersys := set_thread p th (peersys c), in_net := (in_net c)(p := call)\<rparr>) (set_thread p ta s)"
    (is "sys_rel n ?c ?s")
proof -
  note D = sys_relD [OF R]
  have h: "harness ?c = harness c" "allocated ?c = allocated c" "stray_calls ?c = stray_calls c" by simp_all
  have "wired n ?c" by (rule wired_cong [OF D(1) h]) (simp add: set_thread_def)
  moreover note same_harness [OF h(1)]
  moreover have "call_rel ?c cl t t'" if "call_rel c cl t t'" for cl t t' by (rule call_rel_extends [OF net_extends_same that]) simp_all
  ultimately show ?thesis
    using D(3-8) around_updates(1) [OF D(2), of p ta th] call p r by (simp add: sys_rel_def)
qed

lemma sys_rel_call_only:
  assumes "sys_rel n c s" and "call_rel c call (threads (peersys c) p) (threads s p)" and "p < fresh (peersys c)"
  shows "sys_rel n (c\<lparr>in_net := (in_net c)(p := call)\<rparr>) s"
  using sys_rel_call [OF assms sys_relD(6) [OF assms(1)]] by (simp add: set_thread_def)

text \<open>A handler has run on a peer.\<close>

lemma sys_rel_node:
  assumes R: "sys_rel n c s" and j: "peer_up c j" and k: "keeps (nodes (peersys c) j) rf"
  shows "sys_rel n (c\<lparr>peersys := set_node j rf (peersys c)\<rparr>) (set_node j rf s)" (is "sys_rel n ?c ?s")
proof -
  note D = sys_relD [OF R]
  have h: "harness ?c = harness c" "allocated ?c = allocated c" "stray_calls ?c = stray_calls c" by simp_all
  have "wired n ?c" by (rule wired_cong [OF D(1) h]) (use k in \<open>simp add: set_node_def keeps_def\<close>)
  moreover note same_harness [OF h(1)]
  moreover have "call_rel ?c cl t t'" if "call_rel c cl t t'" for cl t t' by (rule call_rel_extends [OF net_extends_same that]) simp_all
  ultimately show ?thesis
    using D(3-8) around_updates(2) [OF D(2), of j rf rf] j by (simp add: sys_rel_def)
qed

lemma call_fresh:
  assumes "sys_rel n c s" and "in_net c p = Some pr \<or> calling (threads (peersys c) p) \<noteq> None"
  shows "p < fresh (peersys c)"
proof (rule ccontr)
  assume "\<not> p < fresh (peersys c)"
  then have "in_net c p = None" "threads (peersys c) p = Idle" using sys_relD(7,8) [OF assms(1)] by simp_all
  then show False using assms(2) by simp
qed

text \<open>Issuing a call.\<close>

lemma answer_issue:
  assumes R: "sys_rel n c s" and st: "sys_step (Issue p) c = Some (Inr c')"
  shows "matched n s k c'"
proof -
  note D = sys_relD [OF R]
  let ?th = "threads (peersys c) p"
  obtain i j m req where cl: "calling ?th = Some (i, j, m)" "in_net c p = None" "send j m (nodes (peersys c) i) = Inr req"
      "c' = c\<lparr>in_net := (in_net c)(p := Some (Sending req))\<rparr>"
    using st by (auto simp: issue_def go_simps split: option.splits)
  have a: "awaits ?th = Some (j, m)" and i: "peer_up c i" using calling_awaits [OF cl(1)] D(6) by blast+
  have ta: "threads s p = ?th" using D(5) [of p] cl(1,2) calling_awaits [OF cl(1)] by (simp add: call_rel_def)
  let ?cfg = "harness c"
  have e: "endnames ?cfg ! i = Some (peers (nodes (peersys c) i))" by (rule wiredD(3) [OF D(1) i])
  have n: "cf_n ?cfg = n" "i < n" using wiredD(1) [OF D(1)] i by (auto simp: peer_up_def)
  have "length (peers (nodes (peersys c) i)) = n" by (rule ends_length [OF D(1) i])
  moreover have "j < length (peers (nodes (peersys c) i)) \<and> req = request_msg (peers (nodes (peersys c) i) ! j) m"
  proof -
    have "j < length (peers (nodes (peersys c) i))"
      using cl(3) by (cases m) (auto simp: sendRequestVote_def sendAppendEntries_def go_simps)
    then show ?thesis using cl(3) send_eq by simp
  qed
  ultimately have j: "j < n" "req = request_msg (end_of ?cfg i j) m" "has_ends ?cfg i"
    using e by (simp_all add: end_of_def has_ends_def)
  have "aimed c req j" using link_invD(3,4) [OF wiredD(2) [OF D(1)]] n j by (simp add: aimed_def)
  then have "call_rel c (Some (Sending req)) ?th (threads s p)"
    using ta a cl(1) j n by (auto simp: call_rel_def)
  then show ?thesis unfolding cl(4) by (intro matched_none sys_rel_call_only [OF R _ call_fresh [OF R]]) (use cl(1) in auto)
qed

text \<open>Taking the answer of a call.\<close>

lemma replied_runs: "calling th = Some (i, j, m) \<Longrightarrow> fits m r \<Longrightarrow> runs_on (replied r th) = Some i"
  by (cases th rule: calling.cases; cases r) auto

lemma unanswered_ends: "calling th \<noteq> None \<Longrightarrow> runs_on (unanswered th) = None \<and> calling (unanswered th) = None"
  by (cases th rule: calling.cases) auto

lemma answer_return:
  assumes R: "sys_rel n c s" and st: "sys_step (Return p) c = Some (Inr c')"
  shows "matched n s k c'"
proof -
  note D = sys_relD [OF R]
  let ?th = "threads (peersys c) p"
  obtain i j m where cl: "calling ?th = Some (i, j, m)" using st by (auto simp: returns_def Let_def split: option.splits)
  have p: "p < fresh (peersys c)" using call_fresh [OF R] cl by auto
  have same: "set_thread p (threads s p) s = s" by (simp add: set_thread_def)
  have f: "runs_on (unanswered ?th) = None" "calling (unanswered ?th) = None" using unanswered_ends [of ?th] cl by auto
  have none: "matched n s k (c\<lparr>peersys := set_thread p th (peersys c), in_net := (in_net c)(p := call)\<rparr>)"
    if "call_rel c call th (threads s p)" "\<And>i. runs_on th = Some i \<Longrightarrow> peer_up c i" for call th
    using sys_rel_call [OF R that(1) p that(2)] unfolding same by (intro matched_none) simp
  show ?thesis
  proof (cases "\<exists>req a. in_net c p = Some (Abandoned req a)")
    case True
    then obtain req a where ab: "in_net c p = Some (Abandoned req a)" by blast
    then have c': "c' = c\<lparr>peersys := set_thread p (unanswered ?th) (peersys c), in_net := (in_net c)(p := Some (Abandoned req a))\<rparr>"
      using st cl by (auto simp: returns_def Let_def fun_upd_idem)
    have "call_rel c (Some (Abandoned req a)) (unanswered ?th) (threads s p)"
      using D(5) [of p] ab f by (simp add: call_rel_def)
    then show ?thesis unfolding c' by (rule none) (use f in simp)
  next
    case False
    then obtain rep r where rep: "in_net c p = Some (Answered rep)" "Call_reply m rep = Inr r"
        "c' = c\<lparr>peersys := set_thread p (case r of Some r \<Rightarrow> replied r ?th | None \<Rightarrow> unanswered ?th) (peersys c),
               in_net := (in_net c)(p := None)\<rparr>"
      using st cl by (auto simp: returns_def Let_def go_simps split: option.splits proc.splits)
    show ?thesis
    proof (cases "rep_ok rep")
      case True
      then obtain r' where g: "fits m r'" "rep = \<lparr>rep_ok = True, rep_reply = gob_Encode [] (reply_val r')\<rparr>" "threads s p = replied r' ?th"
        using D(5) [of p] rep(1) cl by (auto simp: call_rel_def got_def)
      have "r = Some r'" using rep(2) Call_reply_ok [OF g(1)] g(2) by simp
      then show ?thesis unfolding rep(3)
        using g(3) replied_runs [OF cl g(1)] D(6) [of p] calling_awaits [OF cl] by (intro none) (simp_all add: call_rel_def)
    next
      case False
      then have "r = None" using rep(2) Call_reply_none by simp
      then show ?thesis unfolding rep(3) using f by (intro none) (simp_all add: call_rel_def)
    qed
  qed
qed

section \<open>Requests in the network\<close>

lemma peer_at_Some:
  assumes "peer_at c a = Some i"
  shows "i < cf_n (harness c)" "address c i = Some a"
  using assms by (auto simp: peer_at_def find_Some_iff)

lemma peer_at_None: "peer_at c a = None \<Longrightarrow> i < cf_n (harness c) \<Longrightarrow> address c i \<noteq> Some a"
  by (auto simp: peer_at_def find_None_iff)

lemma raft_server_sel [simp]: "receiver (raft_server t1 t2 k rf) = rf" "srv_count (raft_server t1 t2 k rf) = k"
  by (simp_all add: receiver_def raft_server_def AddService_def MakeService_def MakeServer_def Let_def)

lemma execute_raft:
  assumes "sendable_args m" and "execute (request_msg e m) a (lab_view t1 t2 c) = Inr (w, rep)"
  obtains rf r where "handle t1 t2 m (object_at c a) = Inr (rf, r)"
    "rep = \<lparr>rep_ok = True, rep_reply = gob_Encode [] (reply_val r)\<rparr>" "net w = cf_net (harness c)"
    "heap w a = raft_server t1 t2 (served c a + 1) rf"
  using assms(2) by (auto simp: execute_def lab_view_def raft_dispatch [OF assms(1)] go_simps)

lemma unchanged_net: "c\<lparr>harness := (harness c)\<lparr>cf_net := cf_net (harness c)\<rparr>\<rparr> = c"
  by simp

text \<open>A handler runs: on the peer that the message is for, or on an object that has been retired.\<close>

lemma answer_execute:
  assumes R: "sys_rel n c s" and rs: "reachable n s" and pr: "in_net c p = Some pr" "executes_at PExecute pr = Some a"
    and aw: "awaits (threads s p) = Some (j, m)" and mt: "meant c a j"
    and ex: "execute (request_msg e m) a (lab_view t1 t2 c) = Inr (w, rep)"
    and now: "\<And>r. fits m r \<Longrightarrow> rep = \<lparr>rep_ok = True, rep_reply = gob_Encode [] (reply_val r)\<rparr> \<Longrightarrow>
      call_rel c (Some pr') (threads (peersys c) p) (replied r (threads s p))"
    and gone: "peer_at c a = None \<Longrightarrow> call_rel c (Some pr') (threads (peersys c) p) (threads s p)"
  shows "matched n s k ((lab_update PExecute pr w c)\<lparr>in_net := (in_net c)(p \<mapsto> pr')\<rparr>)"
proof -
  note D = sys_relD [OF R]
  have p: "p < fresh (peersys c)" by (rule call_fresh [OF R]) (use pr in blast)
  have "sendable_args m" by (rule awaits_sendable [OF aw data_invD(2) [OF data_inv_reachable [OF rs]]])
  then obtain rf r where h: "handle t1 t2 m (object_at c a) = Inr (rf, r)" "net w = cf_net (harness c)"
      "rep = \<lparr>rep_ok = True, rep_reply = gob_Encode [] (reply_val r)\<rparr>" "heap w a = raft_server t1 t2 (served c a + 1) rf"
    using ex by (rule execute_raft)
  have u: "lab_update PExecute pr w c = put_server a (raft_server t1 t2 (served c a + 1) rf) c"
    using pr(2) h(2,4) by (simp add: lab_update_def)
  show ?thesis
  proof (cases "peer_at c a")
    case None
    let ?c = "c\<lparr>in_net := (in_net c)(p \<mapsto> pr')\<rparr>"
    have "sys_rel n ?c s" by (rule sys_rel_call_only [OF R gone [OF None] p])
    from sys_rel_cong [OF this] show ?thesis unfolding u
      by (intro matched_none) (use None in \<open>auto simp: put_server_def\<close>)
  next
    case (Some i)
    have i: "i < n" "address c i = Some a" "i = j"
      using peer_at_Some [OF Some] wiredD(1) [OF D(1)] mt by (auto simp: meant_def)
    then have up: "peer_up c j" using wiredD(5) [OF D(1)] by blast
    have obj: "object_at c a = nodes s j" using Some i(3) D(3) [OF up] by (simp add: object_at_def)
    let ?c = "c\<lparr>peersys := set_node j rf (peersys c)\<rparr>"
    have R1: "sys_rel n ?c (set_node j rf s)"
      by (rule sys_rel_node [OF R up handle_keeps]) (use h(1) obj D(3) [OF up] in simp)
    have "call_rel ?c (Some pr') (threads (peersys c) p) (replied r (threads s p))"
      by (rule call_rel_extends [OF net_extends_same now [OF handle_fits [OF h(1)] h(3)]]) simp_all
    then have "sys_rel n (?c\<lparr>peersys := set_thread p (threads (peersys c) p) (peersys ?c), in_net := (in_net ?c)(p := Some pr')\<rparr>)
        (set_thread p (replied r (threads s p)) (set_node j rf s))"
      by (rule sys_rel_call [OF R1]) (use p D(6) same_harness(1) [of ?c c] in auto)
    moreover have "set_thread p (threads (peersys c) p) (peersys ?c) = peersys ?c" by (simp add: set_thread_def set_node_def)
    ultimately have R2: "sys_rel n (?c\<lparr>in_net := (in_net ?c)(p := Some pr')\<rparr>) (set_thread p (replied r (threads s p)) (set_node j rf s))"
      by simp
    have "sys_rel n ((lab_update PExecute pr w c)\<lparr>in_net := (in_net c)(p \<mapsto> pr')\<rparr>) (set_thread p (replied r (threads s p)) (set_node j rf s))"
      unfolding u by (rule sys_rel_cong [OF R2]) (use Some i(3) in \<open>auto simp: put_server_def\<close>)
    then show ?thesis
      by (intro matched_one [OF deliver_awaits [OF aw h(1) [unfolded obj]]]) (simp_all add: calm_def)
  qed
qed

lemma call_relD:
  assumes "call_rel c (Some pr) th ta"
  shows "calling th \<noteq> None \<Longrightarrow> waiting c pr th ta" "calling th = None \<Longrightarrow> runs_on th = None"
    "undone pr \<Longrightarrow> \<exists>j m. j < cf_n (harness c) \<and> awaits ta = Some (j, m) \<and> underway c pr j m"
  using assms by (auto simp: call_rel_def)

lemma call_relI:
  assumes "call_rel c (Some pr) th ta" and "undone pr' \<Longrightarrow> \<exists>j m. j < cf_n (harness c) \<and> awaits ta' = Some (j, m) \<and> underway c pr' j m"
    and "\<And>i j m. calling th = Some (i, j, m) \<Longrightarrow> waiting c pr' th ta'"
  shows "call_rel c (Some pr') th ta'"
  using assms by (auto simp: call_rel_def)

lemma got_reply:
  assumes "calling th = Some x" and "awaits th = Some (j, m)" and "fits m r"
  shows "got th (replied r th) \<lparr>rep_ok = True, rep_reply = gob_Encode [] (reply_val r)\<rparr>"
  using assms calling_awaits [of th] by (cases x) (auto simp: got_def)

text \<open>Reading the tables: the server found is the one of the peer the message is for.\<close>

lemma read_underway:
  assumes w: "wired n c" and u: "underway c (Received req) j m" and j: "j < n"
  shows "undone (proc_read rnd req (cf_net (harness c))) \<Longrightarrow> underway c (proc_read rnd req (cf_net (harness c))) j m"
    "waiting c (Received req) th ta \<Longrightarrow> waiting c (proc_read rnd req (cf_net (harness c))) th ta"
proof -
  consider sn a rel longre where "proc_read rnd req (cf_net (harness c)) = Executing req sn a rel longre"
      "connections (cf_net (harness c)) (endname req) = Some sn" "servers (cf_net (harness c)) sn = Some a"
    | "proc_read rnd req (cf_net (harness c)) = Answered no_reply"
    using proc_read_cases [of rnd req "cf_net (harness c)"] by blast
  note cases = this
  show "undone (proc_read rnd req (cf_net (harness c))) \<Longrightarrow> underway c (proc_read rnd req (cf_net (harness c))) j m"
  proof (cases rule: cases)
    case 1
    then have "sn = server_name j" "address c j = Some a" using u by (auto simp: aimed_def address_def)
    then show ?thesis using 1(1) u wiredD(1,4,7) [OF w] j by (auto simp: meant_def)
  qed simp
  show "waiting c (Received req) th ta \<Longrightarrow> waiting c (proc_read rnd req (cf_net (harness c))) th ta"
    by (cases rule: cases) auto
qed

text \<open>The handler of a request whose caller has not been told anything yet.\<close>

lemma answer_executing:
  assumes R: "sys_rel n c s" and rs: "reachable n s" and pr: "in_net c p = Some (Executing req sn a rel longre)"
    and ex: "execute req a (lab_view t1 t2 c) = Inr (w, rep)"
  shows "matched n s k ((lab_update PExecute (Executing req sn a rel longre) w c)
    \<lparr>in_net := (in_net c)(p \<mapsto> Executed req sn a rel longre rep)\<rparr>)"
proof -
  have n: "cf_n (harness c) = n" by (rule wiredD(1) [OF sys_relD(1) [OF R]])
  have cr: "call_rel c (Some (Executing req sn a rel longre)) (threads (peersys c) p) (threads s p)"
    using sys_relD(5) [OF R, of p] pr by simp
  obtain j m where j: "j < n" "awaits (threads s p) = Some (j, m)" "req = request_msg (endname req) m" "sn = server_name j" "meant c a j"
    using call_relD(3) [OF cr] n by auto
  show ?thesis
  proof (rule answer_execute [OF R rs pr _ j(2,5)])
    show "execute (request_msg (endname req) m) a (lab_view t1 t2 c) = Inr (w, rep)" using ex j(3) by simp
    show "call_rel c (Some (Executed req sn a rel longre rep)) (threads (peersys c) p) (replied r (threads s p))"
      if "fits m r" "rep = \<lparr>rep_ok = True, rep_reply = gob_Encode [] (reply_val r)\<rparr>" for r
      by (rule call_relI [OF cr]) (use that call_relD(1) [OF cr] j(2,5) got_reply in \<open>auto simp: meant_def\<close>)
    show "call_rel c (Some (Executed req sn a rel longre rep)) (threads (peersys c) p) (threads s p)" if "peer_at c a = None"
    proof (rule call_relI [OF cr])
      have "servers (cf_net (harness c)) sn \<noteq> Some a" using peer_at_None [OF that, of j] j(1,4) n by (simp add: address_def)
      moreover have "a \<in> set (allocated c)" using j(5) by (simp add: meant_def)
      ultimately show "waiting c (Executed req sn a rel longre rep) (threads (peersys c) p) (threads s p)" by simp
    qed simp
  qed simp
qed

lemma answer_network:
  assumes R: "sys_rel n c s" and rs: "reachable n s" and st: "sys_step (Network_step t1 t2 p x) c = Some (Inr c')"
  shows "matched n s k c'"
proof -
  note D = sys_relD [OF R]
  obtain pr pr' w where pr: "in_net c p = Some pr" "proc_step x pr (lab_view t1 t2 c) = Some (Inr (pr', w))"
      "c' = (lab_update x pr w c)\<lparr>in_net := (in_net c)(p \<mapsto> pr')\<rparr>"
    using st by (auto simp: network_step_def go_simps split: option.splits)
  have p: "p < fresh (peersys c)" by (rule call_fresh [OF R]) (use pr(1) in blast)
  have rel: "call_rel c (Some pr) (threads (peersys c) p) (threads s p)" using D(5) [of p] pr(1) by simp
  note rel' = call_relD [OF rel]
  have n: "cf_n (harness c) = n" by (rule wiredD(1) [OF D(1)])
  have same: "matched n s k (c\<lparr>in_net := (in_net c)(p \<mapsto> q)\<rparr>)" if "call_rel c (Some q) (threads (peersys c) p) (threads s p)" for q
    by (rule matched_none [OF sys_rel_call_only [OF R that p]])
  show ?thesis using pr(2)
  proof (cases rule: proc_step_cases)
    case (send req)
    let ?c = "c\<lparr>harness := (harness c)\<lparr>cf_net := count_request (cf_net (harness c))\<rparr>\<rparr>"
    have "call_rel c (Some (Received req)) (threads (peersys c) p) (threads s p)"
      by (rule call_relI [OF rel]) (use rel' send in auto)
    then have "call_rel ?c (Some (Received req)) (threads (peersys c) p) (threads s p)"
      by (rule call_rel_extends [rotated]) (simp add: net_extends_def count_request_def)
    moreover have "sys_rel n ?c s" by (rule sys_rel_net [OF R refl]) (simp_all add: count_request_def)
    ultimately have "sys_rel n (?c\<lparr>in_net := (in_net ?c)(p \<mapsto> Received req)\<rparr>) s"
      using p by (intro sys_rel_call_only) simp_all
    then show ?thesis using pr(3) send by (intro matched_none) (simp add: lab_update_def lab_view_def)
  next
    case (cancel req)
    have "call_rel c (Some pr') (threads (peersys c) p) (threads s p)" by (rule call_relI [OF rel]) (use cancel in auto)
    from same [OF this] show ?thesis using pr(3) cancel by (simp add: lab_update_def lab_view_def)
  next
    case (read rnd req)
    obtain j m where j: "j < n" "awaits (threads s p) = Some (j, m)" "underway c (Received req) j m" using rel'(3) read n by auto
    note u = read_underway [OF D(1) j(3,1)]
    have "call_rel c (Some (proc_read rnd req (cf_net (harness c)))) (threads (peersys c) p) (threads s p)"
      by (rule call_relI [OF rel]) (use u j(1,2) n rel'(1) read in auto)
    from same [OF this] show ?thesis using pr(3) read by (simp add: lab_update_def lab_view_def)
  next
    case (execute req sn a rel longre rep)
    then show ?thesis unfolding pr(3) using answer_executing [OF R rs, of p req sn a rel longre t1 t2 w rep] pr(1) by simp
  next
    case (drain req a rep)
    obtain j m where j: "j < n" "awaits (threads s p) = Some (j, m)" "req = request_msg (endname req) m" "meant c a j"
      using rel'(3) drain n by auto
    have "call_rel c (Some pr') (threads (peersys c) p) ta" for ta by (rule call_relI [OF rel]) (use drain in auto)
    then show ?thesis unfolding pr(3) drain(1)
      using answer_execute [OF R rs pr(1) _ j(2,4), of "endname req" t1 t2 w rep pr'] drain j(3) by simp
  next
    case (dead req sn a rel longre)
    have "call_rel c (Some pr') (threads (peersys c) p) (threads s p)"
      by (rule call_relI [OF rel]) (use rel'(3) dead in auto)
    from same [OF this] show ?thesis using pr(3) dead by (simp add: lab_update_def lab_view_def)
  next
    case (reply rnd req sn a rel longre rep)
    have "call_rel c (Some (proc_reply rnd req sn a rel rep (cf_net (harness c)))) (threads (peersys c) p) (threads s p)"
      by (rule call_relI [OF rel]) (use rel'(1) reply(2) in \<open>auto simp: proc_reply_def IsServerDead_def split: if_splits\<close>)
    from same [OF this] show ?thesis using pr(3) reply by (simp add: lab_update_def lab_view_def)
  qed
qed

section \<open>Requests of crashed instances\<close>

lemma dead_not_enabled:
  assumes w: "wired n c" and d: "dead_end c e"
  shows "\<not> enabled (cf_net (harness c)) e"
proof
  assume "enabled (cf_net (harness c)) e"
  then obtain i j where ij: "i < n" "j < n" "connected (harness c) ! i" "e = end_of (harness c) i j"
    using link_invD(6) [OF wiredD(2) [OF w]] wiredD(1) [OF w] by auto
  then have up: "peer_up c i" using wiredD(6) [OF w] by blast
  have e: "endnames (harness c) ! i = Some (peers (nodes (peersys c) i))" by (rule wiredD(3) [OF w up])
  then have "e \<in> set (peers (nodes (peersys c) i))" using ij ends_length [OF w up] by (simp add: end_of_def)
  then show False using d up ij(1) wiredD(1) [OF w] by (auto simp: dead_end_def)
qed

lemma sys_rel_stray:
  assumes R: "sys_rel n c s" and ok: "stray_ok c pr"
  shows "sys_rel n (c\<lparr>stray_calls := (stray_calls c)(q \<mapsto> pr)\<rparr>) s" (is "sys_rel n ?c s")
proof -
  note D = sys_relD [OF R]
  have eq: "peer_up ?c = peer_up c" "address ?c = address c" "dead_end ?c = dead_end c"
    by (simp_all add: same_harness [of ?c c] dead_end_def fun_eq_iff)
  have "wired n ?c" using D(1) ok unfolding wired_def eq by (auto simp: stray_ok_cong [OF eq(3)])
  moreover have "call_rel ?c call th ta" if "call_rel c call th ta" for call th ta
    by (rule call_rel_extends [OF net_extends_same that]) simp_all
  ultimately show ?thesis using D unfolding sys_rel_def eq by simp
qed

lemma answer_stray_send:
  assumes "sys_rel n c s" and "sys_step (Stray_send q req) c = Some (Inr c')"
  shows "matched n s k c'"
  using assms by (auto simp: stray_send_def split: if_splits intro!: matched_none sys_rel_stray)

lemma answer_stray:
  assumes R: "sys_rel n c s" and st: "sys_step (Stray_step t1 t2 q x) c = Some (Inr c')"
  shows "matched n s k c'"
proof -
  note D = sys_relD [OF R]
  obtain pr pr' w where pr: "stray_calls c q = Some pr" "proc_step x pr (lab_view t1 t2 c) = Some (Inr (pr', w))"
      "c' = (lab_update x pr w c)\<lparr>stray_calls := (stray_calls c)(q \<mapsto> pr')\<rparr>"
    using st by (auto simp: stray_step_def go_simps split: option.splits)
  have ok: "stray_ok c pr" by (rule wiredD(8) [OF D(1) pr(1)])
  have same: "matched n s k c'" if "stray_ok c pr'" "lab_update x pr w c = c"
    using sys_rel_stray [OF R that(1)] that(2) pr(3) by (intro matched_none) simp
  show ?thesis using pr(2)
  proof (cases rule: proc_step_cases)
    case (send req)
    let ?c = "c\<lparr>harness := (harness c)\<lparr>cf_net := count_request (cf_net (harness c))\<rparr>\<rparr>"
    have "sys_rel n ?c s" by (rule sys_rel_net [OF R refl]) (simp_all add: count_request_def)
    moreover have "stray_ok ?c (Received req)" using ok send by (auto simp: dead_end_def peer_up_def count_request_def)
    ultimately have "sys_rel n (?c\<lparr>stray_calls := (stray_calls ?c)(q \<mapsto> Received req)\<rparr>) s" by (rule sys_rel_stray)
    then show ?thesis using pr(3) send by (intro matched_none) (simp add: lab_update_def lab_view_def)
  next
    case (cancel req)
    then show ?thesis by (intro same) (simp_all add: lab_update_def lab_view_def)
  next
    case (read rnd req)
    then have "\<not> enabled (cf_net (harness c)) (endname req)" using dead_not_enabled [OF D(1)] ok by simp
    then have "pr' = Answered no_reply" using read proc_read_cases [of rnd req "cf_net (harness c)"] by (auto simp: lab_view_def)
    then show ?thesis using read by (intro same) (simp_all add: lab_update_def lab_view_def)
  qed (use ok in simp_all)
qed

section \<open>The tester\<close>

lemma kill_facts:
  "runs_on (kill_thread i th) = (if runs_on th = Some i then None else runs_on th)"
  "runs_on th = Some k \<Longrightarrow> k \<noteq> i \<Longrightarrow> kill_thread i th = th"
  "awaits (kill_thread i th) = awaits th"
proof -
  show "runs_on (kill_thread i th) = (if runs_on th = Some i then None else runs_on th)"
    by (cases th) (auto split: vphase.splits aphase.splits)
  show "runs_on th = Some k \<Longrightarrow> k \<noteq> i \<Longrightarrow> kill_thread i th = th"
    by (cases th) (auto split: vphase.splits aphase.splits)
  show "awaits (kill_thread i th) = awaits th"
    by (cases th rule: awaits.cases) auto
qed

lemma waiting_kill:
  assumes "waiting c pr th ta" and "calling th = Some (k, j, m)" and "k \<noteq> i"
  shows "waiting c pr th (kill_thread i ta)"
proof -
  have t: "kill_thread i th = th" by (rule kill_facts(2)) (use calling_awaits [OF assms(2)] assms(3) in auto)
  have "got th (kill_thread i ta) rep" if g: "got th ta rep" for rep
  proof -
    obtain r where r: "fits m r" "rep = \<lparr>rep_ok = True, rep_reply = gob_Encode [] (reply_val r)\<rparr>" "ta = replied r th"
      using g assms(2) by (auto simp: got_def)
    have "kill_thread i ta = ta" unfolding r(3) by (rule kill_facts(2) [OF replied_runs [OF assms(2) r(1)] assms(3)])
    then show ?thesis using g by simp
  qed
  then show ?thesis using assms(1) t by (cases pr) auto
qed

lemma call_rel_kill:
  assumes "call_rel c call th ta"
  shows "call_rel c call (kill_thread i th) (kill_thread i ta)"
proof (cases call)
  case None
  then show ?thesis using assms by (auto simp: call_rel_def kill_facts(1))
next
  case (Some pr)
  note rel = call_relD [OF assms [unfolded Some]]
  show ?thesis
  proof (cases "calling (kill_thread i th)")
    case None
    have "runs_on (kill_thread i th) = None"
    proof (cases "calling th")
      case (Some x)
      then obtain k j m where x: "calling th = Some (k, j, m)" by (cases x) auto
      then have "k = i" using None calling_awaits [OF x] kill_facts(2) [of th k i] by force
      then show ?thesis using calling_awaits [OF x] kill_facts(1) [of i th] by simp
    qed (use rel(2) kill_facts(1) in auto)
    then show ?thesis using None rel(3) by (simp add: call_rel_def Some kill_facts(3))
  next
    case (Some x)
    have th: "kill_thread i th = th"
      using Some calling_awaits [of "kill_thread i th"] kill_facts(1) [of i th] kill_facts(2) [of th _ i] by (cases x) (auto split: if_splits)
    obtain k j m where x: "calling th = Some (k, j, m)" using Some th by (cases x) auto
    have "k \<noteq> i" using calling_awaits [OF x] kill_facts(1) [of i th] th by auto
    then have "waiting c pr th (kill_thread i ta)" using waiting_kill rel(1) x by blast
    then show ?thesis unfolding th using rel(3) x by (simp add: call_rel_def \<open>call = Some pr\<close> kill_facts(3))
  qed
qed

lemma view_sel [simp]:
  "cf_net (harness_view c) = cf_net (harness c)" "cf_n (harness_view c) = cf_n (harness c)"
  "connected (harness_view c) = connected (harness c)" "endnames (harness_view c) = endnames (harness c)"
  "saved_state (harness_view c) = saved_state (harness c)" "length (rafts (harness_view c)) = cf_n (harness c)"
  "has_ends (harness_view c) i = has_ends (harness c) i"
  by (simp_all add: harness_view_def has_ends_def)

lemma view_rafts: "i < cf_n (harness c) \<Longrightarrow> rafts (harness_view c) ! i = (if peer_up c i then Some (nodes (peersys c) i) else None)"
  by (simp add: harness_view_def)

lemma link_view: "link_inv (harness c) \<Longrightarrow> link_inv (harness_view c)"
  using link_inv_cong [of "harness_view c" "harness c"] link_invD(1) [of "harness c"] by (simp add: sizes_ok_def)

text \<open>What a peer is restarted from is what the cluster has on its stable storage.\<close>

lemma saved_rel:
  assumes R: "sys_rel n c s" and rs: "reachable n s" and i: "i < n"
  shows "restart_from (saved_of i (harness_view c)) = Copy (persister (nodes s i))"
proof -
  note D = sys_relD [OF R]
  have n: "cf_n (harness c) = n" by (rule wiredD(1) [OF D(1)])
  show ?thesis
  proof (cases "peer_up c i")
    case True
    then have "saved_of i (harness_view c) = Some (persister (nodes s i))"
      using D(3) [OF True] view_rafts [of i c] i n by (simp add: saved_of_def)
    then show ?thesis using restart_from_saved [OF no_snapshot [OF rs]] by simp
  next
    case False
    then show ?thesis using D(4) [OF i False] view_rafts [of i c] i n by (simp add: saved_of_def)
  qed
qed

text \<open>Connecting and disconnecting.\<close>

lemma answer_links:
  assumes R: "sys_rel n c s" and l: "link_inv cfg" "cf_n cfg = n" "rafts cfg = rafts (harness_view c)"
      "saved_state cfg = saved_state (harness c)" "endnames cfg = endnames (harness c)"
      "ends (cf_net cfg) = ends (cf_net (harness c))" "servers (cf_net cfg) = servers (cf_net (harness c))"
      "connections (cf_net cfg) = connections (cf_net (harness c))"
    and up: "\<And>k. k < n \<Longrightarrow> connected cfg ! k \<Longrightarrow> peer_up c k"
  shows "matched n s k (c\<lparr>harness := cfg\<rparr>)" (is "matched n s k ?c")
proof -
  note D = sys_relD [OF R]
  have n: "cf_n (harness c) = n" by (rule wiredD(1) [OF D(1)])
  have eq: "peer_up ?c = peer_up c" using l(2,3) n view_rafts [of _ c] by (auto simp: peer_up_def fun_eq_iff split: if_splits)
  have eq2: "address ?c = address c" "dead_end ?c = dead_end c"
    using l(2,6,7) n eq by (auto simp: address_def dead_end_def fun_eq_iff)
  have "wired n ?c" using D(1) l(1,2,5) up unfolding wired_def eq eq2 stray_ok_cong [OF eq2(2)] by auto
  moreover have "net_extends c ?c" using l n by (simp add: net_extends_def)
  then have "call_rel ?c call th ta" if "call_rel c call th ta" for call th ta using call_rel_extends that by blast
  ultimately have "sys_rel n ?c s" using D l(4) unfolding sys_rel_def eq by simp
  then show ?thesis by (rule matched_none)
qed

lemma answer_connect:
  assumes R: "sys_rel n c s" and st: "sys_step (Tester (Connect_op i)) c = Some (Inr c')"
  shows "matched n s k c'"
proof -
  note D = sys_relD [OF R]
  have n: "cf_n (harness c) = n" by (rule wiredD(1) [OF D(1)])
  have up: "peer_up c i" "i < n" using st n by (auto simp: tester_step_def peer_up_def split: if_splits)
  have "has_ends (harness c) i" using wiredD(3) [OF D(1) up(1)] by (simp add: has_ends_def)
  then obtain cfg where cfg: "connect i (harness_view c) = Inr cfg" "link_inv cfg" "connected cfg = (connected (harness c))[i := True]"
      "endnames cfg = endnames (harness c)" "cf_n cfg = n" "rafts cfg = rafts (harness_view c)"
      "saved_state cfg = saved_state (harness c)" "ends (cf_net cfg) = ends (cf_net (harness c))"
      "servers (cf_net cfg) = servers (cf_net (harness c))" "connections (cf_net cfg) = connections (cf_net (harness c))"
    using link_connect [OF link_view [OF wiredD(2) [OF D(1)]], of i] up(2) n by auto
  have "peer_up c k" if "k < n" "connected cfg ! k" for k
    using that cfg(3) up(1) wiredD(6) [OF D(1), of k] by (cases "k = i") auto
  from answer_links [OF R cfg(2,5,6,7,4,8,9,10) this] show ?thesis using st cfg(1) up by (simp add: tester_step_def)
qed

lemma answer_disconnect:
  assumes R: "sys_rel n c s" and st: "sys_step (Tester (Disconnect_op i)) c = Some (Inr c')"
  shows "matched n s k c'"
proof -
  note D = sys_relD [OF R]
  have n: "cf_n (harness c) = n" by (rule wiredD(1) [OF D(1)])
  have i: "i < n" using st n by (auto simp: tester_step_def split: if_splits)
  obtain cfg where cfg: "disconnect i (harness_view c) = Inr cfg" "link_inv cfg" "connected cfg = (connected (harness c))[i := False]"
      "endnames cfg = endnames (harness c)" "cf_n cfg = n" "rafts cfg = rafts (harness_view c)"
      "saved_state cfg = saved_state (harness c)" "ends (cf_net cfg) = ends (cf_net (harness c))"
      "servers (cf_net cfg) = servers (cf_net (harness c))" "connections (cf_net cfg) = connections (cf_net (harness c))"
    using link_disconnect [OF link_view [OF wiredD(2) [OF D(1)]], of i] i n by auto
  have "peer_up c k" if "k < n" "connected cfg ! k" for k
    using that cfg(3) wiredD(6) [OF D(1), of k] link_invD(1) [OF wiredD(2) [OF D(1)]] n
    by (cases "k = i") (auto simp: sizes_ok_def)
  from answer_links [OF R cfg(2,5,6,7,4,8,9,10) this] show ?thesis using st cfg(1) i n by (simp add: tester_step_def)
qed

text \<open>
  The instance of a peer is replaced: by nothing (\<open>x = None\<close>), or by a new instance \<open>rf\<close> with a server at a new
  address and new client ends.
\<close>

lemma sys_rel_replace:
  assumes R: "sys_rel n c s" and i: "i < n"
    and l: "link_inv cfg" "cf_n cfg = n" "connected cfg = (connected (harness c))[i := False]"
      "servers (cf_net cfg) = (servers (cf_net (harness c)))(server_name i := x)"
      "set (ends (cf_net (harness c))) \<subseteq> set (ends (cf_net cfg))"
      "\<And>e. e \<in> set (ends (cf_net (harness c))) \<Longrightarrow> connections (cf_net cfg) e = connections (cf_net (harness c)) e"
    and k: "\<And>k. k \<noteq> i \<Longrightarrow> endnames cfg ! k = endnames (harness c) ! k"
      "\<And>k. k < n \<Longrightarrow> k \<noteq> i \<Longrightarrow> rafts cfg ! k = None \<longleftrightarrow> \<not> peer_up c k"
      "\<And>k. k \<noteq> i \<Longrightarrow> saved_state cfg ! k = saved_state (harness c) ! k"
    and x: "rafts cfg ! i = None \<longleftrightarrow> x = None" "x = None \<Longrightarrow> restart_from (saved_state cfg ! i) = Copy (persister rf)"
      "\<And>a. x = Some a \<Longrightarrow> a \<notin> set (allocated c) \<and> a \<in> set (allocated c') \<and> endnames cfg ! i = Some (peers rf) \<and>
         set (peers rf) \<inter> set (ends (cf_net (harness c))) = {}"
    and c': "harness c' = cfg" "set (allocated c) \<subseteq> set (allocated c')" "stray_calls c' = stray_calls c" "in_net c' = in_net c"
      "peersys c' = (peersys c)\<lparr>nodes := N, threads := (\<lambda>p. kill_thread i (threads (peersys c) p)),
         applying := (applying (peersys c))(i := 0), applier := (applier (peersys c))(i := Awake)\<rparr>"
    and N: "\<And>k. k \<noteq> i \<Longrightarrow> N k = nodes (peersys c) k" "x \<noteq> None \<Longrightarrow> N i = rf"
    and s': "s' = set_node i rf (s\<lparr>threads := (\<lambda>p. kill_thread i (threads s p)), applying := (applying s)(i := 0),
         applier := (applier s)(i := Awake)\<rparr>)"
  shows "sys_rel n c' s'"
proof -
  note D = sys_relD [OF R] and W = wiredD [OF sys_relD(1) [OF R]]
  have up: "peer_up c' k \<longleftrightarrow> (if k = i then x \<noteq> None else peer_up c k)" for k
    using c'(1) l(2) k(2) [of k] x(1) i W(1) by (auto simp: peer_up_def)
  have ad: "address c' k = (if k = i then x else address c k)" for k using c'(1) l(4) by (simp add: address_def)
  have dead: "dead_end c' e" if d: "dead_end c e" for e
  proof -
    have "e \<notin> set (peers (nodes (peersys c') k))" if "k < n" "peer_up c' k" for k
      using that d up [of k] W(1) c'(5) N x(3) by (cases "k = i") (auto simp: dead_end_def)
    then show ?thesis using d c'(1) l(2,5) by (auto simp: dead_end_def)
  qed
  have "wired n c'" unfolding wired_def
  proof (intro conjI allI impI)
    fix q pr assume "stray_calls c' q = Some pr"
    then have "stray_ok c pr" using W(8) c'(3) by simp
    then show "stray_ok c' pr" using dead by (cases pr) auto
  next
    fix k assume u: "peer_up c' k"
    show "endnames (harness c') ! k = Some (peers (nodes (peersys c') k))"
      using u up [of k] W(3) [of k] x(3) N k(1) [of k] c'(1,5) by (cases "k = i") auto
    show "\<exists>a \<in> set (allocated c'). address c' k = Some a"
    proof (cases "k = i")
      case False
      then have "peer_up c k" using u up [of k] by simp
      then have "\<exists>a \<in> set (allocated c). address c k = Some a" using sys_relD(1) [OF R] by (simp add: wired_def)
      then show ?thesis using False ad [of k] c'(2) by auto
    qed (use u up [of k] ad [of k] x(3) in auto)
  next
    fix k assume u: "k < n" "\<not> peer_up c' k"
    have "\<not> peer_up c k" if "k \<noteq> i" using u that up [of k] by simp
    then show "address c' k = None" using u up [of k] ad [of k] W(5) [of k] by (cases "k = i") (auto, fastforce)
    show "\<not> connected (harness c') ! k"
      using u up [of k] W(6) [of k] link_invD(1) [OF W(2)] l(3) c'(1) W(1) by (cases "k = i") (auto simp: sizes_ok_def)
  next
    fix k j a assume "k < n" "j < n" "address c' k = Some a" "address c' j = Some a"
    then show "k = j" using ad [of k] ad [of j] W(4,7) x(3) [of a] by (cases "k = i"; cases "j = i") auto
  qed (use l(1,2) c'(1) in simp_all)
  moreover have "net_extends c c'" using l(2,4-6) c'(1,2) W(1) x(3) by (auto simp: net_extends_def)
  then have "call_rel c' (in_net c p) (kill_thread i (threads (peersys c) p)) (kill_thread i (threads s p))" for p
    by (rule call_rel_extends [OF _ call_rel_kill [OF D(5)]])
  moreover have "s' = around (nodes s') (threads s') (peersys c')"
    using arg_cong [OF D(2), of "\<lambda>s. (size_of s, fresh s, nvotes s, fresh_election s, tallies s, fresh_bcast s, applying s, applier s)"]
    unfolding s' c'(5) by (simp add: around_def set_node_def)
  moreover have "peer_up c' m" if "runs_on (kill_thread i th) = Some m" "runs_on th = Some m \<Longrightarrow> peer_up c m" for m th
    using that up [of m] by (auto simp: kill_facts(1) split: if_splits)
  then have "peer_up c' m" if "runs_on (threads (peersys c') p) = Some m" for m p using D(6) that c'(5) by auto
  moreover have "nodes s' m = nodes (peersys c') m" if "peer_up c' m" for m
    using that up [of m] D(3) [of m] N c'(5) s' by (cases "m = i") (auto simp: set_node_def)
  moreover have "restart_from (saved_state (harness c') ! m) = Copy (persister (nodes s' m))" if "m < n" "\<not> peer_up c' m" for m
    using that up [of m] D(4) [of m] x(2) k(3) [of m] c'(1) s' by (cases "m = i") (auto simp: set_node_def)
  ultimately show ?thesis using D(7,8) c'(4,5) s' by (simp add: sys_rel_def set_node_def)
qed

lemma crash_enabled:
  assumes rs: "reachable n s" and "i < n" and "length ps = n"
  obtains rf where "Make ps (int i) (Copy (persister (nodes s i))) t = Inr rf"
    "step (Crash t i ps) s = Some (Inr (set_node i rf (s\<lparr>threads := (\<lambda>p. kill_thread i (threads s p)),
       applying := (applying s)(i := 0), applier := (applier s)(i := Awake)\<rparr>)))"
proof -
  have d: "data_inv n s" by (rule data_inv_reachable [OF rs])
  then have "saved (nodes s i)" "sendable_log (Log (nodes s i))" "size_of s = n"
    using data_invD(1) [OF d, of i] by (auto simp: peer_ok_def data_inv_def)
  then show thesis using Make_recovers_state [of "nodes s i" ps "int i" t] that assms(2,3) by (auto simp: crash_def)
qed

lemma answer_crash:
  assumes R: "sys_rel n c s" and rs: "reachable n s" and st: "sys_step (Tester (Crash_op i)) c = Some (Inr c')"
  shows "matched n s k c'"
proof -
  note D = sys_relD [OF R] and W = wiredD [OF sys_relD(1) [OF R]]
  have i: "i < n" using st W(1) by (auto simp: tester_step_def split: if_splits)
  obtain cfg where cfg: "crash1 i (harness_view c) = Inr cfg" "link_inv cfg" "connected cfg = (connected (harness c))[i := False]"
      "endnames cfg = endnames (harness c)" "cf_n cfg = n" "ends (cf_net cfg) = ends (cf_net (harness c))"
      "rafts cfg = (rafts (harness_view c))[i := None]"
      "saved_state cfg = (saved_state (harness c))[i := map_option (\<lambda>p. SaveRaftState MakePersister (ReadRaftState p)) (saved_of i (harness_view c))]"
      "servers (cf_net cfg) = (servers (cf_net (harness c)))(server_name i := None)"
      "connections (cf_net cfg) = connections (cf_net (harness c))"
    using link_crash1 [OF link_view [OF W(2)], of i] i W(1) by auto
  have c': "c' = (retire i c)\<lparr>harness := cfg\<rparr>" using st i W(1) cfg(1) by (simp add: tester_step_def)
  obtain rf where rf: "Make (replicate n []) (int i) (Copy (persister (nodes s i))) t0 = Inr rf"
      "step (Crash t0 i (replicate n [])) s = Some (Inr (set_node i rf (s\<lparr>threads := (\<lambda>p. kill_thread i (threads s p)),
         applying := (applying s)(i := 0), applier := (applier s)(i := Awake)\<rparr>)))"
    by (rule crash_enabled [OF rs i, of "replicate n []" t0]) simp_all
  have "restart_from (saved_state cfg ! i) = restart_from (saved_of i (harness_view c))"
    using cfg(8) i W(1) link_invD(1) [OF W(2)]
    by (cases "saved_of i (harness_view c)") (simp_all add: restart_from_def sizes_ok_def)
  then have sv: "restart_from (saved_state cfg ! i) = Copy (persister rf)"
    using saved_rel [OF R rs i] Make_persister [OF rf(1)] by (simp add: Copy_def)
  have "sys_rel n c' (set_node i rf (s\<lparr>threads := (\<lambda>p. kill_thread i (threads s p)),
      applying := (applying s)(i := 0), applier := (applier s)(i := Awake)\<rparr>))"
    by (rule sys_rel_replace [OF R i cfg(2,5,3,9), where rf = rf and N = "nodes (peersys c)"])
       (use c' cfg(4,6,7,8,10) sv i W(1) view_rafts [of _ c] in \<open>auto simp: retire_def split: if_splits\<close>)
  then show ?thesis by (intro matched_one [OF rf(2)]) (simp_all add: calm_def)
qed

lemma answer_start:
  assumes R: "sys_rel n c s" and rs: "reachable n s" and st: "sys_step (Tester (Start_op i ns a t)) c = Some (Inr c')"
  shows "matched n s k c'"
proof -
  note D = sys_relD [OF R] and W = wiredD [OF sys_relD(1) [OF R]]
  have i: "i < n" "fresh_names ns (harness_view c)" "a \<notin> set (allocated c)"
    using st W(1) by (auto simp: tester_step_def fresh_names_def split: if_splits)
  have ns: "length ns = n" "set ns \<inter> set (ends (cf_net (harness c))) = {}" using i(2) W(1) by (simp_all add: fresh_names_def)
  obtain rf where rf: "Make ns (int i) (Copy (persister (nodes s i))) t = Inr rf"
      "step (Crash t i ns) s = Some (Inr (set_node i rf (s\<lparr>threads := (\<lambda>p. kill_thread i (threads s p)),
         applying := (applying s)(i := 0), applier := (applier s)(i := Awake)\<rparr>)))"
    by (rule crash_enabled [OF rs i(1) ns(1)])
  have "Make ns (int i) (restart_from (saved_of i (harness_view c))) t = Inr rf" using rf(1) saved_rel [OF R rs i(1)] by simp
  then obtain cfg where cfg: "start1 i ns a t (harness_view c) = Inr cfg" "link_inv cfg" "connected cfg = (connected (harness c))[i := False]"
      "endnames cfg = (endnames (harness c))[i := Some ns]" "cf_n cfg = n"
      "set (ends (cf_net cfg)) = set ns \<union> set (ends (cf_net (harness c)))"
      "rafts cfg = (rafts (harness_view c))[i := Some rf]" "\<forall>k. k \<noteq> i \<longrightarrow> saved_state cfg ! k = saved_state (harness c) ! k"
      "servers (cf_net cfg) = (servers (cf_net (harness c)))(server_name i := Some a)"
      "\<forall>e. e \<notin> set ns \<longrightarrow> connections (cf_net cfg) e = connections (cf_net (harness c)) e"
    using link_start1 [OF link_view [OF W(2)] _ i(2), of i t rf a] i(1) W(1) by auto
  have ri: "rafts cfg ! i = Some rf" using cfg(7) i(1) W(1) by simp
  have c': "c' = (let c1 = (retire i c)\<lparr>peersys := set_node i rf (peersys (retire i c))\<rparr>
      in c1\<lparr>harness := cfg, served := (served c1)(a := 0), allocated := a # allocated c1\<rparr>)"
    using st i W(1) cfg(1) ri by (auto simp: tester_step_def Let_def split: if_splits)
  have e: "endnames cfg ! i = Some (peers rf)" "peers rf = ns"
    using cfg(4) i(1) W(1) link_invD(1) [OF W(2)] Make_persister [OF rf(1)] by (simp_all add: sizes_ok_def)
  have "sys_rel n c' (set_node i rf (s\<lparr>threads := (\<lambda>p. kill_thread i (threads s p)),
      applying := (applying s)(i := 0), applier := (applier s)(i := Awake)\<rparr>))"
    by (rule sys_rel_replace [OF R i(1) cfg(2,5,3,9), where rf = rf and N = "(nodes (peersys c))(i := rf)"])
       (use c' cfg(4,6,7,8,10) ri e ns(2) i W(1) view_rafts [of _ c] in \<open>auto simp: retire_def set_node_def Let_def split: if_splits\<close>)
  then show ?thesis by (intro matched_one [OF rf(2)]) (simp_all add: calm_def)
qed

section \<open>Runs\<close>

lemma sys_matched:
  assumes R: "sys_rel n c s" and rs: "reachable n s" and st: "sys_step a c = Some (Inr c')"
  shows "matched n s (sys_calm a c) c'"
proof (cases a)
  case (Peer b)
  then show ?thesis using answer_peer [OF R] st by (simp add: sys_calm_def del: sys_step.simps)
next
  case (Tester op)
  then show ?thesis
    using answer_connect [OF R] answer_disconnect [OF R] answer_crash [OF R rs] answer_start [OF R rs] st
    by (cases op) (auto simp: tester_step_def)
next
  case (Retired_change x rf)
  then show ?thesis using st by (intro matched_none sys_rel_cong [OF R]) auto
next
  case (Set_unreliable b)
  then show ?thesis using st by (intro matched_none sys_rel_net [OF R, of _ "Reliable (\<not> b) (cf_net (harness c))"]) (auto simp: setunreliable_def Reliable_def)
next
  case (Set_longreordering b)
  then show ?thesis using st by (intro matched_none sys_rel_net [OF R, of _ "LongReordering b (cf_net (harness c))"])
      (auto simp: setlongreordering_def LongReordering_def)
next
  case Net_cleanup
  then show ?thesis using st by (intro matched_none sys_rel_net [OF R, of _ "Cleanup (cf_net (harness c))"]) (auto simp: on_net_def Cleanup_def)
next
  case Net_stop
  then show ?thesis using st by (intro matched_none sys_rel_net [OF R, of _ "stop_loop (cf_net (harness c))"]) (auto simp: on_net_def stop_loop_def)
qed (use answer_issue [OF R] answer_network [OF R rs] answer_return [OF R] answer_stray_send [OF R] answer_stray [OF R] st
     in \<open>auto simp del: sys_step.simps\<close>)

lemma sys_rel_init: "sys_rel n (sys_init n b) (cluster_init n (\<lambda>_. t0))"
proof -
  let ?c = "sys_init n b"
  have h: "harness ?c = (empty_config n)\<lparr>cf_net := LongDelays True (Reliable (\<not> b) MakeNetwork)\<rparr>"
    by (simp add: sys_init_def setunreliable_def Let_def empty_config_def)
  have "link_inv (harness ?c)"
    unfolding h by (auto simp: link_inv_def sizes_ok_def has_ends_def empty_config_def LongDelays_def Reliable_def MakeNetwork_def)
  moreover have "\<not> peer_up ?c i" "address ?c i = None" for i
    by (auto simp: peer_up_def address_def h empty_config_def LongDelays_def Reliable_def MakeNetwork_def)
  moreover have "\<not> connected (harness ?c) ! i" "restart_from (saved_state (harness ?c) ! i) = Copy (persister (boot n (\<lambda>_. t0) i))"
      if "i < n" for i
    using that by (simp_all add: h empty_config_def restart_from_def boot_def Make_fresh) (simp add: persister_defs)
  moreover have "cf_n (harness ?c) = n" by (simp add: h empty_config_def)
  moreover have "peersys ?c = cluster_init n (\<lambda>_. t0)" "in_net ?c = (\<lambda>_. None)" "stray_calls ?c = (\<lambda>_. None)"
    by (simp_all add: sys_init_def Let_def)
  moreover have "nodes (cluster_init n (\<lambda>_. t0)) = boot n (\<lambda>_. t0)" "threads (cluster_init n (\<lambda>_. t0)) p = Idle" for p
    by (simp_all add: cluster_init_def)
  ultimately show ?thesis by (simp add: sys_rel_def wired_def around_def call_rel_def)
qed

lemma sys_exec_matched:
  assumes "sys_rel n c s" and "reachable n s" and "sys_exec as c = Some c'"
  shows "matched n s (sys_calm_run as c) c'"
  using assms
proof (induction "as" arbitrary: c s)
  case Nil
  then show ?case by (simp add: matched_none)
next
  case (Cons a as')
  obtain c1 where c1: "sys_step a c = Some (Inr c1)" "sys_exec as' c1 = Some c'"
    using Cons.prems(3) by (auto split: option.splits sum.splits)
  obtain bs s1 where s1: "exec bs s = Some s1" "sys_rel n c1 s1" "sys_calm a c \<Longrightarrow> calm_run bs s"
    using sys_matched [OF Cons.prems(1,2) c1(1)] by (auto simp: matched_def)
  obtain bs' s' where s': "exec bs' s1 = Some s'" "sys_rel n c' s'" "sys_calm_run as' c1 \<Longrightarrow> calm_run bs' s1"
    using Cons.IH [OF s1(2) exec_reachable [OF s1(1) Cons.prems(2)] c1(2)] by (auto simp: matched_def)
  have "exec (bs @ bs') s = Some s'" using s1(1) s'(1) by (simp add: exec_append)
  moreover have "calm_run (bs @ bs') s" if "sys_calm_run (a # as') c"
    using that c1(1) s1(1,3) s'(3) by (simp add: calm_run_append)
  ultimately show ?case using s'(2) unfolding matched_def by blast
qed

section \<open>Properties\<close>



end
