(* ===== verification/Raft_System_Safety.thy ===== *)
theory Raft_System_Safety
  imports Raft_Simulation Raft_NoPanic
begin

text \<open>
  What the simulation of theory \<open>Raft_Simulation\<close> gives for the whole program: the running peers never apply different
  commands at the same index, and no step of the program panics.
\<close>

section \<open>Panics\<close>

text \<open>Goroutines only call peers of the cluster.\<close>

fun targets :: "thread \<Rightarrow> nat set" where
  "targets (ElectionLoop e i T js) = set js"
| "targets (VoteCall e i j ph) = {j}"
| "targets (Bcast k i b (BLoop js)) = set js"
| "targets (AppendCall k i j b ph) = {j}"
| "targets th = {}"

definition targets_ok :: "cluster \<Rightarrow> bool" where
  "targets_ok s \<longleftrightarrow> (\<forall>p. targets (threads s p) \<subseteq> {..<size_of s})"

lemma targets_updates [intro]:
  "targets_ok s \<Longrightarrow> targets th \<subseteq> {..<size_of s} \<Longrightarrow> targets_ok (set_thread p th s)"
  "targets_ok s \<Longrightarrow> targets th \<subseteq> {..<size_of s} \<Longrightarrow> targets_ok (spawn th s)"
  "targets_ok s \<Longrightarrow> targets_ok (set_node i rf s)" "targets_ok s \<Longrightarrow> targets_ok (spawn_bcast i b s)"
  "targets_ok s \<Longrightarrow> targets_ok (s\<lparr>nvotes := nv\<rparr>)" "targets_ok s \<Longrightarrow> targets_ok (s\<lparr>tallies := tt\<rparr>)"
  by (auto simp: targets_ok_def cluster_updates Let_def)

lemma targets_others: "set (others n i) \<subseteq> {..<n}"
  by (auto simp: others_def)

lemma targets_kill: "targets (kill_thread i th) \<subseteq> targets th"
  by (cases th) auto

lemma size_updates [simp]:
  "size_of (set_node i rf s) = size_of s" "size_of (spawn th s) = size_of s" "size_of (spawn_bcast i b s) = size_of s"
  by (simp_all add: cluster_updates Let_def)

lemma targets_run:
  assumes st: "run_thread now p s = Some (Inr s')" and ok: "targets_ok s"
  shows "targets_ok s'"
proof -
  have p: "targets (threads s p) \<subseteq> {..<size_of s}" using ok by (simp add: targets_ok_def)
  show ?thesis
  proof (cases "threads s p")
    case (ElectionLoop e i T js)
    then show ?thesis using st ok p by (cases js) (auto simp: run_thread_def go_simps intro!: targets_updates)
  next
    case (VoteCall e i j ph)
    then show ?thesis using st ok p
      by (cases ph) (auto simp: run_thread_def go_simps Let_def split: if_splits intro!: targets_updates)
  next
    case (StartCall i cmd ph)
    then show ?thesis using st ok p by (cases ph) (auto simp: run_thread_def Let_def split_beta split: if_splits intro!: targets_updates)
  next
    case (Heartbeat i ph)
    then show ?thesis using st ok p by (cases ph) (auto simp: run_thread_def split: if_splits intro!: targets_updates)
  next
    case (Bcast k i b ph)
    then show ?thesis using st ok p targets_others [of "size_of s" i]
      by (cases "(p, k, i, b, ph, s)" rule: run_bcast.cases) (auto simp: run_thread_def split: if_splits intro!: targets_updates)
  next
    case (AppendCall k i j b ph)
    then show ?thesis using st ok p
      by (cases ph) (auto simp: run_thread_def go_simps Let_def split: if_splits intro!: targets_updates)
  qed (use st in \<open>simp add: run_thread_def\<close>)
qed

lemma targets_step:
  assumes st: "step a s = Some (Inr s')" and ok: "targets_ok s"
  shows "targets_ok s'"
proof -
  have p: "targets (threads s p) \<subseteq> {..<size_of s}" for p using ok by (simp add: targets_ok_def)
  show ?thesis
  proof (cases a)
    case (Run now p)
    then show ?thesis using targets_run st ok by simp
  next
    case (Deliver t1 t2 q)
    then show ?thesis using st ok p [of q]
      by (auto simp: deliver_def go_simps split: thread.splits vphase.splits aphase.splits intro!: targets_updates)
  next
    case (Lose q)
    then show ?thesis using st ok p [of q]
      by (auto simp: lose_def split: thread.splits vphase.splits aphase.splits intro!: targets_updates)
  next
    case (Timeout t i)
    then show ?thesis using st
      by (auto simp: targets_ok_def cluster_updates Let_def split: if_splits dest: subsetD [OF p] subsetD [OF targets_others])
  next
    case (Crash t i ps)
    then show ?thesis using st
      by (auto simp: crash_def go_simps targets_ok_def set_node_def split: if_splits dest!: subsetD [OF targets_kill] dest: subsetD [OF p])
  qed (use st in \<open>auto simp: targets_ok_def cluster_updates go_simps split: if_splits dest: subsetD [OF p]\<close>)
qed

lemma targets_reachable: "reachable n s \<Longrightarrow> targets_ok s"
proof (induction rule: reachable.induct)
  case (reach_step s a s')
  then show ?case using targets_step by blast
qed (simp add: targets_ok_def cluster_init_def)

text \<open>A panic of a peer is one of the cluster too.\<close>

lemma run_panics:
  assumes st: "run_thread now p s = Some (Inl e)"
  obtains i where "runs_on (threads s p) = Some i" "calling (threads s p) = None"
    "\<And>N T. N i = nodes s i \<Longrightarrow> T p = threads s p \<Longrightarrow> run_thread now p (around N T s) = Some (Inl e)"
proof -
  note ds = run_thread_def around_def bindE_Inl_iff Let_def
  have "\<exists>i. runs_on (threads s p) = Some i \<and> calling (threads s p) = None \<and>
    (\<forall>N T. N i = nodes s i \<longrightarrow> T p = threads s p \<longrightarrow> run_thread now p (around N T s) = Some (Inl e))"
  proof (cases "threads s p")
    case (ElectionLoop e' i T js)
    then show ?thesis using st by (cases js) (auto simp: ds)
  next
    case (VoteCall e' i j ph)
    then show ?thesis using st by (cases ph) (auto simp: ds split: if_splits)
  next
    case (AppendCall k i j b ph)
    then show ?thesis using st by (cases ph) (auto simp: ds split: if_splits)
  qed (use st in \<open>simp_all add: run_thread_def\<close>)
  then show thesis using that by blast
qed

lemma safe_peer:
  assumes R: "sys_rel n c s" and safe: "\<And>e. calm b s \<Longrightarrow> step b s \<noteq> Some (Inl e)" and calm: "calm b (peersys c)"
  shows "sys_step (Peer b) c \<noteq> Some (Inl e)"
proof
  note D = sys_relD [OF R]
  assume "sys_step (Peer b) c = Some (Inl e)"
  then have st: "step b (peersys c) = Some (Inl e)" "peer_ready b c" by (auto simp: bindE_Inl_iff split: if_splits)
  show False
  proof (cases b)
    case (Run now p)
    then have r: "run_thread now p (peersys c) = Some (Inl e)" using st(1) by simp
    from r obtain i where i: "runs_on (threads (peersys c) p) = Some i" "calling (threads (peersys c) p) = None"
        "\<And>N T. N i = nodes (peersys c) i \<Longrightarrow> T p = threads (peersys c) p \<Longrightarrow> run_thread now p (around N T (peersys c)) = Some (Inl e)"
      by (rule run_panics) blast
    have tp: "threads s p = threads (peersys c) p" using i(1,2) D(5) [of p] by (auto simp: call_rel_def split: option.splits)
    have "run_thread now p (around (nodes s) (threads s) (peersys c)) = Some (Inl e)"
      by (rule i(3)) (use D(3) [OF D(6) [OF i(1)]] tp in simp_all)
    then have "step b s = Some (Inl e)" using D(2) Run by simp
    moreover have "actor b (peersys c) = Some i" using Run i(1) by (simp add: actor_def)
    then have "calm b s" using calm_around [of b "peersys c" i "nodes s" "threads s"] D(2) D(3) [OF D(6) [OF i(1)]] tp Run calm by simp
    ultimately show False using safe by blast
  next
    case (Apply i)
    then have "apply_step (applying (peersys c) i) (nodes (peersys c) i) = Some (Inl e)" "i < size_of (peersys c)"
        "applier (peersys c) i = Awake" "peer_up c i"
      using st by (auto simp: bindE_Inl_iff split: if_splits)
    then have "step b (around (nodes s) (threads s) (peersys c)) = Some (Inl e)" using Apply D(3) by (simp add: around_def)
    then show False using D(2) safe Apply by (auto simp: calm_def)
  qed (use st in \<open>auto simp: Let_def split: if_splits\<close>)
qed

lemma safe_issue:
  assumes R: "sys_rel n c s" and rs: "reachable n s"
  shows "sys_step (Issue p) c \<noteq> Some (Inl e)"
proof
  note D = sys_relD [OF R] and W = wiredD [OF sys_relD(1) [OF R]]
  assume "sys_step (Issue p) c = Some (Inl e)"
  then obtain i j m where cl: "calling (threads (peersys c) p) = Some (i, j, m)" "in_net c p = None"
      "send j m (nodes (peersys c) i) = Inl e"
    by (auto simp: issue_def bindE_Inl_iff split: option.splits)
  have "threads s p = threads (peersys c) p" using D(5) [of p] cl(1,2) calling_awaits [OF cl(1)] by (simp add: call_rel_def)
  then have "j \<in> targets (threads s p)" using cl(1) by (cases "threads (peersys c) p" rule: calling.cases) auto
  then have j: "j < n"
    using targets_reachable [OF rs] data_inv_reachable [OF rs] by (auto simp: targets_ok_def data_inv_def)
  have i: "peer_up c i" using calling_awaits [OF cl(1)] D(6) by blast
  then show False using ends_length [OF D(1)] send_eq [of j "nodes (peersys c) i" m] j cl(3) by simp
qed

lemma safe_return:
  assumes R: "sys_rel n c s"
  shows "sys_step (Return p) c \<noteq> Some (Inl e)"
proof
  note D = sys_relD [OF R]
  assume "sys_step (Return p) c = Some (Inl e)"
  then obtain i j m rep where cl: "calling (threads (peersys c) p) = Some (i, j, m)" "in_net c p = Some (Answered rep)"
      "Call_reply m rep = Inl e"
    by (auto simp: returns_def Let_def bindE_Inl_iff split: option.splits proc.splits)
  show False
  proof (cases "rep_ok rep")
    case True
    then have "got (threads (peersys c) p) (threads s p) rep" using D(5) [of p] cl(1,2) by (simp add: call_rel_def)
    then show False using Call_reply_ok cl(1,3) by (auto simp: got_def)
  next
    case False
    then show False using Call_reply_none cl(3) by simp
  qed
qed

text \<open>The step runs no handler of a crashed instance, of which nothing is known.\<close>

definition on_running :: "sys_action \<Rightarrow> system \<Rightarrow> bool" where
  "on_running a c =
     (case a of
        Network_step t1 t2 p x \<Rightarrow>
          (case in_net c p of
             None \<Rightarrow> True
           | Some pr \<Rightarrow> (case executes_at x pr of None \<Rightarrow> True | Some ad \<Rightarrow> peer_at c ad \<noteq> None))
      | _ \<Rightarrow> True)"

lemma proc_panics:
  assumes "proc_step x pr w = Some (Inl e)"
  obtains req ad where "executes_at x pr = Some ad" "undone pr" "execute req ad w = Inl e"
    "pr = Abandoned req ad \<or> (\<exists>sn rel longre. pr = Executing req sn ad rel longre)"
proof (cases x)
  case PExecute
  then show thesis using assms that by (cases pr) (auto simp: bindE_Inl_iff)
qed (use assms in \<open>cases pr; auto split: if_splits\<close>)+

lemma deliver_panics:
  "awaits (threads s p) = Some (j, m) \<Longrightarrow> handle t1 t2 m (nodes s j) = Inl e \<Longrightarrow> step (Deliver t1 t2 p) s = Some (Inl e)"
  by (cases "threads s p" rule: awaits.cases) (auto simp: deliver_def bindE_Inl_iff)

lemma safe_network:
  assumes R: "sys_rel n c s" and rs: "reachable n s" and safe: "\<And>e. step (Deliver t1 t2 p) s \<noteq> Some (Inl e)"
    and on: "on_running (Network_step t1 t2 p x) c"
  shows "sys_step (Network_step t1 t2 p x) c \<noteq> Some (Inl e)"
proof
  note D = sys_relD [OF R] and W = wiredD [OF sys_relD(1) [OF R]]
  assume "sys_step (Network_step t1 t2 p x) c = Some (Inl e)"
  then obtain pr where pr: "in_net c p = Some pr" "proc_step x pr (lab_view t1 t2 c) = Some (Inl e)"
    by (auto simp: network_step_def bindE_Inl_iff split: option.splits)
  obtain req ad where ex: "executes_at x pr = Some ad" "undone pr" "execute req ad (lab_view t1 t2 c) = Inl e"
      "pr = Abandoned req ad \<or> (\<exists>sn rel longre. pr = Executing req sn ad rel longre)"
    using pr(2) by (rule proc_panics)
  obtain j m where j: "j < n" "awaits (threads s p) = Some (j, m)" "underway c pr j m"
    using call_relD(3) [OF D(5) [of p, unfolded pr(1)] ex(2)] W(1) by auto
  then have m: "req = request_msg (endname req) m" "meant c ad j" using ex(4) by auto
  obtain i where i: "peer_at c ad = Some i" using on pr(1) ex(1) by (auto simp: on_running_def)
  have ij: "i = j" "address c j = Some ad" using peer_at_Some [OF i] m(2) by (auto simp: meant_def)
  have "sendable_args m" by (rule awaits_sendable [OF j(2) data_invD(2) [OF data_inv_reachable [OF rs]]])
  then have "handle t1 t2 m (object_at c ad) = Inl e"
    using ex(3) unfolding m(1) [symmetric] by (subst (asm) m(1)) (auto simp: execute_def lab_view_def raft_dispatch bindE_Inl_iff)
  moreover have "object_at c ad = nodes s j" using i ij W(5) [OF j(1) ij(2)] D(3) by (simp add: object_at_def)
  ultimately show False using deliver_panics [OF j(2)] safe by metis
qed

lemma safe_stray:
  assumes R: "sys_rel n c s"
  shows "sys_step (Stray_step t1 t2 q x) c \<noteq> Some (Inl e)"
proof
  assume "sys_step (Stray_step t1 t2 q x) c = Some (Inl e)"
  then obtain pr where pr: "stray_calls c q = Some pr" "proc_step x pr (lab_view t1 t2 c) = Some (Inl e)"
    by (auto simp: stray_step_def bindE_Inl_iff split: option.splits)
  from pr(2) show False by (rule proc_panics) (use wiredD(8) [OF sys_relD(1) [OF R] pr(1)] in auto)
qed

lemma safe_tester:
  assumes R: "sys_rel n c s" and rs: "reachable n s"
  shows "sys_step (Tester op) c \<noteq> Some (Inl e)"
proof -
  note W = wiredD [OF sys_relD(1) [OF R]]
  note L = link_view [OF W(2)]
  have "\<exists>cfg. config_step op (harness_view c) = Inr cfg" if ok: "tester_ok op c"
  proof (cases op)
    case (Connect_op i)
    then have "peer_up c i" using ok by simp
    then show ?thesis using link_connect [OF L, of i] W(3) Connect_op by (auto simp: has_ends_def peer_up_def)
  next
    case (Start_op i ns a t)
    then have i: "i < n" "fresh_names ns (harness_view c)" "length ns = n" using ok W(1) by (simp_all add: fresh_names_def)
    obtain rf where "Make ns (int i) (restart_from (saved_of i (harness_view c))) t = Inr rf"
      using crash_enabled [OF rs i(1,3), of t] saved_rel [OF R rs i(1)] by auto
    then show ?thesis using link_start1 [OF L _ i(2), of i t rf a] i(1) W(1) Start_op by auto
  qed (use ok link_disconnect [OF L] link_crash1 [OF L] in auto)
  then show ?thesis by (auto simp: tester_step_def)
qed

lemma sys_step_safe:
  assumes R: "sys_rel n c s" and cr: "calm_reachable n s" and n: "0 < n" and a: "sys_calm a c" "on_running a c"
  shows "sys_step a c \<noteq> Some (Inl e)"
proof -
  note rs = calm_plain [OF cr] and safe = calm_step_safe [OF cr n]
  show ?thesis
  proof (cases a)
    case (Peer b)
    then show ?thesis using safe_peer [OF R safe] a(1) by (simp add: sys_calm_def del: sys_step.simps)
  next
    case (Network_step t1 t2 p x)
    then show ?thesis using safe_network [OF R rs safe, of t1 t2 p x] a(2) by (simp add: calm_def del: sys_step.simps step.simps)
  qed (use safe_issue [OF R rs] safe_return [OF R] safe_stray [OF R] safe_tester [OF R rs]
       in \<open>simp_all del: sys_step.simps\<close>, simp_all add: stray_send_def)
qed

section \<open>A sample run\<close>

text \<open>A run that is given up at the first step that is not calm.\<close>

fun sys_calm_exec :: "sys_action list \<Rightarrow> system \<Rightarrow> system option" where
  "sys_calm_exec [] c = Some c"
| "sys_calm_exec (a # as) c =
     (if sys_calm a c then (case sys_step a c of Some (Inr c') \<Rightarrow> sys_calm_exec as c' | _ \<Rightarrow> None) else None)"

lemma sys_calm_exec_run: "sys_calm_exec as c = Some c' \<Longrightarrow> sys_exec as c = Some c' \<and> sys_calm_run as c"
  by (induction "as" arbitrary: c) (auto split: if_splits option.splits sum.splits)

lemma sys_calm_exec_append:
  "sys_calm_exec (as @ bs) c = (case sys_calm_exec as c of None \<Rightarrow> None | Some c' \<Rightarrow> sys_calm_exec bs c')"
  by (induction "as" arbitrary: c) (auto split: option.splits sum.splits)

definition call_through :: "nat \<Rightarrow> sys_action list" where
  "call_through p = [Issue p, Network_step t0 t0 p PSend, Network_step t0 t0 p (PRead 0), Network_step t0 t0 p PExecute,
     Network_step t0 t0 p (PReply 0), Return p]"

text \<open>
  Two peers are started and connected; peer 0 is elected, is given a command, replicates and applies it; with the
  next heartbeat peer 1 learns that it is committed, and applies it too.
\<close>

definition start_two :: "sys_action list" where
  "start_two = map Tester [Start_op 0 [''a'', ''b''] 7 t0, Start_op 1 [''c'', ''d''] 8 t0, Connect_op 0, Connect_op 1]"

definition elect_two :: "sys_action list" where
  "elect_two = map Peer [Timeout t0 0, Run 0 0, Run 0 0] @ call_through 1 @ map Peer [Run 0 1, Run 0 1]"

definition send_two :: "sys_action list" where
  "send_two = map Peer ([Client 0 sample_command] @ replicate 3 (Run 0 3) @ replicate 3 (Run 0 4) @ replicate 3 (Run 0 5))"

definition commit_two :: "sys_action list" where
  "commit_two = call_through 5 @ map Peer [Run 0 5, Run 0 5, Pass 0, Apply 0]"

definition follow_two :: "sys_action list" where
  "follow_two = map Peer (replicate 3 (Run 0 6) @ replicate 3 (Run 0 7) @ replicate 3 (Run 0 8)) @
     call_through 8 @ map Peer [Pass 1, Apply 1]"

definition sys_sample :: "sys_action list" where
  "sys_sample = start_two @ elect_two @ send_two @ commit_two"

definition has_applied :: "system \<Rightarrow> nat \<Rightarrow> bool" where
  "has_applied c i \<longleftrightarrow> peer_up c i \<and>
     applyCh (nodes (peersys c) i) = [\<lparr>CommandValid = True, Command_msg = sample_command, CommandIndex = 1\<rparr>]"

text \<open>The run is evaluated in stages; between them the simplifier drops what has been overwritten from the state.\<close>

lemma sample_stages:
  assumes f: "f = (\<lambda>x. case x of None \<Rightarrow> False | Some c \<Rightarrow> g (sys_calm_exec elect_two c))"
    and g: "g = (\<lambda>x. case x of None \<Rightarrow> False | Some c \<Rightarrow> h (sys_calm_exec send_two c))"
    and h: "h = (\<lambda>x. case x of None \<Rightarrow> False | Some c \<Rightarrow> k (sys_calm_exec commit_two c))"
    and k: "k = (\<lambda>x. case x of None \<Rightarrow> False | Some c \<Rightarrow> has_applied c 0 \<and> l (sys_calm_exec follow_two c))"
    and l: "l = (\<lambda>x. case x of None \<Rightarrow> False | Some c \<Rightarrow> has_applied c 1)"
  shows "f (sys_calm_exec start_two (sys_init 2 False))"
  apply code_simp
  apply (simp cong: if_cong)
  apply (simp only: f option.case)
  apply code_simp
  apply (simp cong: if_cong)
  apply (simp only: g option.case)
  apply code_simp
  apply (simp cong: if_cong)
  apply (simp only: h option.case)
  apply code_simp
  apply (simp cong: if_cong)
  apply (simp only: k option.case)
  apply code_simp
  apply (simp cong: if_cong)
  apply (simp only: l option.case)
  apply code_simp
  done

definition sample_sys :: system where
  "sample_sys = the (sys_calm_exec sys_sample (sys_init 2 False))"

definition sample_sys' :: system where
  "sample_sys' = the (sys_calm_exec follow_two sample_sys)"

lemma sample_sys_facts:
  "sys_calm_exec sys_sample (sys_init 2 False) = Some sample_sys" "has_applied sample_sys 0"
  "sys_calm_exec follow_two sample_sys = Some sample_sys'" "has_applied sample_sys' 1"
proof -
  note st = sample_stages [OF refl refl refl refl refl]
  obtain c1 where c1: "sys_calm_exec start_two (sys_init 2 False) = Some c1" using case_Some_ex [OF st] by blast
  note st = st [unfolded c1 option.case]
  obtain c2 where c2: "sys_calm_exec elect_two c1 = Some c2" using case_Some_ex [OF st] by blast
  note st = st [unfolded c2 option.case]
  obtain c3 where c3: "sys_calm_exec send_two c2 = Some c3" using case_Some_ex [OF st] by blast
  note st = st [unfolded c3 option.case]
  obtain c4 where c4: "sys_calm_exec commit_two c3 = Some c4" using case_Some_ex [OF st] by blast
  note st = st [unfolded c4 option.case]
  obtain c5 where c5: "sys_calm_exec follow_two c4 = Some c5" using case_Some_ex [OF conjunct2 [OF st]] by blast
  have r: "sys_calm_exec sys_sample (sys_init 2 False) = Some c4"
    using c1 c2 c3 c4 by (simp add: sys_sample_def sys_calm_exec_append)
  then have e: "sample_sys = c4" by (simp add: sample_sys_def)
  then have "sample_sys' = c5" using c5 by (simp add: sample_sys'_def)
  then show "sys_calm_exec sys_sample (sys_init 2 False) = Some sample_sys" "has_applied sample_sys 0"
    "sys_calm_exec follow_two sample_sys = Some sample_sys'" "has_applied sample_sys' 1"
    using r e c5 st by simp_all
qed

section \<open>Properties\<close>




end
