(* ===== verification/MR_Json.thy ===== *)
theory MR_Json
  imports Prelude
begin

text \<open>
  The records that MapReduce tasks exchange (\<^verbatim>\<open>KeyValue\<close> in \<^verbatim>\<open>src/src/mapreduce/common.go\<close>) and the
  JSON streams they are stored as.

  A file is the sequence of bytes written to it. \<open>json_Encode\<close> is what \<^verbatim>\<open>json.Encoder.Encode(&kv)\<close>
  appends for a record: an object with the two fields in order, strings quoted with Go's escapes
  (control characters, the quote, the backslash and the three characters that are special in HTML),
  and a newline. \<open>json_Decode\<close> is one call of \<^verbatim>\<open>json.Decoder.Decode\<close> on such a stream, and
  \<open>decode_loop\<close> the loop of \<^verbatim>\<open>doReduce\<close> and \<^verbatim>\<open>merge\<close> that calls it until it fails. Bytes from 128 on
  are copied, so strings are meant to be valid UTF-8 without the two line separators that Go also
  escapes. Shown: the loop reads back exactly the records that were written.
\<close>

record KeyValue =
  Key :: string
  Value :: string

section \<open>Encoding\<close>

definition hexdigit :: "nat \<Rightarrow> char" where
  "hexdigit n = (if n < 10 then char_of (48 + n) else char_of (87 + n))"

definition html_safe :: "char \<Rightarrow> bool" where
  "html_safe c \<longleftrightarrow> 32 \<le> (of_char c :: nat) \<and> c \<noteq> CHR 0x22 \<and> c \<noteq> CHR 0x5C \<and> c \<noteq> CHR 0x26 \<and>
     c \<noteq> CHR 0x3C \<and> c \<noteq> CHR 0x3E"

definition quote_char :: "char \<Rightarrow> string" where
  "quote_char c =
     (if html_safe c then [c]
      else if c = CHR 0x22 \<or> c = CHR 0x5C then [CHR 0x5C, c]
      else if c = CHR 0x0A then [CHR 0x5C, CHR ''n'']
      else if c = CHR 0x0D then [CHR 0x5C, CHR ''r'']
      else if c = CHR 0x09 then [CHR 0x5C, CHR ''t'']
      else [CHR 0x5C, CHR ''u'', CHR ''0'', CHR ''0'', hexdigit (of_char c div 16), hexdigit (of_char c mod 16)])"

definition quote :: "string \<Rightarrow> string" where
  "quote s = CHR 0x22 # concat (map quote_char s) @ [CHR 0x22]"

definition json_Encode :: "KeyValue \<Rightarrow> string" where
  \<open>json_Encode kv = ''{"Key":'' @ quote (Key kv) @ '',"Value":'' @ quote (Value kv) @ [CHR 0x7D, CHR 0x0A]\<close>

section \<open>Decoding\<close>

definition hexval :: "char \<Rightarrow> nat option" where
  "hexval c =
     (let n = of_char c in
      if 48 \<le> n \<and> n \<le> 57 then Some (n - 48)
      else if 97 \<le> n \<and> n \<le> 102 then Some (n - 87)
      else if 65 \<le> n \<and> n \<le> 70 then Some (n - 55) else None)"

definition unescape :: "char \<Rightarrow> char option" where
  "unescape c =
     (if c = CHR 0x22 \<or> c = CHR 0x5C \<or> c = CHR ''/'' then Some c
      else if c = CHR ''b'' then Some (CHR 0x08)
      else if c = CHR ''f'' then Some (CHR 0x0C)
      else if c = CHR ''n'' then Some (CHR 0x0A)
      else if c = CHR ''r'' then Some (CHR 0x0D)
      else if c = CHR ''t'' then Some (CHR 0x09) else None)"

text \<open>One character of a quoted string, with the rest of the input.\<close>

fun unquote_char :: "string \<Rightarrow> (char \<times> string) option" where
  "unquote_char [] = None"
| "unquote_char (c # cs) =
     (if c \<noteq> CHR 0x5C then (if 32 \<le> (of_char c :: nat) then Some (c, cs) else None)
      else
        (case cs of
           [] \<Rightarrow> None
         | e # es \<Rightarrow>
             if e = CHR ''u''
             then
               (case es of
                  a # b # x # y # r \<Rightarrow>
                    (if a = CHR ''0'' \<and> b = CHR ''0''
                     then
                       (case (hexval x, hexval y) of
                          (Some h, Some l) \<Rightarrow> if h < 8 then Some (char_of (16 * h + l), r) else None
                        | _ \<Rightarrow> None)
                     else None)
                | _ \<Rightarrow> None)
             else map_option (\<lambda>d. (d, es)) (unescape e)))"

lemma unquote_char_shorter: "unquote_char s = Some (c, r) \<Longrightarrow> length r < length s"
  by (cases s) (auto split: if_splits list.splits option.splits)

declare unquote_char.simps(2) [simp del]

text \<open>The body of a quoted string, up to the closing quote.\<close>

function unquote :: "string \<Rightarrow> (string \<times> string) option" where
  "unquote s =
     (case s of
        [] \<Rightarrow> None
      | q # r \<Rightarrow>
          if q = CHR 0x22 then Some ([], r)
          else
            (case unquote_char s of
               None \<Rightarrow> None
             | Some (c, r') \<Rightarrow> map_option (\<lambda>(t, r''). (c # t, r'')) (unquote r')))"
  by pat_completeness auto
termination
  by (relation "measure length") (auto dest: unquote_char_shorter)

declare unquote.simps [simp del]

fun strip :: "string \<Rightarrow> string \<Rightarrow> string option" where
  "strip [] s = Some s"
| "strip (p # ps) [] = None"
| "strip (p # ps) (c # cs) = (if p = c then strip ps cs else None)"

definition json_Decode :: "string \<Rightarrow> (KeyValue \<times> string) option" where
  \<open>json_Decode s =
     (case strip ''{"Key":"'' (dropWhile (\<lambda>c. c = CHR 0x0A) s) of
        None \<Rightarrow> None
      | Some r \<Rightarrow>
          (case unquote r of
             None \<Rightarrow> None
           | Some (k, r) \<Rightarrow>
               (case strip '',"Value":"'' r of
                  None \<Rightarrow> None
                | Some r \<Rightarrow>
                    (case unquote r of
                       None \<Rightarrow> None
                     | Some (v, r) \<Rightarrow>
                         (case strip [CHR 0x7D] r of
                            None \<Rightarrow> None
                          | Some r \<Rightarrow> Some (\<lparr>Key = k, Value = v\<rparr>, r))))))\<close>

lemma strip_shorter: "strip p s = Some r \<Longrightarrow> length r + length p = length s"
  by (induction p s rule: strip.induct) (auto split: if_splits)

lemma unquote_shorter: "unquote s = Some (t, r) \<Longrightarrow> length r < length s"
proof (induction s arbitrary: t r rule: unquote.induct)
  case (1 s)
  show ?case
  proof (cases s)
    case Nil
    then show ?thesis using 1(2) by (simp add: unquote.simps)
  next
    case (Cons q cs)
    show ?thesis
    proof (cases "q = CHR 0x22")
      case True
      then have "r = cs" using 1(2) Cons by (subst (asm) unquote.simps) simp
      then show ?thesis using Cons by simp
    next
      case False
      then obtain c r' t' where c: "unquote_char s = Some (c, r')" "unquote r' = Some (t', r)"
        using 1(2) Cons by (subst (asm) (2) unquote.simps) (auto split: option.splits)
      then have "length r < length r'" using 1(1) Cons False by auto
      then show ?thesis using unquote_char_shorter [OF c(1)] by simp
    qed
  qed
qed

lemma json_Decode_shorter: "json_Decode s = Some (kv, r) \<Longrightarrow> length r < length s"
  using length_dropWhile_le [of "\<lambda>c. c = CHR 0x0A" s]
  by (fastforce simp: json_Decode_def split: option.splits dest: strip_shorter unquote_shorter)

function decode_loop :: "string \<Rightarrow> KeyValue list" where
  "decode_loop s = (case json_Decode s of None \<Rightarrow> [] | Some (kv, r) \<Rightarrow> kv # decode_loop r)"
  by pat_completeness auto
termination
  by (relation "measure length") (auto dest: json_Decode_shorter)

declare decode_loop.simps [simp del]

section \<open>Reading back what was written\<close>

lemma hexval_hexdigit: "n < 16 \<Longrightarrow> hexval (hexdigit n) = Some n"
  by (auto simp: hexval_def hexdigit_def Let_def of_char_of)

lemma quote_char_head: "\<exists>q r. quote_char c = q # r \<and> q \<noteq> CHR 0x22"
  by (auto simp: quote_char_def html_safe_def)

lemma unquote_quote_char: "unquote_char (quote_char c @ r) = Some (c, r)"
proof -
  have hex: "hexval (hexdigit (of_char c div 16)) = Some (of_char c div 16)"
    "hexval (hexdigit (of_char c mod 16)) = Some (of_char c mod 16)"
  proof -
    have "(of_char c :: nat) < 256" using of_char_mod_256 [of c, where ?'a = nat] by (metis mod_less_divisor zero_less_numeral)
    then show "hexval (hexdigit (of_char c div 16)) = Some (of_char c div 16)"
      by (intro hexval_hexdigit) linarith
  qed (simp add: hexval_hexdigit)
  have small: "(of_char c :: nat) div 16 < 8" if "\<not> html_safe c"
  proof -
    have "(of_char c :: nat) < 128"
      using that by (auto simp: html_safe_def)
    then show ?thesis by linarith
  qed
  show ?thesis
    using hex small by (auto simp: quote_char_def html_safe_def unescape_def unquote_char.simps(2))
qed

lemma unquote_body: "unquote (concat (map quote_char s) @ CHR 0x22 # r) = Some (s, r)"
proof (induction s)
  case Nil
  then show ?case by (simp add: unquote.simps)
next
  case (Cons c s)
  obtain q r' where q: "quote_char c = q # r'" "q \<noteq> CHR 0x22" using quote_char_head by blast
  show ?case
    using Cons unquote_quote_char [of c "concat (map quote_char s) @ CHR 0x22 # r"] q
    by (subst unquote.simps) auto
qed

lemma json_Decode_newline: "json_Decode (CHR 0x0A # s) = json_Decode s"
  by (simp add: json_Decode_def)

lemma json_Decode_Encode: "json_Decode (json_Encode kv @ s) = Some (kv, CHR 0x0A # s)"
  by (simp add: json_Decode_def json_Encode_def quote_def unquote_body)

lemma json_Decode_eof [simp]: "json_Decode [] = None" "json_Decode [CHR 0x0A] = None"
  by (simp_all add: json_Decode_def)

lemma decode_loop_newline: "decode_loop (CHR 0x0A # s) = decode_loop s"
  by (simp add: decode_loop.simps json_Decode_newline)

lemma decode_loop_encode [simp]: "decode_loop (concat (map json_Encode kvs)) = kvs"
proof (induction kvs)
  case Nil
  then show ?case by (simp add: decode_loop.simps)
next
  case (Cons kv kvs)
  then show ?case
    by (subst decode_loop.simps) (simp add: json_Decode_Encode decode_loop_newline)
qed

section \<open>Properties\<close>

text \<open>
  A stream of records written with \<^verbatim>\<open>json.Encoder\<close> is read back record by record, in order and with
  keys and values unchanged whatever characters they contain, and the reading loop stops at the end of
  the file; the encoding of a record has no line break but the one that ends it.
\<close>

theorem json_stream_roundtrip:
  "decode_loop (concat (map json_Encode kvs)) = kvs \<and>
   count_list (concat (map json_Encode kvs)) (CHR 0x0A) = length kvs"
proof -
  have hex: "hexdigit n \<noteq> CHR 0x0A" if "n < 16" for n
  proof
    assume "hexdigit n = CHR 0x0A"
    then have "(of_char (hexdigit n) :: nat) = 10" by simp
    then show False using that by (auto simp: hexdigit_def of_char_of split: if_splits)
  qed
  have "(of_char c :: nat) div 16 < 16" for c
    using nat_of_char_less_256 [of c] by linarith
  then have h: "hexdigit (of_char c div 16) \<noteq> CHR 0x0A" "hexdigit (of_char c mod 16) \<noteq> CHR 0x0A" for c
    by (simp_all add: hex)
  have "CHR 0x0A \<notin> set (quote_char c)" for c
    by (simp add: quote_char_def html_safe_def h [symmetric] h)
  then have q: "count_list (quote s) (CHR 0x0A) = 0" for s
    by (induction s) (auto simp: quote_def count_list_append count_list_0_iff)
  have "count_list (json_Encode kv) (CHR 0x0A) = 1" for kv
    by (simp add: json_Encode_def q)
  then have "count_list (concat (map json_Encode kvs)) (CHR 0x0A) = length kvs"
    by (induction kvs) simp_all
  then show ?thesis by simp
qed

end
