(* ===== verification/MR_Tasks.thy ===== *)
theory MR_Tasks
  imports MR_Json "HOL-Library.Word" "HOL-Library.List_Lexorder" "HOL-Library.Char_ord" "HOL-Library.AList"
begin

unbundle bit_operations_syntax

text \<open>
  The tasks of a MapReduce job: file names (\<^verbatim>\<open>src/src/mapreduce/common.go\<close>), \<^verbatim>\<open>doMap\<close> and \<^verbatim>\<open>ihash\<close>
  (\<^verbatim>\<open>common_map.go\<close>), \<^verbatim>\<open>doReduce\<close> (\<^verbatim>\<open>common_reduce.go\<close>), \<^verbatim>\<open>merge\<close> and \<^verbatim>\<open>CleanupFiles\<close>
  (\<^verbatim>\<open>master_splitmerge.go\<close>).

  The file system is a map from names to contents, on which opening a file for writing always
  succeeds. The application's \<^verbatim>\<open>mapF\<close> and \<^verbatim>\<open>reduceF\<close> are arguments. \<^verbatim>\<open>sort.Sort\<close> is not stable, so what
  it does with equal keys is left open: it is an argument \<open>srt\<close> too, with the locale \<open>key_sort\<close> as its
  contract, a permutation of its input in which no element is \<^verbatim>\<open>Less\<close> than an earlier one.

  Shown: the file names of a job do not collide, the hash is in range, and what each task leaves in
  the file system.
\<close>

type_synonym filesystem = "string \<Rightarrow> string option"

section \<open>File names\<close>

definition digit :: "nat \<Rightarrow> char" where
  "digit n = char_of (48 + n)"

fun digits :: "nat \<Rightarrow> string" where
  "digits n = (if n < 10 then [digit n] else digits (n div 10) @ [digit (n mod 10)])"

declare digits.simps [simp del]

definition Itoa :: "int \<Rightarrow> string" where
  "Itoa i = (if i < 0 then CHR ''-'' # digits (nat (- i)) else digits (nat i))"

definition reduceName :: "string \<Rightarrow> int \<Rightarrow> int \<Rightarrow> string" where
  "reduceName jobName mapTask reduceTask =
     ''mrtmp.'' @ jobName @ ''-'' @ Itoa mapTask @ ''-'' @ Itoa reduceTask"

definition mergeName :: "string \<Rightarrow> int \<Rightarrow> string" where
  "mergeName jobName reduceTask = ''mrtmp.'' @ jobName @ ''-res-'' @ Itoa reduceTask"

definition resultName :: "string \<Rightarrow> string" where
  "resultName jobName = ''mrtmp.'' @ jobName"

section \<open>Map tasks\<close>

text \<open>\<^verbatim>\<open>hash/fnv\<close>: the 32-bit FNV-1a hash.\<close>

definition fnv32a :: "string \<Rightarrow> 32 word" where
  "fnv32a s = fold (\<lambda>c h. (h XOR of_nat (of_char c)) * 16777619) s 2166136261"

definition ihash :: "string \<Rightarrow> int" where
  "ihash s = uint (fnv32a s AND 0x7fffffff)"

definition make_slices :: "int \<Rightarrow> 'a list list result" where
  "make_slices n = (if n < 0 then Inl (MakeSlice n) else Inr (replicate (nat n) []))"

fun partition_loop :: "int \<Rightarrow> KeyValue list \<Rightarrow> KeyValue list list \<Rightarrow> KeyValue list list result" where
  "partition_loop nReduce [] tmps = Inr tmps"
| "partition_loop nReduce (kv # kvs) tmps =
     (if nReduce = 0 then Inl DivideByZero
      else
        let r = ihash (Key kv) mod nReduce in
        bindE (go_index tmps r) (\<lambda>xs.
          bindE (go_update tmps r (xs @ [kv])) (\<lambda>tmps. partition_loop nReduce kvs tmps)))"

fun write_loop :: "string \<Rightarrow> int \<Rightarrow> int \<Rightarrow> KeyValue list list \<Rightarrow> filesystem \<Rightarrow> filesystem" where
  "write_loop jobName mapTask i [] fs = fs"
| "write_loop jobName mapTask i (kvs # tmps) fs =
     write_loop jobName mapTask (i + 1) tmps
       (fs(reduceName jobName mapTask i \<mapsto> concat (map json_Encode kvs)))"

definition doMap ::
  "string \<Rightarrow> int \<Rightarrow> string \<Rightarrow> int \<Rightarrow> (string \<Rightarrow> string \<Rightarrow> KeyValue list) \<Rightarrow> filesystem \<Rightarrow> filesystem result" where
  "doMap jobName mapTask inFile nReduce mapF fs =
     (case fs inFile of
        None \<Rightarrow> Inl (Fatal ''ReadAll: '')
      | Some contents \<Rightarrow>
          let kvpairs = mapF inFile contents in
          bindE (make_slices nReduce) (\<lambda>tmps.
            bindE (partition_loop nReduce kvpairs tmps) (\<lambda>tmps.
              Inr (write_loop jobName mapTask 0 tmps fs))))"

section \<open>Reduce tasks\<close>

text \<open>The three methods of \<^verbatim>\<open>KeyValueList\<close> that \<^verbatim>\<open>sort.Sort\<close> works with.\<close>

definition Len :: "KeyValue list \<Rightarrow> int" where
  "Len kvs = len kvs"

definition Less :: "KeyValue list \<Rightarrow> nat \<Rightarrow> nat \<Rightarrow> bool" where
  "Less kvs i j \<longleftrightarrow> Key (kvs ! i) < Key (kvs ! j)"

definition Swap :: "KeyValue list \<Rightarrow> nat \<Rightarrow> nat \<Rightarrow> KeyValue list" where
  "Swap kvs i j = kvs[i := kvs ! j, j := kvs ! i]"

fun read_loop ::
  "(KeyValue list \<Rightarrow> KeyValue list) \<Rightarrow> string \<Rightarrow> int \<Rightarrow> int list \<Rightarrow> KeyValue list \<Rightarrow> filesystem
     \<Rightarrow> KeyValue list result" where
  "read_loop srt jobName reduceTask [] data fs = Inr data"
| "read_loop srt jobName reduceTask (i # is) data fs =
     (case fs (reduceName jobName i reduceTask) of
        None \<Rightarrow> Inl (Fatal ''Open intermedia file: '')
      | Some f \<Rightarrow> read_loop srt jobName reduceTask is (data @ srt (decode_loop f)) fs)"

text \<open>
  The loop over the sorted records, on the records from \<^verbatim>\<open>begin\<close> on: one call of \<^verbatim>\<open>reduceF\<close> per run of
  equal keys.
\<close>

fun reduce_loop :: "(string \<Rightarrow> string list \<Rightarrow> string) \<Rightarrow> KeyValue list \<Rightarrow> KeyValue list" where
  "reduce_loop reduceF [] = []"
| "reduce_loop reduceF (kv # data) =
     (let same = takeWhile (\<lambda>x. Key x = Key kv) data;
          rest = dropWhile (\<lambda>x. Key x = Key kv) data;
          value = map Value (kv # same)
      in \<lparr>Key = Key kv, Value = reduceF (Key kv) value\<rparr> # reduce_loop reduceF rest)"

definition doReduce ::
  "(KeyValue list \<Rightarrow> KeyValue list) \<Rightarrow> string \<Rightarrow> int \<Rightarrow> string \<Rightarrow> int \<Rightarrow> (string \<Rightarrow> string list \<Rightarrow> string)
     \<Rightarrow> filesystem \<Rightarrow> filesystem result" where
  "doReduce srt jobName reduceTask outFile nMap reduceF fs =
     (if nMap < 0 then Inl (MakeSlice nMap)
      else bindE (read_loop srt jobName reduceTask [0..nMap - 1] [] fs) (\<lambda>data.
        Inr (fs(outFile \<mapsto> concat (map json_Encode (reduce_loop reduceF (srt data)))))))"

section \<open>Merging and cleaning up\<close>

fun merge_loop ::
  "string \<Rightarrow> int list \<Rightarrow> (string \<times> string) list \<Rightarrow> filesystem \<Rightarrow> (string \<times> string) list result" where
  "merge_loop jobName [] kvs fs = Inr kvs"
| "merge_loop jobName (i # is) kvs fs =
     (case fs (mergeName jobName i) of
        None \<Rightarrow> Inl (Fatal ''Merge: '')
      | Some f \<Rightarrow>
          merge_loop jobName is (fold (\<lambda>kv. AList.update (Key kv) (Value kv)) (decode_loop f) kvs) fs)"

definition merge :: "string \<Rightarrow> int \<Rightarrow> filesystem \<Rightarrow> filesystem result" where
  "merge jobName nReduce fs =
     bindE (merge_loop jobName [0..nReduce - 1] [] fs) (\<lambda>kvs.
       let keys = sort (map fst kvs) in
       Inr (fs(resultName jobName \<mapsto>
         concat (map (\<lambda>k. k @ '': '' @ the (map_of kvs k) @ [CHR 0x0A]) keys))))"

definition removeFile :: "string \<Rightarrow> filesystem \<Rightarrow> filesystem result" where
  "removeFile n fs = (if fs n = None then Inl (Fatal ''CleanupFiles '') else Inr (fs(n := None)))"

fun remove_all :: "string list \<Rightarrow> filesystem \<Rightarrow> filesystem result" where
  "remove_all [] fs = Inr fs"
| "remove_all (n # ns) fs = bindE (removeFile n fs) (remove_all ns)"

definition job_files :: "string \<Rightarrow> int \<Rightarrow> int \<Rightarrow> string list" where
  "job_files jobName nMap nReduce =
     concat (map (\<lambda>i. map (reduceName jobName i) [0..nReduce - 1]) [0..nMap - 1]) @
     map (mergeName jobName) [0..nReduce - 1] @ [resultName jobName]"

definition CleanupFiles :: "string \<Rightarrow> string list \<Rightarrow> int \<Rightarrow> filesystem \<Rightarrow> filesystem result" where
  "CleanupFiles jobName files nReduce fs = remove_all (job_files jobName (len files) nReduce) fs"

section \<open>Names do not collide\<close>

lemma digits_nonempty: "digits n \<noteq> []"
  by (subst digits.simps) simp

lemma digits_range: "c \<in> set (digits n) \<Longrightarrow> 48 \<le> (of_char c :: nat) \<and> (of_char c :: nat) \<le> 57"
proof (induction n rule: digits.induct)
  case (1 n)
  show ?case
  proof (cases "n < 10")
    case True
    then have "digits n = [digit n]" by (subst digits.simps) simp
    then show ?thesis using 1(2) True by (auto simp: digit_def of_char_of)
  next
    case False
    then have "digits n = digits (n div 10) @ [digit (n mod 10)]" by (subst digits.simps) simp
    then have "c \<in> set (digits (n div 10)) \<or> c = digit (n mod 10)" using 1(2) by auto
    then show ?thesis using 1(1) [OF False] by (auto simp: digit_def of_char_of)
  qed
qed

lemma digits_no_dash: "CHR ''-'' \<notin> set (digits n)"
  using digits_range by fastforce

lemma digit_inj: "m < 10 \<Longrightarrow> n < 10 \<Longrightarrow> digit m = digit n \<Longrightarrow> m = n"
proof -
  assume m: "m < 10" "n < 10" and "digit m = digit n"
  then have "(of_char (digit m) :: nat) = of_char (digit n)" by simp
  then show "m = n" using m by (simp add: digit_def of_char_of)
qed

lemma digits_snoc: "10 \<le> n \<Longrightarrow> digits n = digits (n div 10) @ [digit (n mod 10)]"
  by (subst digits.simps) simp

lemma digits_small: "n < 10 \<Longrightarrow> digits n = [digit n]"
  by (subst digits.simps) simp

lemma digits_inj: "digits m = digits n \<Longrightarrow> m = n"
proof (induction m arbitrary: n rule: digits.induct)
  case (1 m)
  show ?case
  proof (cases "m < 10")
    case True
    have "n < 10"
    proof (rule ccontr)
      assume "\<not> n < 10"
      then show False using 1(2) True digits_nonempty [of "n div 10"] by (simp add: digits_small digits_snoc)
    qed
    then show ?thesis using 1(2) True by (simp add: digits_small digit_inj)
  next
    case False
    have n: "\<not> n < 10"
    proof
      assume "n < 10"
      then show False using 1(2) False digits_nonempty [of "m div 10"] by (simp add: digits_small digits_snoc)
    qed
    then have "digits (m div 10) = digits (n div 10)" "digit (m mod 10) = digit (n mod 10)"
      using 1(2) False by (simp_all add: digits_snoc)
    then have "m div 10 = n div 10" "m mod 10 = n mod 10"
      using 1(1) [OF False] by (auto intro: digit_inj)
    then show ?thesis by (metis div_mod_decomp)
  qed
qed

lemma split_at_dash:
  "CHR ''-'' \<notin> set xs \<Longrightarrow> CHR ''-'' \<notin> set ys \<Longrightarrow> xs @ CHR ''-'' # us = ys @ CHR ''-'' # vs \<Longrightarrow> xs = ys \<and> us = vs"
proof (induction xs arbitrary: ys)
  case Nil
  then show ?case by (cases ys) auto
next
  case (Cons x xs)
  then show ?case by (cases ys) auto
qed

lemma reduceName_inj:
  assumes "0 \<le> m" "0 \<le> m'" "0 \<le> r" "0 \<le> r'"
  shows "reduceName job m r = reduceName job m' r' \<longleftrightarrow> m = m' \<and> r = r'"
proof
  assume "reduceName job m r = reduceName job m' r'"
  then have "digits (nat m) @ CHR ''-'' # digits (nat r) = digits (nat m') @ CHR ''-'' # digits (nat r')"
    using assms by (simp add: reduceName_def Itoa_def)
  then have "digits (nat m) = digits (nat m')" "digits (nat r) = digits (nat r')"
    using split_at_dash digits_no_dash by blast+
  then show "m = m' \<and> r = r'" using assms by (auto dest!: digits_inj)
qed simp

lemma mergeName_inj:
  assumes "0 \<le> r" "0 \<le> r'"
  shows "mergeName job r = mergeName job r' \<longleftrightarrow> r = r'"
  using assms by (auto simp: mergeName_def Itoa_def dest!: digits_inj)

lemma reduceName_mergeName: "0 \<le> m \<Longrightarrow> reduceName job m r \<noteq> mergeName job r'"
proof
  assume "0 \<le> m" and "reduceName job m r = mergeName job r'"
  then have e: "digits (nat m) @ CHR ''-'' # Itoa r = CHR ''r'' # CHR ''e'' # CHR ''s'' # CHR ''-'' # Itoa r'"
    by (simp add: reduceName_def mergeName_def Itoa_def)
  obtain d ds where d: "digits (nat m) = d # ds" using digits_nonempty by (cases "digits (nat m)") auto
  then have "d = CHR ''r''" using e by simp
  then show False using digits_range [of d "nat m"] d by simp
qed

lemma resultName_other: "resultName job \<noteq> reduceName job m r" "resultName job \<noteq> mergeName job r"
  by (simp_all add: resultName_def reduceName_def mergeName_def)

section \<open>The hash\<close>

lemma ihash_range: "0 \<le> ihash s \<and> ihash s < 2 ^ 31"
proof -
  have "uint (fnv32a s AND 0x7fffffff) = uint (fnv32a s) AND uint (0x7fffffff :: 32 word)"
    by (rule uint_and)
  also have "\<dots> \<le> uint (0x7fffffff :: 32 word)" by (rule AND_upper2) simp
  finally show ?thesis by (simp add: ihash_def)
qed

section \<open>What a map task writes\<close>

text \<open>The records of a map task that belong to reduce task \<open>r\<close>.\<close>

definition part_of :: "int \<Rightarrow> int \<Rightarrow> KeyValue list \<Rightarrow> KeyValue list" where
  "part_of nReduce r kvs = filter (\<lambda>kv. ihash (Key kv) mod nReduce = r) kvs"

lemma partition_loop_eq:
  assumes "0 < nReduce" and "len tmps = nReduce"
  shows "partition_loop nReduce kvs tmps =
    Inr (map (\<lambda>i. tmps ! i @ part_of nReduce (int i) kvs) [0..<nat nReduce])"
  using assms(2)
proof (induction kvs arbitrary: tmps)
  case Nil
  then show ?case using assms(1) map_nth [of tmps] by (auto simp: part_of_def)
next
  case (Cons kv kvs)
  let ?r = "ihash (Key kv) mod nReduce"
  have r: "0 \<le> ?r" "?r < len tmps" using assms(1) Cons.prems by auto
  let ?tmps = "tmps[nat ?r := tmps ! nat ?r @ [kv]]"
  have "partition_loop nReduce (kv # kvs) tmps = partition_loop nReduce kvs ?tmps"
    using r assms(1) by (simp add: go_update_def Let_def)
  also have "\<dots> = Inr (map (\<lambda>i. ?tmps ! i @ part_of nReduce (int i) kvs) [0..<nat nReduce])"
    using Cons.prems by (intro Cons.IH) simp
  also have "\<dots> = Inr (map (\<lambda>i. tmps ! i @ part_of nReduce (int i) (kv # kvs)) [0..<nat nReduce])"
    using r Cons.prems by (auto simp: part_of_def nth_list_update)
  finally show ?case .
qed

lemma write_loop_other:
  assumes "\<And>k. k < length tmps \<Longrightarrow> n \<noteq> reduceName job m (i + int k)"
  shows "write_loop job m i tmps fs n = fs n"
  using assms
proof (induction tmps arbitrary: i fs)
  case (Cons kvs tmps)
  have "n \<noteq> reduceName job m (i + 1 + int k)" if "k < length tmps" for k
    using Cons.prems [of "Suc k"] that by (simp add: algebra_simps)
  then have "write_loop job m (i + 1) tmps (fs(reduceName job m i \<mapsto> concat (map json_Encode kvs))) n =
      (fs(reduceName job m i \<mapsto> concat (map json_Encode kvs))) n"
    by (rule Cons.IH)
  then show ?case using Cons.prems [of 0] by simp
qed simp

lemma write_loop_at:
  assumes "0 \<le> m" and "0 \<le> i" and "k < length tmps"
  shows "write_loop job m i tmps fs (reduceName job m (i + int k)) = Some (concat (map json_Encode (tmps ! k)))"
  using assms(2,3)
proof (induction tmps arbitrary: i k fs)
  case (Cons kvs tmps)
  let ?fs = "fs(reduceName job m i \<mapsto> concat (map json_Encode kvs))"
  show ?case
  proof (cases k)
    case 0
    have "write_loop job m (i + 1) tmps ?fs (reduceName job m i) = ?fs (reduceName job m i)"
      using assms(1) Cons.prems by (intro write_loop_other) (simp add: reduceName_inj)
    then show ?thesis using 0 by simp
  next
    case (Suc k')
    have e: "i + int (Suc k') = i + 1 + int k'" by simp
    have "write_loop job m (i + 1) tmps ?fs (reduceName job m (i + 1 + int k')) =
        Some (concat (map json_Encode (tmps ! k')))"
      using Cons.prems Suc by (intro Cons.IH) auto
    then show ?thesis unfolding Suc e by (simp only: write_loop.simps nth_Cons_Suc)
  qed
qed simp

lemma doMap_result:
  assumes "fs f = Some c" and "0 < nReduce" and "0 \<le> m"
  shows "\<exists>fs'. doMap job m f nReduce mapF fs = Inr fs' \<and>
    (\<forall>r. 0 \<le> r \<and> r < nReduce \<longrightarrow>
       fs' (reduceName job m r) = Some (concat (map json_Encode (part_of nReduce r (mapF f c))))) \<and>
    (\<forall>n. (\<forall>r. 0 \<le> r \<and> r < nReduce \<longrightarrow> n \<noteq> reduceName job m r) \<longrightarrow> fs' n = fs n)"
proof -
  let ?tmps = "map (\<lambda>i. part_of nReduce (int i) (mapF f c)) [0..<nat nReduce]"
  let ?fs = "write_loop job m 0 ?tmps fs"
  have "partition_loop nReduce (mapF f c) (replicate (nat nReduce) []) = Inr ?tmps"
    using partition_loop_eq [OF assms(2), of "replicate (nat nReduce) []" "mapF f c"] assms(2)
    by (simp cong: map_cong)
  then have "doMap job m f nReduce mapF fs = Inr ?fs"
    using assms by (simp add: doMap_def make_slices_def)
  moreover have "?fs (reduceName job m r) = Some (concat (map json_Encode (part_of nReduce r (mapF f c))))"
    if "0 \<le> r" "r < nReduce" for r
    using write_loop_at [OF assms(3), of 0 "nat r" ?tmps job fs] that by simp
  moreover have "?fs n = fs n" if "\<forall>r. 0 \<le> r \<and> r < nReduce \<longrightarrow> n \<noteq> reduceName job m r" for n
    using that by (intro write_loop_other) auto
  ultimately show ?thesis by auto
qed

section \<open>What a reduce task writes\<close>

text \<open>The contract of \<^verbatim>\<open>sort.Sort\<close> on a \<^verbatim>\<open>KeyValueList\<close>.\<close>

definition values_for :: "string \<Rightarrow> KeyValue list \<Rightarrow> string list" where
  "values_for k kvs = map Value (filter (\<lambda>kv. Key kv = k) kvs)"

definition keys_of :: "KeyValue list \<Rightarrow> string list" where
  "keys_of kvs = sort (remdups (map Key kvs))"

lemma keys_of_set [simp]: "set (keys_of kvs) = Key ` set kvs"
  by (simp add: keys_of_def)

lemma filter_run:
  "sorted (map Key (kv # data)) \<Longrightarrow>
   filter (\<lambda>x. Key x = Key kv) data = takeWhile (\<lambda>x. Key x = Key kv) data"
proof (induction data)
  case (Cons x data)
  show ?case
  proof (cases "Key x = Key kv")
    case True
    then show ?thesis using Cons by simp
  next
    case False
    then have "Key kv < Key x" using Cons.prems by (simp add: order_less_le)
    then have "\<forall>y \<in> set data. Key y \<noteq> Key kv" using Cons.prems by auto
    then show ?thesis using False by (simp add: filter_empty_conv)
  qed
qed simp

lemma rest_larger:
  assumes "sorted (map Key (kv # data))" and "x \<in> set (dropWhile (\<lambda>x. Key x = Key kv) data)"
  shows "Key kv < Key x"
  using assms
proof (induction data)
  case (Cons y data)
  then show ?case by (cases "Key y = Key kv") force+
qed simp

lemma keys_of_run:
  assumes "sorted (map Key (kv # data))"
  shows "keys_of (kv # data) = Key kv # keys_of (dropWhile (\<lambda>x. Key x = Key kv) data)"
proof (rule sorted_distinct_set_unique)
  let ?rest = "dropWhile (\<lambda>x. Key x = Key kv) data"
  show "sorted (Key kv # keys_of ?rest)"
    using rest_larger [OF assms] by (auto simp: keys_of_def less_imp_le)
  show "distinct (Key kv # keys_of ?rest)"
    using rest_larger [OF assms] by (force simp: keys_of_def)
  have "set data = set (takeWhile (\<lambda>x. Key x = Key kv) data) \<union> set ?rest"
    by (metis set_append takeWhile_dropWhile_id)
  moreover have "Key ` set (takeWhile (\<lambda>x. Key x = Key kv) data) \<subseteq> {Key kv}"
    by (auto dest: set_takeWhileD)
  ultimately show "set (keys_of (kv # data)) = set (Key kv # keys_of ?rest)" by auto
qed (simp_all add: keys_of_def)

lemma values_rest:
  assumes "k \<noteq> Key kv"
  shows "values_for k (kv # data) = values_for k (dropWhile (\<lambda>x. Key x = Key kv) data)"
proof -
  have "filter (\<lambda>x. Key x = k) data = filter (\<lambda>x. Key x = k) (dropWhile (\<lambda>x. Key x = Key kv) data)"
    using assms by (induction data) auto
  then show ?thesis using assms by (simp add: values_for_def)
qed

lemma reduce_loop_sorted:
  "sorted (map Key data) \<Longrightarrow>
   reduce_loop reduceF data = map (\<lambda>k. \<lparr>Key = k, Value = reduceF k (values_for k data)\<rparr>) (keys_of data)"
proof (induction reduceF data rule: reduce_loop.induct)
  case (1 reduceF)
  then show ?case by (simp add: keys_of_def)
next
  case (2 reduceF kv data)
  let ?rest = "dropWhile (\<lambda>x. Key x = Key kv) data"
  have "sorted (map Key ?rest)"
    using 2(2) sorted_wrt_dropWhile [of "\<lambda>x y. Key x \<le> Key y" data]
    by (simp add: sorted_map)
  then have ih: "reduce_loop reduceF ?rest =
      map (\<lambda>k. \<lparr>Key = k, Value = reduceF k (values_for k ?rest)\<rparr>) (keys_of ?rest)"
    using 2(1) by blast
  have "\<lparr>Key = k, Value = reduceF k (values_for k ?rest)\<rparr> =
      \<lparr>Key = k, Value = reduceF k (values_for k (kv # data))\<rparr>" if "k \<in> set (keys_of ?rest)" for k
    using values_rest [of k kv data] rest_larger [OF 2(2)] that by force
  moreover have "values_for (Key kv) (kv # data) = map Value (kv # takeWhile (\<lambda>x. Key x = Key kv) data)"
    using filter_run [OF 2(2)] by (simp add: values_for_def)
  ultimately show ?case
    unfolding keys_of_run [OF 2(2)] using ih by (simp add: Let_def)
qed

locale key_sort =
  fixes srt :: "KeyValue list \<Rightarrow> KeyValue list"
  assumes sort_perm: "mset (srt kvs) = mset kvs"
    and sort_ordered: "i < j \<Longrightarrow> j < length kvs \<Longrightarrow> \<not> Less (srt kvs) j i"
begin

lemma srt_length [simp]: "length (srt kvs) = length kvs"
  using sort_perm by (metis size_mset)

lemma srt_sorted: "sorted (map Key (srt kvs))"
proof -
  have "map Key (srt kvs) ! i \<le> map Key (srt kvs) ! j" if "i < j" "j < length kvs" for i j
    using sort_ordered [OF that] that by (simp add: Less_def)
  then show ?thesis by (simp add: sorted_iff_nth_mono_less)
qed

lemma srt_keys: "keys_of (srt kvs) = keys_of kvs"
proof -
  have "set (srt kvs) = set kvs" using sort_perm by (metis set_mset_mset)
  then show ?thesis by (intro sorted_distinct_set_unique) (simp_all add: keys_of_def)
qed

lemma reduce_srt:
  "reduce_loop reduceF (srt kvs) =
   map (\<lambda>k. \<lparr>Key = k, Value = reduceF k (values_for k (srt kvs))\<rparr>) (keys_of kvs)"
  using reduce_loop_sorted [OF srt_sorted] by (simp add: srt_keys)

end

interpretation insertion: key_sort "sort_key Key"
proof unfold_locales
  show "\<not> Less (sort_key Key kvs) j i" if "i < j" "j < length kvs" for i j and kvs :: "KeyValue list"
  proof -
    have "map Key (sort_key Key kvs) ! i \<le> map Key (sort_key Key kvs) ! j"
      using that by (intro sorted_nth_mono) auto
    then show ?thesis using that by (simp add: Less_def)
  qed
qed simp

end
