(* ===== verification/MR_Job.thy ===== *)
theory MR_Job
  imports MR_Tasks
begin

text \<open>
  A whole MapReduce job: the master's record, \<^verbatim>\<open>run\<close> and \<^verbatim>\<open>Sequential\<close> of
  \<^verbatim>\<open>src/src/mapreduce/master.go\<close>.

  \<open>map_tasks\<close> and \<open>reduce_tasks\<close> execute the tasks with the given numbers, in the given order;
  \<^verbatim>\<open>Sequential\<close> runs each task once in ascending order, the scheduler of theory \<open>MR_Schedule\<close> in any
  order and, after a worker failure, more than once. Shown: the order and the repetitions make no
  difference, and the result file is the one the abstract specification \<open>mr_spec\<close> describes.
\<close>

section \<open>The job\<close>

datatype jobPhase = mapPhase | reducePhase

record Master =
  address :: string
  workers :: "string list"
  jobName :: string
  files :: "string list"
  nReduce :: int
  stats :: "int list"

definition newMaster :: "string \<Rightarrow> Master" where
  "newMaster master =
     \<lparr>address = master, workers = [], jobName = [], files = [], nReduce = 0, stats = []\<rparr>"

type_synonym mapper = "string \<Rightarrow> string \<Rightarrow> KeyValue list"
type_synonym reducer = "string \<Rightarrow> string list \<Rightarrow> string"
type_synonym sorter = "KeyValue list \<Rightarrow> KeyValue list"

fun map_tasks :: "string \<Rightarrow> string list \<Rightarrow> int \<Rightarrow> mapper \<Rightarrow> int list \<Rightarrow> filesystem \<Rightarrow> filesystem result" where
  "map_tasks job fls nR mapF [] fs = Inr fs"
| "map_tasks job fls nR mapF (i # is) fs =
     bindE (go_index fls i) (\<lambda>f.
       bindE (doMap job i f nR mapF fs) (\<lambda>fs. map_tasks job fls nR mapF is fs))"

fun reduce_tasks :: "sorter \<Rightarrow> string \<Rightarrow> int \<Rightarrow> reducer \<Rightarrow> int list \<Rightarrow> filesystem \<Rightarrow> filesystem result" where
  "reduce_tasks srt job nMap reduceF [] fs = Inr fs"
| "reduce_tasks srt job nMap reduceF (i # is) fs =
     bindE (doReduce srt job i (mergeName job i) nMap reduceF fs) (\<lambda>fs.
       reduce_tasks srt job nMap reduceF is fs)"

definition run ::
  "string \<Rightarrow> string list \<Rightarrow> int \<Rightarrow> (Master \<Rightarrow> jobPhase \<Rightarrow> filesystem \<Rightarrow> filesystem result)
     \<Rightarrow> (Master \<Rightarrow> Master) \<Rightarrow> Master \<Rightarrow> filesystem \<Rightarrow> (Master \<times> filesystem) result" where
  "run job fls nR sched finish mr fs =
     (let mr = mr\<lparr>jobName := job, files := fls, nReduce := nR\<rparr> in
      bindE (sched mr mapPhase fs) (\<lambda>fs.
        bindE (sched mr reducePhase fs) (\<lambda>fs.
          let mr = finish mr in
          bindE (merge (jobName mr) (nReduce mr) fs) (\<lambda>fs. Inr (mr, fs)))))"

definition Sequential ::
  "sorter \<Rightarrow> string \<Rightarrow> string list \<Rightarrow> int \<Rightarrow> mapper \<Rightarrow> reducer \<Rightarrow> filesystem \<Rightarrow> (Master \<times> filesystem) result" where
  "Sequential srt job fls nR mapF reduceF fs =
     run job fls nR
       (\<lambda>mr phase fs.
          case phase of
            mapPhase \<Rightarrow> map_tasks (jobName mr) (files mr) (nReduce mr) mapF [0..len (files mr) - 1] fs
          | reducePhase \<Rightarrow>
              reduce_tasks srt (jobName mr) (len (files mr)) reduceF [0..nReduce mr - 1] fs)
       (\<lambda>mr. mr\<lparr>stats := [len fls + nR]\<rparr>)
       (newMaster ''master'') fs"

section \<open>The specification\<close>

text \<open>
  What a job computes, without files or partitions: all records the map function produces, grouped by
  key, reduced, and printed in the order of the keys.
\<close>

definition records_of :: "mapper \<Rightarrow> filesystem \<Rightarrow> string \<Rightarrow> KeyValue list" where
  "records_of mapF fs f = mapF f (the (fs f))"

definition all_records :: "mapper \<Rightarrow> filesystem \<Rightarrow> string list \<Rightarrow> KeyValue list" where
  "all_records mapF fs fls = concat (map (records_of mapF fs) fls)"

definition print_line :: "string \<Rightarrow> string \<Rightarrow> string" where
  "print_line k v = k @ '': '' @ v @ [CHR 0x0A]"

definition mr_spec :: "mapper \<Rightarrow> reducer \<Rightarrow> filesystem \<Rightarrow> string list \<Rightarrow> string" where
  "mr_spec mapF reduceF fs fls =
     (let kvs = all_records mapF fs fls in
      concat (map (\<lambda>k. print_line k (reduceF k (values_for k kvs))) (keys_of kvs)))"

text \<open>
  What a job relies on: the input files exist and none has the name of an intermediate file, and the
  result of the reduce function does not depend on the order of the values.
\<close>

definition intermediate :: "string \<Rightarrow> int \<Rightarrow> int \<Rightarrow> string \<Rightarrow> bool" where
  "intermediate job nMap nR n \<longleftrightarrow> (\<exists>m r. 0 \<le> m \<and> m < nMap \<and> 0 \<le> r \<and> r < nR \<and> n = reduceName job m r)"

definition inputs_ok :: "string \<Rightarrow> string list \<Rightarrow> int \<Rightarrow> filesystem \<Rightarrow> bool" where
  "inputs_ok job fls nR fs \<longleftrightarrow> (\<forall>f \<in> set fls. fs f \<noteq> None \<and> \<not> intermediate job (len fls) nR f)"

definition order_free :: "reducer \<Rightarrow> bool" where
  "order_free reduceF \<longleftrightarrow> (\<forall>k vs vs'. mset vs = mset vs' \<longrightarrow> reduceF k vs = reduceF k vs')"

lemma job_files_iff:
  "n \<in> set (job_files job nMap nR) \<longleftrightarrow>
   intermediate job nMap nR n \<or> n \<in> mergeName job ` {0..<nR} \<or> n = resultName job"
proof -
  have "set [0..k - 1] = {0..<k}" for k :: int by auto
  then have a: "set (job_files job nMap nR) =
      (\<Union>m \<in> {0..<nMap}. reduceName job m ` {0..<nR}) \<union> mergeName job ` {0..<nR} \<union> {resultName job}"
    by (simp add: job_files_def)
  have b: "n \<in> (\<Union>m \<in> {0..<nMap}. reduceName job m ` {0..<nR}) \<longleftrightarrow>
      (\<exists>m \<in> {0..<nMap}. \<exists>r \<in> {0..<nR}. n = reduceName job m r)"
    by blast
  have c: "intermediate job nMap nR n \<longleftrightarrow> (\<exists>m \<in> {0..<nMap}. \<exists>r \<in> {0..<nR}. n = reduceName job m r)"
    unfolding intermediate_def Bex_def atLeastLessThan_iff by blast
  show ?thesis by (simp only: a Un_iff b c singleton_iff disj_assoc)
qed

section \<open>The map phase\<close>

text \<open>The intermediate files are there: task \<open>i\<close> has written its part for every reduce task.\<close>

definition mapped :: "string \<Rightarrow> string list \<Rightarrow> int \<Rightarrow> mapper \<Rightarrow> filesystem \<Rightarrow> int \<Rightarrow> filesystem \<Rightarrow> bool" where
  "mapped job fls nR mapF fs0 i fs \<longleftrightarrow>
     (\<forall>r. 0 \<le> r \<and> r < nR \<longrightarrow> fs (reduceName job i r) =
        Some (concat (map json_Encode (part_of nR r (records_of mapF fs0 (fls ! nat i))))))"

definition same_elsewhere :: "string \<Rightarrow> int \<Rightarrow> int \<Rightarrow> filesystem \<Rightarrow> filesystem \<Rightarrow> bool" where
  "same_elsewhere job nMap nR fs fs' \<longleftrightarrow> (\<forall>n. \<not> intermediate job nMap nR n \<longrightarrow> fs' n = fs n)"

lemma doMap_mapped:
  assumes ok: "inputs_ok job fls nR fs0" and same: "same_elsewhere job (len fls) nR fs0 fs"
    and nR: "0 < nR" and i: "0 \<le> i" "i < len fls"
  shows "\<exists>fs'. doMap job i (fls ! nat i) nR mapF fs = Inr fs' \<and> same_elsewhere job (len fls) nR fs0 fs' \<and>
    mapped job fls nR mapF fs0 i fs' \<and>
    (\<forall>j. 0 \<le> j \<longrightarrow> mapped job fls nR mapF fs0 j fs \<longrightarrow> mapped job fls nR mapF fs0 j fs')"
proof -
  let ?f = "fls ! nat i"
  have "?f \<in> set fls" using i by simp
  then have f: "fs ?f = fs0 ?f" "fs0 ?f = Some (the (fs0 ?f))"
    using ok same by (auto simp: inputs_ok_def same_elsewhere_def)
  obtain fs' where d: "doMap job i ?f nR mapF fs = Inr fs'"
      and new: "\<forall>r. 0 \<le> r \<and> r < nR \<longrightarrow> fs' (reduceName job i r) =
        Some (concat (map json_Encode (part_of nR r (mapF ?f (the (fs0 ?f))))))"
      and old: "\<forall>n. (\<forall>r. 0 \<le> r \<and> r < nR \<longrightarrow> n \<noteq> reduceName job i r) \<longrightarrow> fs' n = fs n"
    using doMap_result [of fs ?f "the (fs0 ?f)" nR i job mapF] f nR i by auto
  have m: "mapped job fls nR mapF fs0 i fs'" using new by (simp add: mapped_def records_of_def)
  have "mapped job fls nR mapF fs0 j fs'" if j: "0 \<le> j" "mapped job fls nR mapF fs0 j fs" for j
  proof (cases "j = i")
    case False
    then have "fs' (reduceName job j r) = fs (reduceName job j r)" if "0 \<le> r" for r
      using old i j(1) that by (simp add: reduceName_inj)
    then show ?thesis using j(2) by (simp add: mapped_def)
  qed (use m in simp)
  moreover have "same_elsewhere job (len fls) nR fs0 fs'"
    using same old i unfolding same_elsewhere_def intermediate_def by metis
  ultimately show ?thesis using d m by blast
qed

lemma map_tasks_mapped:
  assumes "inputs_ok job fls nR fs0" and "same_elsewhere job (len fls) nR fs0 fs" and "0 < nR"
    and "set is \<subseteq> {0..<len fls}"
  shows "\<exists>fs'. map_tasks job fls nR mapF is fs = Inr fs' \<and> same_elsewhere job (len fls) nR fs0 fs' \<and>
    (\<forall>i \<in> set is. mapped job fls nR mapF fs0 i fs') \<and>
    (\<forall>j. 0 \<le> j \<longrightarrow> mapped job fls nR mapF fs0 j fs \<longrightarrow> mapped job fls nR mapF fs0 j fs')"
  using assms(2,4)
proof (induction "is" arbitrary: fs)
  case Nil
  then show ?case by simp
next
  case (Cons i "is")
  have i: "0 \<le> i" "i < len fls" using Cons.prems by auto
  obtain fs1 where 1: "doMap job i (fls ! nat i) nR mapF fs = Inr fs1" "same_elsewhere job (len fls) nR fs0 fs1"
      "mapped job fls nR mapF fs0 i fs1"
      "\<forall>j. 0 \<le> j \<longrightarrow> mapped job fls nR mapF fs0 j fs \<longrightarrow> mapped job fls nR mapF fs0 j fs1"
    using doMap_mapped [OF assms(1) Cons.prems(1) assms(3) i] by blast
  obtain fs2 where 2: "map_tasks job fls nR mapF is fs1 = Inr fs2" "same_elsewhere job (len fls) nR fs0 fs2"
      "\<forall>i \<in> set is. mapped job fls nR mapF fs0 i fs2"
      "\<forall>j. 0 \<le> j \<longrightarrow> mapped job fls nR mapF fs0 j fs1 \<longrightarrow> mapped job fls nR mapF fs0 j fs2"
    using Cons.IH [OF 1(2)] Cons.prems(2) by auto
  have "map_tasks job fls nR mapF (i # is) fs = Inr fs2" using 1(1) 2(1) i by simp
  then show ?case using 1(3,4) 2 i by auto
qed

lemma same_elsewhere_refl [simp]: "same_elsewhere job nMap nR fs fs"
  by (simp add: same_elsewhere_def)

section \<open>The reduce phase\<close>

text \<open>What reduce task \<open>r\<close> sees: its part of every map task's records, each sorted.\<close>

definition reduce_input :: "sorter \<Rightarrow> int \<Rightarrow> mapper \<Rightarrow> filesystem \<Rightarrow> string list \<Rightarrow> int \<Rightarrow> KeyValue list" where
  "reduce_input srt nR mapF fs fls r = concat (map (\<lambda>f. srt (part_of nR r (records_of mapF fs f))) fls)"

lemma read_loop_mapped:
  assumes "0 \<le> r" "r < nR" and "\<forall>i \<in> set is. mapped job fls nR mapF fs0 i fs"
  shows "read_loop srt job r is data fs =
    Inr (data @ concat (map (\<lambda>i. srt (part_of nR r (records_of mapF fs0 (fls ! nat i)))) is))"
  using assms(3)
proof (induction "is" arbitrary: data)
  case (Cons i "is")
  then have "fs (reduceName job i r) =
      Some (concat (map json_Encode (part_of nR r (records_of mapF fs0 (fls ! nat i)))))"
    using assms(1,2) by (simp add: mapped_def)
  then show ?case using Cons by simp
qed simp

lemma upto_nth: "map (\<lambda>i. g (xs ! nat i)) [0..len xs - 1] = map g xs"
  by (rule nth_equalityI) (auto simp: nth_upto)

lemma doReduce_mapped:
  assumes "0 \<le> r" "r < nR" and "\<forall>i. 0 \<le> i \<and> i < len fls \<longrightarrow> mapped job fls nR mapF fs0 i fs"
  shows "doReduce srt job r out (len fls) reduceF fs =
    Inr (fs(out \<mapsto> concat (map json_Encode (reduce_loop reduceF (srt (reduce_input srt nR mapF fs0 fls r))))))"
proof -
  have "\<forall>i \<in> set [0..len fls - 1]. mapped job fls nR mapF fs0 i fs" using assms(3) by auto
  from read_loop_mapped [OF assms(1,2) this, of srt "[]"]
  have "read_loop srt job r [0..len fls - 1] [] fs = Inr (reduce_input srt nR mapF fs0 fls r)"
    by (simp add: reduce_input_def upto_nth [of "\<lambda>f. srt (part_of nR r (records_of mapF fs0 f))"])
  then show ?thesis by (simp add: doReduce_def)
qed

lemma part_of_concat: "part_of nR r (concat xss) = concat (map (part_of nR r) xss)"
  by (induction xss) (simp_all add: part_of_def)

lemma values_part:
  assumes "k \<in> Key ` set (part_of nR r kvs)"
  shows "values_for k (part_of nR r kvs) = values_for k kvs"
proof -
  have "ihash k mod nR = r" using assms by (auto simp: part_of_def)
  then have "filter (\<lambda>kv. Key kv = k) (part_of nR r kvs) = filter (\<lambda>kv. Key kv = k) kvs"
    unfolding part_of_def filter_filter by (intro filter_cong) auto
  then show ?thesis by (simp add: values_for_def)
qed

lemma values_for_mset: "mset xs = mset ys \<Longrightarrow> mset (values_for k xs) = mset (values_for k ys)"
  by (simp add: values_for_def)

text \<open>What reduce task \<open>r\<close> writes.\<close>

definition reduced :: "int \<Rightarrow> reducer \<Rightarrow> KeyValue list \<Rightarrow> int \<Rightarrow> KeyValue list" where
  "reduced nR reduceF kvs r =
     map (\<lambda>k. \<lparr>Key = k, Value = reduceF k (values_for k kvs)\<rparr>) (keys_of (part_of nR r kvs))"

context key_sort
begin

lemma reduce_input_mset:
  "mset (reduce_input srt nR mapF fs fls r) = mset (part_of nR r (all_records mapF fs fls))"
  by (induction fls) (simp_all add: reduce_input_def all_records_def sort_perm part_of_def)

lemma reduce_output:
  assumes "order_free reduceF" and "mset data = mset (part_of nR r kvs)"
  shows "reduce_loop reduceF (srt data) = reduced nR reduceF kvs r"
proof -
  have "set data = set (part_of nR r kvs)" using assms(2) by (metis set_mset_mset)
  then have keys: "keys_of data = keys_of (part_of nR r kvs)"
    by (intro sorted_distinct_set_unique) (simp_all add: keys_of_def)
  have "reduceF k (values_for k (srt data)) = reduceF k (values_for k kvs)"
    if "k \<in> set (keys_of (part_of nR r kvs))" for k
  proof -
    have "mset (values_for k (srt data)) = mset (values_for k (part_of nR r kvs))"
      using sort_perm assms(2) by (intro values_for_mset) simp
    then have "reduceF k (values_for k (srt data)) = reduceF k (values_for k (part_of nR r kvs))"
      using assms(1) unfolding order_free_def by blast
    then show ?thesis using values_part [of k nR r kvs] that by simp
  qed
  then show ?thesis by (simp add: reduce_srt keys reduced_def)
qed

lemma doReduce_reduced:
  assumes "0 \<le> r" "r < nR" and "\<forall>i. 0 \<le> i \<and> i < len fls \<longrightarrow> mapped job fls nR mapF fs0 i fs"
    and "order_free reduceF"
  shows "doReduce srt job r out (len fls) reduceF fs =
    Inr (fs(out \<mapsto> concat (map json_Encode (reduced nR reduceF (all_records mapF fs0 fls) r))))"
  using doReduce_mapped [OF assms(1-3)] reduce_output [OF assms(4) reduce_input_mset] by simp

lemma reduce_tasks_reduced:
  assumes "set is \<subseteq> {0..<nR}" and "order_free reduceF"
    and "\<forall>i. 0 \<le> i \<and> i < len fls \<longrightarrow> mapped job fls nR mapF fs0 i fs"
  shows "\<exists>fs'. reduce_tasks srt job (len fls) reduceF is fs = Inr fs' \<and>
    (\<forall>r \<in> set is. fs' (mergeName job r) =
       Some (concat (map json_Encode (reduced nR reduceF (all_records mapF fs0 fls) r)))) \<and>
    (\<forall>n. n \<notin> mergeName job ` set is \<longrightarrow> fs' n = fs n)"
  using assms(1,3)
proof (induction "is" arbitrary: fs)
  case Nil
  then show ?case by simp
next
  case (Cons r "is")
  let ?out = "concat (map json_Encode (reduced nR reduceF (all_records mapF fs0 fls) r))"
  let ?fs = "fs(mergeName job r \<mapsto> ?out)"
  have r: "0 \<le> r" "r < nR" using Cons.prems(1) by auto
  have d: "doReduce srt job r (mergeName job r) (len fls) reduceF fs = Inr ?fs"
    by (rule doReduce_reduced [OF r Cons.prems(2) assms(2)])
  have "\<forall>i. 0 \<le> i \<and> i < len fls \<longrightarrow> mapped job fls nR mapF fs0 i ?fs"
    using Cons.prems(2) by (simp add: mapped_def reduceName_mergeName)
  from Cons.IH [OF _ this] obtain fs' where fs': "reduce_tasks srt job (len fls) reduceF is ?fs = Inr fs'"
      "\<forall>r \<in> set is. fs' (mergeName job r) =
         Some (concat (map json_Encode (reduced nR reduceF (all_records mapF fs0 fls) r)))"
      "\<forall>n. n \<notin> mergeName job ` set is \<longrightarrow> fs' n = ?fs n"
    using Cons.prems(1) by (auto simp del: fun_upd_apply)
  have "reduce_tasks srt job (len fls) reduceF (r # is) fs = Inr fs'" using d fs'(1) by simp
  moreover have "fs' (mergeName job r) = Some ?out"
    by (cases "mergeName job r \<in> mergeName job ` set is")
       (use fs' r Cons.prems(1) in \<open>auto simp: mergeName_inj\<close>)
  moreover have "\<forall>n. n \<notin> mergeName job ` set (r # is) \<longrightarrow> fs' n = fs n" using fs'(3) by simp
  ultimately show ?case using fs'(2) by auto
qed

end

section \<open>Merging\<close>

lemma merge_loop_files:
  assumes "\<forall>r \<in> set is. fs (mergeName job r) = Some (concat (map json_Encode (out r)))"
  shows "merge_loop job is kvs fs =
    Inr (fold (\<lambda>kv. AList.update (Key kv) (Value kv)) (concat (map out is)) kvs)"
  using assms by (induction "is" arbitrary: kvs) auto

text \<open>A table built from records whose value is a function of the key.\<close>

lemma update_all:
  assumes "\<forall>kv \<in> set xs. Value kv = g (Key kv)" and "\<forall>(k, v) \<in> set kvs. v = g k"
    and "distinct (map fst kvs)"
  shows "(\<forall>(k, v) \<in> set (fold (\<lambda>kv. AList.update (Key kv) (Value kv)) xs kvs). v = g k) \<and>
    distinct (map fst (fold (\<lambda>kv. AList.update (Key kv) (Value kv)) xs kvs)) \<and>
    fst ` set (fold (\<lambda>kv. AList.update (Key kv) (Value kv)) xs kvs) = fst ` set kvs \<union> Key ` set xs"
  using assms
proof (induction xs arbitrary: kvs)
  case (Cons kv xs)
  let ?kvs = "AList.update (Key kv) (Value kv) kvs"
  have "\<forall>(k, v) \<in> set ?kvs. v = g k"
  proof -
    have "set ?kvs \<subseteq> insert (Key kv, Value kv) (set kvs)"
      by (induction kvs) auto
    then show ?thesis using Cons.prems(1,2) by auto
  qed
  moreover have "distinct (map fst ?kvs)" using Cons.prems(3) by (rule distinct_update)
  moreover have "fst ` set ?kvs = insert (Key kv) (fst ` set kvs)"
    by (simp add: dom_update)
  ultimately show ?case using Cons.IH [of ?kvs] Cons.prems(1) by simp
qed simp

lemma part_keys:
  assumes "0 < nR"
  shows "(\<Union>r \<in> {0..<nR}. Key ` set (part_of nR r kvs)) = Key ` set kvs"
proof
  show "Key ` set kvs \<subseteq> (\<Union>r \<in> {0..<nR}. Key ` set (part_of nR r kvs))"
  proof
    fix k assume "k \<in> Key ` set kvs"
    then have "k \<in> Key ` set (part_of nR (ihash k mod nR) kvs)" by (auto simp: part_of_def)
    moreover have "ihash k mod nR \<in> {0..<nR}" using assms by simp
    ultimately show "k \<in> (\<Union>r \<in> {0..<nR}. Key ` set (part_of nR r kvs))" by blast
  qed
qed (auto simp: part_of_def)

lemma merge_reduced:
  assumes "0 < nR"
    and files: "\<forall>r \<in> {0..<nR}. fs (mergeName job r) = Some (concat (map json_Encode (reduced nR reduceF kvs r)))"
  shows "merge job nR fs = Inr (fs(resultName job \<mapsto>
    concat (map (\<lambda>k. print_line k (reduceF k (values_for k kvs))) (keys_of kvs))))"
proof -
  define g where "g = (\<lambda>k. reduceF k (values_for k kvs))"
  define xs where "xs = concat (map (reduced nR reduceF kvs) [0..nR - 1])"
  define tb where "tb = fold (\<lambda>kv. AList.update (Key kv) (Value kv)) xs []"
  have val: "\<forall>kv \<in> set xs. Value kv = g (Key kv)" by (auto simp: xs_def reduced_def g_def)
  have keys: "Key ` set xs = Key ` set kvs"
  proof -
    have "set [0..nR - 1] = {0..<nR}" by auto
    then have "Key ` set xs = (\<Union>r \<in> {0..<nR}. Key ` set (part_of nR r kvs))"
      by (simp add: xs_def reduced_def image_UN image_image)
    then show ?thesis using part_keys [OF assms(1)] by simp
  qed
  have tb: "\<forall>(k, v) \<in> set tb. v = g k" "distinct (map fst tb)" "fst ` set tb = Key ` set kvs"
    using update_all [OF val, of "[]"] keys by (simp_all add: tb_def)
  have srt: "sort (map fst tb) = keys_of kvs"
    using tb(2,3) by (intro sorted_distinct_set_unique) (simp_all add: keys_of_def)
  have look: "the (map_of tb k) = g k" if "k \<in> set (keys_of kvs)" for k
  proof -
    have "k \<in> fst ` set tb" using that tb(3) by simp
    then obtain v where "(k, v) \<in> set tb" by (metis imageE prod.collapse)
    then have "map_of tb k = Some v" "v = g k" using tb(1,2) by auto
    then show ?thesis by simp
  qed
  have "merge_loop job [0..nR - 1] [] fs = Inr tb"
    using merge_loop_files [of "[0..nR - 1]" fs job] files by (simp add: tb_def xs_def)
  then have "merge job nR fs = Inr (fs(resultName job \<mapsto>
      concat (map (\<lambda>k. k @ '': '' @ the (map_of tb k) @ [CHR 0x0A]) (keys_of kvs))))"
    by (simp add: merge_def srt)
  also have "map (\<lambda>k. k @ '': '' @ the (map_of tb k) @ [CHR 0x0A]) (keys_of kvs) =
      map (\<lambda>k. print_line k (reduceF k (values_for k kvs))) (keys_of kvs)"
    using look by (intro map_cong) (simp_all add: print_line_def g_def)
  finally show ?thesis .
qed

text \<open>All phases together, for any order of execution that covers all tasks.\<close>

context key_sort
begin

lemma phases_result:
  assumes "inputs_ok job fls nR fs" and "order_free reduceF" and "0 < nR"
    and "set ms = {0..<len fls}" and "set rs = {0..<nR}"
  shows "\<exists>fs1 fs2 fs3. map_tasks job fls nR mapF ms fs = Inr fs1 \<and>
    reduce_tasks srt job (len fls) reduceF rs fs1 = Inr fs2 \<and> merge job nR fs2 = Inr fs3 \<and>
    fs3 (resultName job) = Some (mr_spec mapF reduceF fs fls) \<and>
    (\<forall>n. fs3 n \<noteq> None \<or> n \<notin> set (job_files job (len fls) nR)) \<and>
    (\<forall>n. n \<notin> set (job_files job (len fls) nR) \<longrightarrow> fs3 n = fs n)"
proof -
  obtain fs1 where 1: "map_tasks job fls nR mapF ms fs = Inr fs1"
      "same_elsewhere job (len fls) nR fs fs1" "\<forall>i \<in> set ms. mapped job fls nR mapF fs i fs1"
    using map_tasks_mapped [OF assms(1) same_elsewhere_refl assms(3), of ms mapF] assms(4) by auto
  then have m: "\<forall>i. 0 \<le> i \<and> i < len fls \<longrightarrow> mapped job fls nR mapF fs i fs1" using assms(4) by auto
  then obtain fs2 where 2: "reduce_tasks srt job (len fls) reduceF rs fs1 = Inr fs2"
      "\<forall>r \<in> set rs. fs2 (mergeName job r) =
         Some (concat (map json_Encode (reduced nR reduceF (all_records mapF fs fls) r)))"
      "\<forall>n. n \<notin> mergeName job ` set rs \<longrightarrow> fs2 n = fs1 n"
    using reduce_tasks_reduced [of rs nR reduceF fls job mapF fs fs1] assms(2,5) by auto
  then have 3: "merge job nR fs2 = Inr (fs2(resultName job \<mapsto> concat (map (\<lambda>k. print_line k
      (reduceF k (values_for k (all_records mapF fs fls)))) (keys_of (all_records mapF fs fls)))))"
    using assms(3,5) by (intro merge_reduced) auto
  have "fs2 n \<noteq> None" if "n \<in> set (job_files job (len fls) nR)" "n \<noteq> resultName job" for n
  proof (cases "n \<in> mergeName job ` set rs")
    case False
    then have "intermediate job (len fls) nR n"
      using that assms(5) by (simp add: job_files_iff)
    then show ?thesis using m 2(3) False by (auto simp: intermediate_def mapped_def)
  qed (use 2(2) in auto)
  moreover have "fs2 n = fs n" if "n \<notin> set (job_files job (len fls) nR)" for n
  proof -
    have "\<not> intermediate job (len fls) nR n" "n \<notin> mergeName job ` set rs"
      using that assms(5) by (simp_all add: job_files_iff)
    then show ?thesis using 1(2) 2(3) by (simp add: same_elsewhere_def)
  qed
  moreover have "resultName job \<in> set (job_files job (len fls) nR)" by (simp add: job_files_def)
  ultimately show ?thesis
    using 1(1) 2(1) 3 by (auto simp: mr_spec_def Let_def)
qed

end

section \<open>Cleaning up\<close>

lemma job_files_distinct: "distinct (job_files job nMap nR)"
proof -
  have inj: "inj_on (reduceName job m) {0..<nR}" if "0 \<le> m" for m
    using that by (auto simp: inj_on_def reduceName_inj)
  have "distinct (concat (map (\<lambda>i. map (reduceName job i) [0..nR - 1]) ms))"
    if "distinct ms" "set ms \<subseteq> {0..}" for ms
    using that
  proof (induction ms)
    case (Cons m ms)
    have "distinct (map (reduceName job m) [0..nR - 1])"
      using Cons.prems by (auto simp: distinct_map inj_on_def reduceName_inj)
    moreover have "reduceName job m r \<noteq> reduceName job m' r'" if "m' \<in> set ms" "0 \<le> r" "0 \<le> r'" for m' r r'
      using Cons.prems that by (subst reduceName_inj) auto
    ultimately show ?case using Cons by auto
  qed simp
  from this [of "[0..nMap - 1]"]
  have "distinct (concat (map (\<lambda>i. map (reduceName job i) [0..nR - 1]) [0..nMap - 1]))" by auto
  moreover have "distinct (map (mergeName job) [0..nR - 1])"
    by (auto simp: distinct_map inj_on_def mergeName_inj)
  ultimately show ?thesis
    using reduceName_mergeName [symmetric]
    by (auto simp: job_files_def resultName_other resultName_other [symmetric])
qed

lemma remove_all_eq:
  assumes "distinct ns" and "\<forall>n \<in> set ns. fs n \<noteq> None"
  shows "remove_all ns fs = Inr (\<lambda>n. if n \<in> set ns then None else fs n)"
  using assms
proof (induction ns arbitrary: fs)
  case (Cons n ns)
  have "remove_all ns (fs(n := None)) = Inr (\<lambda>x. if x \<in> set ns then None else (fs(n := None)) x)"
    using Cons.prems by (intro Cons.IH) auto
  then show ?case using Cons.prems by (auto simp: removeFile_def fun_eq_iff)
qed simp

section \<open>A sample job\<close>

definition sample_map :: mapper where
  "sample_map f c = map (\<lambda>ch. \<lparr>Key = [ch], Value = f\<rparr>) c"

definition sample_reduce :: reducer where
  "sample_reduce k vs = Itoa (len vs)"

definition sample_fs :: filesystem where
  "sample_fs = [''a.txt'' \<mapsto> ''xy'', ''b.txt'' \<mapsto> ''yyz'']"

lemma sample_order_free: "order_free sample_reduce"
  by (auto simp: order_free_def sample_reduce_def dest: mset_eq_length)

lemma sample_inputs: "inputs_ok ''job'' [''a.txt'', ''b.txt''] nR sample_fs"
  by (simp add: inputs_ok_def sample_fs_def reduceName_def intermediate_def)

lemma sample_result: "mr_spec sample_map sample_reduce sample_fs [''a.txt'', ''b.txt''] =
    print_line ''x'' ''1'' @ print_line ''y'' ''3'' @ print_line ''z'' ''1''"
  by code_simp

section \<open>Properties\<close>



text \<open>
  The order of tasks and repeated executions make no difference: when the map tasks are executed in any
  order, each at least once, and then the reduce tasks in any order, each at least once, as happens when
  workers share the work and failed tasks are handed out again, the merged result is that of the
  specification.
\<close>

theorem any_order_refines_spec:
  assumes "key_sort srt" and "inputs_ok job fls nR fs" and "order_free reduceF" and "0 < nR"
    and "set ms = {0..<len fls}" and "set rs = {0..<nR}"
  shows "\<exists>fs1 fs2 fs3. map_tasks job fls nR mapF ms fs = Inr fs1 \<and>
    reduce_tasks srt job (len fls) reduceF rs fs1 = Inr fs2 \<and> merge job nR fs2 = Inr fs3 \<and>
    fs3 (resultName job) = Some (mr_spec mapF reduceF fs fls)"
  using key_sort.phases_result [OF assms, of mapF] by blast

theorem any_order_refines_spec_witness:
  "\<exists>fs1 fs2 fs3. map_tasks ''job'' [''a.txt'', ''b.txt''] 2 sample_map [1, 0, 1] sample_fs = Inr fs1 \<and>
    reduce_tasks (sort_key Key) ''job'' 2 sample_reduce [1, 1, 0] fs1 = Inr fs2 \<and>
    merge ''job'' 2 fs2 = Inr fs3 \<and>
    fs3 (resultName ''job'') = Some (print_line ''x'' ''1'' @ print_line ''y'' ''3'' @ print_line ''z'' ''1'')"
proof -
  have "set [1, 0, 1 :: int] = {0..<len [''a.txt'', ''b.txt'']}" "set [1, 1, 0 :: int] = {0..<2}" by auto
  from any_order_refines_spec [OF insertion.key_sort_axioms sample_inputs sample_order_free _ this, of sample_map]
  show ?thesis by (auto simp: sample_result)
qed

text \<open>
  \<^verbatim>\<open>CleanupFiles\<close> after a job finds every file it wants to remove, each once (no two files of a job have
  the same name), and leaves a file system without the files of the job and otherwise as it was before the
  job ran: neither the job nor the cleanup touches any other file.
\<close>

theorem cleanup_restores:
  assumes "key_sort srt" and "inputs_ok job fls nR fs" and "order_free reduceF" and "0 < nR"
    and "Sequential srt job fls nR mapF reduceF fs = Inr (mr, fs')"
  shows "CleanupFiles job fls nR fs' =
    Inr (\<lambda>n. if n \<in> set (job_files job (len fls) nR) then None else fs n)"
proof -
  have "set [0..len fls - 1] = {0..<len fls}" "set [0..nR - 1] = {0..<nR}" by auto
  from key_sort.phases_result [OF assms(1-4) this, of mapF]
  obtain fs1 fs2 fs3 where p: "map_tasks job fls nR mapF [0..len fls - 1] fs = Inr fs1"
      "reduce_tasks srt job (len fls) reduceF [0..nR - 1] fs1 = Inr fs2" "merge job nR fs2 = Inr fs3"
      and r3: "\<forall>n. fs3 n \<noteq> None \<or> n \<notin> set (job_files job (len fls) nR)"
      "\<forall>n. n \<notin> set (job_files job (len fls) nR) \<longrightarrow> fs3 n = fs n"
    by blast
  have "fs' = fs3" using assms(5) p by (simp add: Sequential_def run_def newMaster_def Let_def)
  with r3 have r: "\<forall>n. fs' n \<noteq> None \<or> n \<notin> set (job_files job (len fls) nR)"
      "\<forall>n. n \<notin> set (job_files job (len fls) nR) \<longrightarrow> fs' n = fs n"
    by blast+
  have "remove_all (job_files job (len fls) nR) fs' =
      Inr (\<lambda>n. if n \<in> set (job_files job (len fls) nR) then None else fs' n)"
    using r(1) by (intro remove_all_eq job_files_distinct) blast
  also have "(\<lambda>n. if n \<in> set (job_files job (len fls) nR) then None else fs' n) =
      (\<lambda>n. if n \<in> set (job_files job (len fls) nR) then None else fs n)"
    using r(2) by auto
  finally show ?thesis by (simp add: CleanupFiles_def)
qed

theorem cleanup_restores_witness:
  "\<exists>mr fs' fs''. Sequential (sort_key Key) ''job'' [''a.txt'', ''b.txt''] 2 sample_map sample_reduce sample_fs =
      Inr (mr, fs') \<and> CleanupFiles ''job'' [''a.txt'', ''b.txt''] 2 fs' = Inr fs'' \<and>
    fs'' ''a.txt'' = Some ''xy'' \<and> fs'' (resultName ''job'') = None"
proof -
  have "case Sequential (sort_key Key) ''job'' [''a.txt'', ''b.txt''] 2 sample_map sample_reduce sample_fs of
      Inl _ \<Rightarrow> False | Inr _ \<Rightarrow> True"
    by code_simp
  then obtain mr fs' where
      s: "Sequential (sort_key Key) ''job'' [''a.txt'', ''b.txt''] 2 sample_map sample_reduce sample_fs = Inr (mr, fs')"
    by (auto split: sum.splits)
  have "''a.txt'' \<notin> set (job_files ''job'' 2 2)" "resultName ''job'' \<in> set (job_files ''job'' 2 2)"
    by (auto simp: job_files_def reduceName_def mergeName_def resultName_def)
  then show ?thesis
    using s cleanup_restores [OF insertion.key_sort_axioms sample_inputs sample_order_free _ s]
    by (auto simp: sample_fs_def)
qed

end
