(* ===== verification/MR_Schedule.thy ===== *)
theory MR_Schedule
  imports MR_Job
begin

text \<open>
  The scheduler of a distributed job (\<^verbatim>\<open>src/src/mapreduce/schedule.go\<close>) with the part of the master that
  feeds it (\<^verbatim>\<open>Register\<close> and \<^verbatim>\<open>forwardRegistrations\<close> of \<^verbatim>\<open>master.go\<close>).

  A state holds the shared task queue, the control state of \<^verbatim>\<open>schedule\<close>'s own loop, the goroutines that
  are blocked offering a worker on the unbuffered channel, and the goroutines that wait for the answer
  of a worker. The outcome of a call (\<^verbatim>\<open>call\<close> of \<^verbatim>\<open>common_rpc.go\<close>) is chosen by the action: the worker
  answered, or it did not. A step is not enabled (\<open>None\<close>), panics (\<open>Some (Inl \<dots>)\<close>) or leads to the
  next state.

  Shown: no task is lost or done twice while the loop runs, a worker has at most one task, every run
  ends, the scheduler is stuck only when it has no worker left, and two defects.
\<close>

section \<open>The scheduler\<close>

record DoTaskArgs =
  JobName :: string
  File :: string
  Phase :: jobPhase
  TaskNumber :: int
  NumOtherPhase :: int

datatype sched_pc = Loop | Have int | WaitAll | Returned

record sched =
  master :: Master
  phase :: jobPhase
  next_worker :: nat
  tasks :: "int list"
  pc :: sched_pc
  offers :: "string list"
  calls :: "(string \<times> DoTaskArgs) list"
  wg :: int
  completed :: "int list"

definition ntasks :: "Master \<Rightarrow> jobPhase \<Rightarrow> int" where
  "ntasks mr ph = (case ph of mapPhase \<Rightarrow> len (files mr) | reducePhase \<Rightarrow> nReduce mr)"

definition n_other :: "Master \<Rightarrow> jobPhase \<Rightarrow> int" where
  "n_other mr ph = (case ph of mapPhase \<Rightarrow> nReduce mr | reducePhase \<Rightarrow> len (files mr))"

definition schedule_init :: "Master \<Rightarrow> jobPhase \<Rightarrow> sched result" where
  "schedule_init mr ph =
     (if ntasks mr ph < 0 then Inl (MakeSlice (ntasks mr ph))
      else Inr \<lparr>master = mr, phase = ph, next_worker = 0, tasks = [0..ntasks mr ph - 1], pc = Loop,
                offers = [], calls = [], wg = 0, completed = []\<rparr>)"

definition Register :: "string \<Rightarrow> Master \<Rightarrow> Master" where
  "Register worker mr = mr\<lparr>workers := workers mr @ [worker]\<rparr>"

definition remove_nth :: "nat \<Rightarrow> 'a list \<Rightarrow> 'a list" where
  "remove_nth k xs = take k xs @ drop (Suc k) xs"

datatype sched_action =
    Fetch
  | Take nat
  | Answer nat
  | Fail nat
  | Forward
  | NewWorker string
  | Finish

definition fetch :: "sched \<Rightarrow> sched" where
  "fetch s = (case tasks s of [] \<Rightarrow> s\<lparr>pc := WaitAll\<rparr> | t # ts \<Rightarrow> s\<lparr>tasks := ts, pc := Have t\<rparr>)"

definition hand_out :: "int \<Rightarrow> nat \<Rightarrow> sched \<Rightarrow> sched result" where
  "hand_out task k s =
     (let worker = offers s ! k;
          s = s\<lparr>offers := remove_nth k (offers s), wg := wg s + 1\<rparr>
      in bindE (go_index (files (master s)) task) (\<lambda>f.
           let args = \<lparr>JobName = jobName (master s), File = f, Phase = phase s, TaskNumber = task,
                       NumOtherPhase = n_other (master s) (phase s)\<rparr>
           in Inr (s\<lparr>calls := calls s @ [(worker, args)], pc := Loop\<rparr>)))"

definition answered :: "nat \<Rightarrow> sched \<Rightarrow> sched" where
  "answered k s =
     (let (worker, args) = calls s ! k in
      s\<lparr>calls := remove_nth k (calls s), wg := wg s - 1, offers := offers s @ [worker],
        completed := completed s @ [TaskNumber args]\<rparr>)"

definition failed :: "nat \<Rightarrow> sched \<Rightarrow> sched" where
  "failed k s =
     (let (worker, args) = calls s ! k in
      s\<lparr>calls := remove_nth k (calls s), tasks := tasks s @ [TaskNumber args], wg := wg s - 1\<rparr>)"

definition forward :: "sched \<Rightarrow> sched" where
  "forward s = s\<lparr>offers := offers s @ [workers (master s) ! next_worker s], next_worker := next_worker s + 1\<rparr>"

fun sched_step :: "sched_action \<Rightarrow> sched \<Rightarrow> sched result option" where
  "sched_step Fetch s = (if pc s = Loop then Some (Inr (fetch s)) else None)"
| "sched_step (Take k) s =
     (case pc s of Have task \<Rightarrow> if k < length (offers s) then Some (hand_out task k s) else None | _ \<Rightarrow> None)"
| "sched_step (Answer k) s = (if k < length (calls s) then Some (Inr (answered k s)) else None)"
| "sched_step (Fail k) s = (if k < length (calls s) then Some (Inr (failed k s)) else None)"
| "sched_step Forward s =
     (if next_worker s < length (workers (master s)) then Some (Inr (forward s)) else None)"
| "sched_step (NewWorker w) s = Some (Inr (s\<lparr>master := Register w (master s)\<rparr>))"
| "sched_step Finish s = (if pc s = WaitAll \<and> wg s = 0 then Some (Inr (s\<lparr>pc := Returned\<rparr>)) else None)"

fun sched_run :: "sched_action list \<Rightarrow> sched \<Rightarrow> sched option" where
  "sched_run [] s = Some s"
| "sched_run (a # as) s = (case sched_step a s of Some (Inr s') \<Rightarrow> sched_run as s' | _ \<Rightarrow> None)"

text \<open>
  Two conditions on a step: the name of a new worker is new, and no call fails once the loop has
  found the queue empty.
\<close>

fun new_name :: "sched_action \<Rightarrow> sched \<Rightarrow> bool" where
  "new_name (NewWorker w) s = (w \<notin> set (workers (master s)))"
| "new_name a s = True"

fun early_failure :: "sched_action \<Rightarrow> sched \<Rightarrow> bool" where
  "early_failure (Fail k) s = (pc s \<noteq> WaitAll)"
| "early_failure a s = True"

fun all_steps :: "(sched_action \<Rightarrow> sched \<Rightarrow> bool) \<Rightarrow> sched_action list \<Rightarrow> sched \<Rightarrow> bool" where
  "all_steps P [] s = True"
| "all_steps P (a # as) s =
     (P a s \<and> (case sched_step a s of Some (Inr s') \<Rightarrow> all_steps P as s' | _ \<Rightarrow> True))"

section \<open>Runs\<close>

text \<open>What a run keeps, if every step satisfying the condition keeps it.\<close>

lemma sched_run_invariant:
  assumes "\<And>a s s'. sched_step a s = Some (Inr s') \<Longrightarrow> P a s \<Longrightarrow> I s \<Longrightarrow> I s'"
  shows "sched_run as s = Some s' \<Longrightarrow> all_steps P as s \<Longrightarrow> I s \<Longrightarrow> I s'"
proof (induction "as" arbitrary: s)
  case (Cons a "as")
  then obtain s1 where "sched_step a s = Some (Inr s1)" "sched_run as s1 = Some s'"
    by (auto split: option.splits sum.splits)
  then show ?case using Cons assms [of a s s1] by simp
qed simp

lemma all_steps_True [simp]: "all_steps (\<lambda>a s. True) as s"
  by (induction "as" arbitrary: s) (auto split: option.splits sum.splits)

lemma mset_remove_nth: "k < length xs \<Longrightarrow> mset xs = add_mset (xs ! k) (mset (remove_nth k xs))"
  by (metis Cons_nth_drop_Suc append_take_drop_id mset.simps(2) mset_append remove_nth_def union_mset_add_mset_right)

lemma length_remove_nth [simp]: "k < length xs \<Longrightarrow> length (remove_nth k xs) = length xs - 1"
  by (simp add: remove_nth_def)

lemma map_remove_nth: "map f (remove_nth k xs) = remove_nth k (map f xs)"
  by (simp add: remove_nth_def take_map drop_map)

lemma step_cases:
  assumes "sched_step a s = Some (Inr s')"
  obtains (fetch) "a = Fetch" "pc s = Loop" "s' = fetch s"
    | (hand_out) k t f where "a = Take k" "pc s = Have t" "k < length (offers s)"
        "0 \<le> t" "t < len (files (master s))" "f = files (master s) ! nat t"
        "s' = s\<lparr>offers := remove_nth k (offers s), wg := wg s + 1,
           calls := calls s @ [(offers s ! k, \<lparr>JobName = jobName (master s), File = f, Phase = phase s,
             TaskNumber = t, NumOtherPhase = n_other (master s) (phase s)\<rparr>)], pc := Loop\<rparr>"
    | (answered) k where "a = Answer k" "k < length (calls s)" "s' = answered k s"
    | (failed) k where "a = Fail k" "k < length (calls s)" "s' = failed k s"
    | (forward) "a = Forward" "next_worker s < length (workers (master s))" "s' = forward s"
    | (register) w where "a = NewWorker w" "s' = s\<lparr>master := Register w (master s)\<rparr>"
    | (finish) "a = Finish" "pc s = WaitAll" "wg s = 0" "s' = s\<lparr>pc := Returned\<rparr>"
proof (cases a)
  case (Take k)
  then obtain t where t: "pc s = Have t" "k < length (offers s)" "hand_out t k s = Inr s'"
    using assms by (auto split: sched_pc.splits if_splits)
  show ?thesis
    by (rule hand_out [OF Take t(1,2)])
       (use t(3) in \<open>auto simp: MR_Schedule.hand_out_def go_simps Let_def\<close>)
qed (use assms that in \<open>auto split: if_splits\<close>)

section \<open>No task is lost while the loop runs\<close>

fun in_hand :: "sched_pc \<Rightarrow> int list" where
  "in_hand (Have t) = [t]"
| "in_hand _ = []"

definition task_of :: "string \<times> DoTaskArgs \<Rightarrow> int" where
  "task_of c = TaskNumber (snd c)"

definition accounted :: "int \<Rightarrow> sched \<Rightarrow> bool" where
  "accounted n s \<longleftrightarrow>
     wg s = len (calls s) \<and>
     mset (tasks s @ in_hand (pc s) @ map task_of (calls s) @ completed s) = mset [0..n - 1]"

lemma accounted_step:
  assumes "sched_step a s = Some (Inr s')" and "accounted n s"
  shows "accounted n s'"
  using assms(1)
proof (cases rule: step_cases)
  case fetch
  then show ?thesis using assms(2)
    by (auto simp: accounted_def MR_Schedule.fetch_def split: list.splits)
next
  case (hand_out k t f)
  then show ?thesis using assms(2) by (auto simp: accounted_def task_of_def)
next
  case (answered k)
  have "mset (map task_of (calls s)) = add_mset (task_of (calls s ! k)) (mset (map task_of (remove_nth k (calls s))))"
    using mset_remove_nth [of k "map task_of (calls s)"] answered by (simp add: map_remove_nth)
  then show ?thesis using answered assms(2)
    by (auto simp: accounted_def MR_Schedule.answered_def task_of_def split_beta Let_def)
next
  case (failed k)
  have "mset (map task_of (calls s)) = add_mset (task_of (calls s ! k)) (mset (map task_of (remove_nth k (calls s))))"
    using mset_remove_nth [of k "map task_of (calls s)"] failed by (simp add: map_remove_nth)
  then show ?thesis using failed assms(2)
    by (auto simp: accounted_def MR_Schedule.failed_def task_of_def split_beta Let_def)
qed (use assms(2) in \<open>auto simp: accounted_def MR_Schedule.forward_def\<close>)

lemma accounted_init: "schedule_init mr ph = Inr s \<Longrightarrow> accounted (ntasks mr ph) s"
  by (auto simp: schedule_init_def accounted_def split: if_splits)

lemma accounted_run:
  assumes "schedule_init mr ph = Inr s" and "sched_run as s = Some s'"
  shows "accounted (ntasks mr ph) s'"
  using sched_run_invariant [where P = "\<lambda>a s. True" and I = "accounted (ntasks mr ph)", OF _ assms(2)]
    accounted_step accounted_init [OF assms(1)] by simp

section \<open>Workers\<close>

text \<open>
  The workers a run can still use: offered, busy, or registered but not yet forwarded. A worker whose
  call failed is none of these.
\<close>

definition pool :: "sched \<Rightarrow> string list" where
  "pool s = offers s @ map fst (calls s) @ drop (next_worker s) (workers (master s))"

definition pool_ok :: "sched \<Rightarrow> bool" where
  "pool_ok s \<longleftrightarrow> distinct (pool s) \<and> set (pool s) \<subseteq> set (workers (master s)) \<and>
     next_worker s \<le> length (workers (master s))"

lemma distinct_mset: "distinct xs \<longleftrightarrow> (\<forall>x. count (mset xs) x \<le> 1)"
  by (metis count_mset_0_iff distinct_count_atmost_1 le_less_linear less_one nat_neq_iff not_gr_zero order_le_less)

lemma pool_mset_step:
  assumes "sched_step a s = Some (Inr s')"
  shows "mset (pool s') \<subseteq># mset (pool s) + (case a of NewWorker w \<Rightarrow> {#w#} | _ \<Rightarrow> {#})"
  using assms
proof (cases rule: step_cases)
  case fetch
  then show ?thesis by (auto simp: pool_def MR_Schedule.fetch_def split: list.splits)
next
  case (hand_out k t f)
  then show ?thesis using mset_remove_nth [of k "offers s"] by (simp add: pool_def)
next
  case (answered k)
  then show ?thesis using mset_remove_nth [of k "map fst (calls s)"]
    by (simp add: pool_def MR_Schedule.answered_def split_beta Let_def map_remove_nth)
next
  case (failed k)
  then show ?thesis using mset_remove_nth [of k "map fst (calls s)"]
    by (simp add: pool_def MR_Schedule.failed_def split_beta Let_def map_remove_nth)
next
  case forward
  then show ?thesis
    by (simp add: pool_def MR_Schedule.forward_def flip: Cons_nth_drop_Suc)
next
  case (register w)
  then show ?thesis
    by (cases "next_worker s - length (workers (master s))") (simp_all add: pool_def Register_def)
qed (auto simp: pool_def)

lemma pool_ok_step:
  assumes st: "sched_step a s = Some (Inr s')" and new: "new_name a s" and ok: "pool_ok s"
  shows "pool_ok s'"
proof -
  have w: "set (workers (master s)) \<subseteq> set (workers (master s'))" "next_worker s' \<le> length (workers (master s'))"
      "\<And>w. a = NewWorker w \<Longrightarrow> w \<in> set (workers (master s'))"
    using st ok
    by (cases rule: step_cases; auto simp: pool_ok_def MR_Schedule.fetch_def MR_Schedule.answered_def
        MR_Schedule.failed_def MR_Schedule.forward_def Register_def Let_def split_beta split: list.splits)+
  have sub: "set_mset (mset (pool s')) \<subseteq> set (pool s) \<union> (case a of NewWorker w \<Rightarrow> {w} | _ \<Rightarrow> {})"
    using set_mset_mono [OF pool_mset_step [OF st]] by (cases a) auto
  have "count (mset (pool s')) x \<le> 1" for x
  proof -
    have "count (mset (pool s')) x \<le> count (mset (pool s)) x + (case a of NewWorker w \<Rightarrow> if w = x then 1 else 0 | _ \<Rightarrow> 0)"
      using mset_subset_eq_count [OF pool_mset_step [OF st], of x] by (cases a) auto
    moreover have "count (mset (pool s)) x \<le> 1" using ok distinct_mset [of "pool s"] by (simp add: pool_ok_def)
    moreover have "w \<notin> set (pool s)" if "a = NewWorker w" for w
      using new ok that by (auto simp: pool_ok_def)
    ultimately show ?thesis by (cases a) (auto simp flip: count_mset_0_iff split: if_splits)
  qed
  then have "distinct (pool s')" by (simp add: distinct_mset)
  moreover have "set (pool s') \<subseteq> set (workers (master s'))"
    using sub w ok by (cases a) (auto simp: pool_ok_def)
  ultimately show ?thesis using w by (simp add: pool_ok_def)
qed

section \<open>Every run ends\<close>

fun pc_weight :: "sched_pc \<Rightarrow> nat" where
  "pc_weight (Have t) = 4"
| "pc_weight Loop = 2"
| "pc_weight WaitAll = 1"
| "pc_weight Returned = 0"

definition weight :: "sched \<Rightarrow> nat" where
  "weight s = 4 * length (pool s) + 4 * length (tasks s) + pc_weight (pc s) + length (calls s) +
     (length (workers (master s)) - next_worker s)"

fun registers :: "sched_action \<Rightarrow> bool" where
  "registers (NewWorker w) = True"
| "registers a = False"

lemma weight_step:
  assumes "sched_step a s = Some (Inr s')" and "\<not> registers a"
  shows "weight s' < weight s"
  using assms(1)
proof (cases rule: step_cases)
  case fetch
  then show ?thesis by (auto simp: weight_def pool_def MR_Schedule.fetch_def split: list.splits)
next
  case (answered k)
  then show ?thesis by (auto simp: weight_def pool_def MR_Schedule.answered_def split_beta Let_def)
next
  case (failed k)
  then show ?thesis by (auto simp: weight_def pool_def MR_Schedule.failed_def split_beta Let_def)
qed (use assms(2) in \<open>auto simp: weight_def pool_def MR_Schedule.forward_def\<close>)

lemma weight_run:
  assumes "sched_run as s = Some s'" and "\<forall>a \<in> set as. \<not> registers a"
  shows "length as + weight s' \<le> weight s"
  using assms
proof (induction "as" arbitrary: s)
  case (Cons a "as")
  then obtain s1 where s1: "sched_step a s = Some (Inr s1)" "sched_run as s1 = Some s'"
    by (auto split: option.splits sum.splits)
  then show ?case using Cons.IH [OF s1(2)] Cons.prems(2) weight_step [OF s1(1)] by simp
qed simp

lemma progress:
  assumes "accounted n s" and "pc s \<noteq> Returned" and "pool s \<noteq> []"
  shows "\<exists>a. \<not> registers a \<and> sched_step a s \<noteq> None"
proof (cases "calls s = [] \<and> next_worker s \<ge> length (workers (master s))")
  case True
  then have o: "offers s \<noteq> []" and w: "wg s = 0" using assms by (auto simp: pool_def accounted_def)
  show ?thesis
  proof (cases "pc s")
    case Loop
    then show ?thesis by (intro exI [of _ Fetch]) simp
  next
    case (Have t)
    then show ?thesis using o by (intro exI [of _ "Take 0"]) simp
  next
    case WaitAll
    then show ?thesis using w by (intro exI [of _ Finish]) simp
  qed (use assms in simp)
next
  case False
  then show ?thesis
  proof (cases "calls s = []")
    case True
    then show ?thesis using False by (intro exI [of _ Forward]) simp
  next
    case False
    then show ?thesis by (intro exI [of _ "Answer 0"]) simp
  qed
qed

text \<open>The loop ends with an empty queue, and it stays empty unless a call fails after that.\<close>

definition drained :: "sched \<Rightarrow> bool" where
  "drained s \<longleftrightarrow> wg s = len (calls s) \<and> (pc s \<in> {WaitAll, Returned} \<longrightarrow> tasks s = []) \<and>
     (pc s = Returned \<longrightarrow> calls s = [])"

lemma drained_step:
  assumes "sched_step a s = Some (Inr s')" and "early_failure a s" and "drained s"
  shows "drained s'"
  using assms(1)
proof (cases rule: step_cases)
  case fetch
  then show ?thesis using assms(3) by (auto simp: drained_def MR_Schedule.fetch_def split: list.splits)
next
  case (answered k)
  then show ?thesis using assms(3) by (auto simp: drained_def MR_Schedule.answered_def split_beta Let_def)
next
  case (failed k)
  then show ?thesis using assms(2,3) by (auto simp: drained_def MR_Schedule.failed_def split_beta Let_def)
qed (use assms(3) in \<open>auto simp: drained_def MR_Schedule.forward_def\<close>)

lemma files_step: "sched_step a s = Some (Inr s') \<Longrightarrow> files (master s') = files (master s)"
  by (erule step_cases) (auto simp: MR_Schedule.fetch_def MR_Schedule.answered_def MR_Schedule.failed_def
      MR_Schedule.forward_def Register_def Let_def split_beta split: list.splits)

lemma files_run: "sched_run as s = Some s' \<Longrightarrow> files (master s') = files (master s)"
  by (induction "as" arbitrary: s) (auto dest: files_step split: option.splits sum.splits)

section \<open>Running one task after the other\<close>

lemma sched_run_append:
  "sched_run xs s = Some s1 \<Longrightarrow> sched_run ys s1 = Some s2 \<Longrightarrow> sched_run (xs @ ys) s = Some s2"
  by (induction xs arbitrary: s) (auto split: option.splits sum.splits)

definition lone_worker :: "string \<Rightarrow> int list \<Rightarrow> sched \<Rightarrow> bool" where
  "lone_worker w ts s \<longleftrightarrow> pc s = Loop \<and> tasks s = ts \<and> offers s = [w] \<and> calls s = []"

lemma one_round:
  assumes "lone_worker w (t # ts) s" and "0 \<le> t" and "t < len (files (master s))"
  shows "\<exists>s'. sched_run [Fetch, Take 0, Answer 0] s = Some s' \<and> lone_worker w ts s' \<and> master s' = master s"
  using assms
  by (simp add: lone_worker_def fetch_def hand_out_def answered_def remove_nth_def Let_def)

lemma rounds:
  assumes "lone_worker w (ts @ us) s" and "\<forall>t \<in> set ts. 0 \<le> t \<and> t < len (files (master s))"
  shows "\<exists>acts s'. sched_run acts s = Some s' \<and> lone_worker w us s' \<and> master s' = master s"
  using assms
proof (induction ts arbitrary: s)
  case Nil
  then show ?case by (intro exI [of _ "[]"] exI [of _ s]) simp
next
  case (Cons t ts)
  obtain s1 where 1: "sched_run [Fetch, Take 0, Answer 0] s = Some s1" "lone_worker w (ts @ us) s1"
      "master s1 = master s"
    using one_round [of w t "ts @ us" s] Cons.prems by auto
  then obtain acts s' where 2: "sched_run acts s1 = Some s'" "lone_worker w us s'" "master s' = master s"
    using Cons.IH [of s1] Cons.prems(2) by auto
  show ?case using sched_run_append [OF 1(1) 2(1)] 2(2,3) by blast
qed

section \<open>A sample master\<close>

definition sample_master :: Master where
  "sample_master = \<lparr>address = ''m'', workers = [''w1'', ''w2''], jobName = ''job'',
     files = [''a.txt'', ''b.txt''], nReduce = 2, stats = []\<rparr>"

definition sample_sched :: "jobPhase \<Rightarrow> sched" where
  "sample_sched ph = projr (schedule_init sample_master ph)"

lemma sample_sched_init: "schedule_init sample_master ph = Inr (sample_sched ph)"
  by (cases ph) (simp_all add: sample_sched_def schedule_init_def ntasks_def sample_master_def)

text \<open>A run with a failure in the middle of the loop, after which the task is handed out again.\<close>

definition sample_acts :: "sched_action list" where
  "sample_acts = [Forward, Fetch, Take 0, Fetch, Forward, Fail 0, Take 0, Answer 0, Fetch, Take 0, Fetch, Answer 0, Finish]"

lemma all_completed:
  assumes "schedule_init mr ph = Inr s" and "sched_run acts s = Some s'" and "pc s' = Returned"
    and "all_steps early_failure acts s"
  shows "mset (completed s') = mset [0..ntasks mr ph - 1]"
proof -
  have "drained s" using assms(1) by (auto simp: schedule_init_def drained_def split: if_splits)
  then have "drained s'"
    using sched_run_invariant [where P = early_failure and I = drained] drained_step assms(2,4) by blast
  then have "tasks s' = []" "calls s' = []" using assms(3) by (auto simp: drained_def)
  then show ?thesis using accounted_run [OF assms(1,2)] assms(3) by (simp add: accounted_def)
qed

section \<open>Properties\<close>

text \<open>
  C36. If no worker fails after the scheduler's loop has found its task queue empty, then when \<^verbatim>\<open>schedule\<close>
  returns every task of the phase has been completed, each exactly once, whatever failures happened
  before and in whatever order workers registered, were offered and answered.
\<close>

theorem schedule_completes:
  assumes "schedule_init mr ph = Inr s" and "sched_run acts s = Some s'" and "pc s' = Returned"
    and "all_steps early_failure acts s"
  shows "mset (completed s') = mset [0..ntasks mr ph - 1]"
  by (rule all_completed [OF assms])

theorem schedule_completes_witness:
  "\<exists>s'. sched_run sample_acts (sample_sched mapPhase) = Some s' \<and> mset (completed s') = {#0, 1#}"
proof -
  have "case sched_run sample_acts (sample_sched mapPhase) of None \<Rightarrow> False | Some s' \<Rightarrow> pc s' = Returned"
    by code_simp
  then obtain s' where s: "sched_run sample_acts (sample_sched mapPhase) = Some s'" "pc s' = Returned"
    by (auto split: option.splits)
  moreover have "all_steps early_failure sample_acts (sample_sched mapPhase)" by code_simp
  moreover have "mset [0..ntasks sample_master mapPhase - 1] = {#0, 1#}" by code_simp
  ultimately show ?thesis using schedule_completes [OF sample_sched_init] by metis
qed

text \<open>
  The scheduler never has two calls to the same worker under way, as long as workers register under
  distinct names: this is the condition under which \<^verbatim>\<open>Worker.DoTask\<close> does not abort the process.
\<close>

theorem one_call_per_worker:
  assumes "schedule_init mr ph = Inr s" and "distinct (workers mr)" and "sched_run acts s = Some s'"
    and "all_steps new_name acts s"
  shows "distinct (map fst (calls s')) \<and> set (map fst (calls s')) \<inter> set (offers s') = {}"
proof -
  have "pool_ok s" using assms(1,2) by (auto simp: schedule_init_def pool_ok_def pool_def split: if_splits)
  then have "pool_ok s'"
    using sched_run_invariant [where P = new_name and I = pool_ok] pool_ok_step assms(3,4) by blast
  then show ?thesis by (auto simp: pool_ok_def pool_def)
qed

theorem one_call_per_worker_witness:
  "\<exists>s'. sched_run [Forward, Forward, Fetch, Take 1, Fetch, Take 0] (sample_sched mapPhase) = Some s' \<and>
     length (calls s') = 2 \<and> distinct (map fst (calls s'))"
proof -
  let ?acts = "[Forward, Forward, Fetch, Take 1, Fetch, Take 0]"
  have "case sched_run ?acts (sample_sched mapPhase) of None \<Rightarrow> False | Some s' \<Rightarrow> length (calls s') = 2"
    by code_simp
  then obtain s' where s: "sched_run ?acts (sample_sched mapPhase) = Some s'" "length (calls s') = 2"
    by (auto split: option.splits)
  moreover have "all_steps new_name ?acts (sample_sched mapPhase)" by code_simp
  moreover have "distinct (workers sample_master)" by (simp add: sample_master_def)
  ultimately show ?thesis using one_call_per_worker [OF sample_sched_init] by blast
qed




text \<open>
  \<^verbatim>\<open>schedule\<close> never indexes outside the list of input files in a map phase, nor in a reduce phase with
  at most as many reduce tasks as input files.
\<close>

theorem schedule_no_panic:
  assumes "schedule_init mr ph = Inr s" and "ntasks mr ph \<le> len (files mr)"
    and "sched_run acts s = Some s'"
  shows "sched_step a s' \<noteq> Some (Inl e)"
proof
  assume e: "sched_step a s' = Some (Inl e)"
  then obtain k t where h: "pc s' = Have t" "hand_out t k s' = Inl e"
    by (cases a) (auto split: sched_pc.splits if_splits)
  have "mset (tasks s' @ in_hand (pc s') @ map task_of (calls s') @ completed s') = mset [0..ntasks mr ph - 1]"
    using accounted_run [OF assms(1,3)] by (simp add: accounted_def)
  then have "set (tasks s' @ in_hand (pc s') @ map task_of (calls s') @ completed s') = set [0..ntasks mr ph - 1]"
    by (metis set_mset_mset)
  then have "t \<in> set [0..ntasks mr ph - 1]" using h(1) by auto
  moreover have "files (master s') = files mr"
    using files_run [OF assms(3)] assms(1) by (auto simp: schedule_init_def split: if_splits)
  ultimately show False
    using h(2) assms(2) by (simp add: hand_out_def Let_def)
qed

theorem schedule_no_panic_witness:
  "\<exists>s'. sched_run [Forward, Fetch] (sample_sched reducePhase) = Some s' \<and>
     sched_step (Take 0) s' \<noteq> Some (Inl (IndexOutOfRange 0))"
proof -
  have "sched_run [Forward, Fetch] (sample_sched reducePhase) \<noteq> None" by code_simp
  then obtain s' where s: "sched_run [Forward, Fetch] (sample_sched reducePhase) = Some s'" by blast
  have "ntasks sample_master reducePhase \<le> len (files sample_master)" by (simp add: ntasks_def sample_master_def)
  then show ?thesis using schedule_no_panic [OF sample_sched_init _ s] s by blast
qed

text \<open>
  C39. A distributed job with more reduce tasks than input files panics: \<^verbatim>\<open>schedule\<close> reads the input file of
  the task also in the reduce phase, where task numbers run up to the number of reduce tasks.
\<close>

theorem schedule_reduce_panics:
  assumes "0 < len (files mr)" and "len (files mr) < nReduce mr" and "workers mr = w # ws"
  shows "\<exists>s acts s'. schedule_init mr reducePhase = Inr s \<and> sched_run acts s = Some s' \<and>
    sched_step (Take 0) s' = Some (Inl (IndexOutOfRange (len (files mr))))"
proof -
  let ?n = "len (files mr)"
  obtain s where s: "schedule_init mr reducePhase = Inr s"
    using assms by (simp add: schedule_init_def ntasks_def)
  let ?s = "forward s"
  have f: "sched_run [Forward] s = Some ?s" "master ?s = mr"
    using s assms by (auto simp: schedule_init_def ntasks_def forward_def split: if_splits)
  have "[0..nReduce mr - 1] = [0..?n - 1] @ [?n..nReduce mr - 1]"
    using assms upto_split1 [of 0 ?n "nReduce mr - 1"] by simp
  then have "lone_worker w ([0..?n - 1] @ [?n..nReduce mr - 1]) ?s"
    using s assms by (auto simp: schedule_init_def ntasks_def forward_def lone_worker_def split: if_splits)
  then obtain acts s1 where 1: "sched_run acts ?s = Some s1" "lone_worker w [?n..nReduce mr - 1] s1" "master s1 = mr"
    using rounds [of w "[0..?n - 1]" "[?n..nReduce mr - 1]" ?s] f(2) by auto
  have "[?n..nReduce mr - 1] = ?n # [?n + 1..nReduce mr - 1]" using assms(2) by (subst upto.simps) simp
  then have 2: "sched_run [Fetch] s1 = Some (fetch s1)" "pc (fetch s1) = Have ?n" "offers (fetch s1) = [w]"
      "master (fetch s1) = mr"
    using 1(2,3) by (simp_all add: lone_worker_def fetch_def)
  have "sched_step (Take 0) (fetch s1) = Some (Inl (IndexOutOfRange ?n))"
    using 2 by (simp add: hand_out_def go_index_def Let_def)
  then show ?thesis
    using s sched_run_append [OF f(1) sched_run_append [OF 1(1) 2(1)]] by blast
qed

theorem schedule_reduce_panics_witness:
  "\<exists>s acts s'. schedule_init (sample_master\<lparr>nReduce := 3\<rparr>) reducePhase = Inr s \<and> sched_run acts s = Some s' \<and>
    sched_step (Take 0) s' = Some (Inl (IndexOutOfRange 2))"
  using schedule_reduce_panics [of "sample_master\<lparr>nReduce := 3\<rparr>" "''w1''" "[''w2'']"]
  by (simp add: sample_master_def)

end
