(* ===== verification/MR_Worker.thy ===== *)
theory MR_Worker
  imports MR_Schedule
begin

text \<open>
  The worker of a distributed job (\<^verbatim>\<open>src/src/mapreduce/worker.go\<close>) and the end of a job on the master
  (\<^verbatim>\<open>killWorkers\<close> of \<^verbatim>\<open>master.go\<close>).

  \<^verbatim>\<open>DoTask\<close> has two critical sections around the work: \<open>DoTask_enter\<close> and \<open>DoTask_leave\<close>; \<open>DoTask_work\<close>
  is the \<^verbatim>\<open>switch\<close> between them and \<open>DoTask\<close> the three in sequence. The counters of the optional
  \<^verbatim>\<open>Parallelism\<close> object are kept, each worker with its own copy although tests share one between workers,
  which changes nothing but pauses; the pause itself is only returned. Which
  workers can be reached is an argument of \<^verbatim>\<open>killWorkers\<close>. \<open>accept_loop\<close> is the loop of \<^verbatim>\<open>RunWorker\<close> over
  the connections that arrive.
\<close>

record Parallelism =
  par_now :: int
  par_max :: int

record Worker =
  name :: string
  nRPC :: int
  nTasks :: int
  concurrent :: int
  parallelism :: "Parallelism option"

definition newWorker :: "string \<Rightarrow> int \<Rightarrow> Parallelism option \<Rightarrow> Worker" where
  "newWorker w n par = \<lparr>name = w, nRPC = n, nTasks = 0, concurrent = 0, parallelism = par\<rparr>"

definition par_enter :: "Parallelism \<Rightarrow> Parallelism \<times> bool" where
  "par_enter p =
     (let p = p\<lparr>par_now := par_now p + 1\<rparr>;
          p = (if par_now p > par_max p then p\<lparr>par_max := par_now p\<rparr> else p)
      in (p, par_max p < 2))"

definition par_leave :: "Parallelism \<Rightarrow> Parallelism" where
  "par_leave p = p\<lparr>par_now := par_now p - 1\<rparr>"

definition DoTask_enter :: "Worker \<Rightarrow> (Worker \<times> bool) result" where
  "DoTask_enter wk =
     (let wk = wk\<lparr>nTasks := nTasks wk + 1, concurrent := concurrent wk + 1\<rparr> in
      if concurrent wk > 1
      then Inl (Fatal ''Worker.DoTask: more than one DoTask sent concurrently to a single worker\<newline>'')
      else
        (case parallelism wk of
           None \<Rightarrow> Inr (wk, False)
         | Some p \<Rightarrow> let (p, pause) = par_enter p in Inr (wk\<lparr>parallelism := Some p\<rparr>, pause)))"

definition DoTask_work ::
  "sorter \<Rightarrow> mapper \<Rightarrow> reducer \<Rightarrow> DoTaskArgs \<Rightarrow> filesystem \<Rightarrow> filesystem result" where
  "DoTask_work srt mapF reduceF arg fs =
     (case Phase arg of
        mapPhase \<Rightarrow> doMap (JobName arg) (TaskNumber arg) (File arg) (NumOtherPhase arg) mapF fs
      | reducePhase \<Rightarrow>
          doReduce srt (JobName arg) (TaskNumber arg) (mergeName (JobName arg) (TaskNumber arg))
            (NumOtherPhase arg) reduceF fs)"

definition DoTask_leave :: "Worker \<Rightarrow> Worker" where
  "DoTask_leave wk =
     (let wk = wk\<lparr>concurrent := concurrent wk - 1\<rparr> in
      wk\<lparr>parallelism := map_option par_leave (parallelism wk)\<rparr>)"

definition DoTask ::
  "sorter \<Rightarrow> mapper \<Rightarrow> reducer \<Rightarrow> DoTaskArgs \<Rightarrow> Worker \<Rightarrow> filesystem \<Rightarrow> (Worker \<times> filesystem) result" where
  "DoTask srt mapF reduceF arg wk fs =
     bindE (DoTask_enter wk) (\<lambda>(wk, pause).
       bindE (DoTask_work srt mapF reduceF arg fs) (\<lambda>fs. Inr (DoTask_leave wk, fs)))"

definition Shutdown :: "Worker \<Rightarrow> Worker \<times> int" where
  "Shutdown wk = (wk\<lparr>nRPC := 1\<rparr>, nTasks wk)"

text \<open>The workers that answer, by name; \<^verbatim>\<open>call\<close> on any other name returns false.\<close>

type_synonym worker_table = "string \<Rightarrow> Worker option"

fun kill_loop :: "string list \<Rightarrow> worker_table \<Rightarrow> int list \<Rightarrow> worker_table \<times> int list" where
  "kill_loop [] wks ns = (wks, ns)"
| "kill_loop (w # ws) wks ns =
     (case wks w of
        None \<Rightarrow> kill_loop ws wks ns
      | Some wk \<Rightarrow> let (wk, n) = Shutdown wk in kill_loop ws (wks(w \<mapsto> wk)) (ns @ [n]))"

definition killWorkers :: "Master \<Rightarrow> worker_table \<Rightarrow> worker_table \<times> int list" where
  "killWorkers mr wks = kill_loop (workers mr) wks []"

text \<open>The connections \<^verbatim>\<open>RunWorker\<close> accepts out of those that arrive.\<close>

fun accept_loop :: "nat \<Rightarrow> Worker \<Rightarrow> Worker \<times> nat" where
  "accept_loop 0 wk = (wk, 0)"
| "accept_loop (Suc k) wk =
     (if nRPC wk = 0 then (wk, 0)
      else let (wk, n) = accept_loop k (wk\<lparr>nRPC := nRPC wk - 1\<rparr>) in (wk, Suc n))"

section \<open>Behaviour\<close>

lemma accept_loop_count:
  "snd (accept_loop k wk) = (if nRPC wk < 0 then k else min k (nat (nRPC wk)))"
  by (induction k arbitrary: wk) (auto simp: Let_def split_beta)

lemma kill_loop_stats:
  assumes "distinct ws"
  shows "snd (kill_loop ws wks ns) = ns @ map (\<lambda>w. nTasks (the (wks w))) (filter (\<lambda>w. wks w \<noteq> None) ws)"
  using assms
proof (induction ws arbitrary: wks ns)
  case (Cons w ws)
  show ?case
  proof (cases "wks w")
    case (Some wk)
    have "map (\<lambda>v. nTasks (the ((wks(w \<mapsto> wk\<lparr>nRPC := 1\<rparr>)) v))) (filter (\<lambda>v. (wks(w \<mapsto> wk\<lparr>nRPC := 1\<rparr>)) v \<noteq> None) ws) =
        map (\<lambda>v. nTasks (the (wks v))) (filter (\<lambda>v. wks v \<noteq> None) ws)"
      using Cons.prems by (auto intro!: map_cong filter_cong)
    then show ?thesis using Cons Some by (simp add: Shutdown_def)
  qed (use Cons in simp)
qed simp

text \<open>The arguments \<^verbatim>\<open>schedule\<close> sends for a task.\<close>

definition task_args :: "Master \<Rightarrow> jobPhase \<Rightarrow> int \<Rightarrow> DoTaskArgs" where
  "task_args mr ph t =
     \<lparr>JobName = jobName mr, File = files mr ! nat t, Phase = ph, TaskNumber = t, NumOtherPhase = n_other mr ph\<rparr>"

section \<open>Properties\<close>

text \<open>
  \<^verbatim>\<open>DoTask\<close> aborts the process exactly when the worker is already executing a task; otherwise it does
  the task's work on the file system, counts it, and is idle again afterwards with the parallelism counter
  back where it was.
\<close>

theorem DoTask_exact:
  assumes "DoTask_work srt mapF reduceF arg fs = Inr fs'" and "0 \<le> concurrent wk"
  shows "(concurrent wk \<noteq> 0 \<longleftrightarrow> (\<exists>e. DoTask srt mapF reduceF arg wk fs = Inl e)) \<and>
    (concurrent wk = 0 \<longrightarrow>
       (\<exists>wk'. DoTask srt mapF reduceF arg wk fs = Inr (wk', fs') \<and> nTasks wk' = nTasks wk + 1 \<and>
          concurrent wk' = 0 \<and> nRPC wk' = nRPC wk \<and>
          map_option par_now (parallelism wk') = map_option par_now (parallelism wk)))"
  using assms
  by (auto simp: DoTask_def DoTask_enter_def DoTask_leave_def par_enter_def par_leave_def Let_def
      split: option.splits if_splits)

theorem DoTask_exact_witness:
  "\<exists>wk' fs'. DoTask (sort_key Key) sample_map sample_reduce (task_args sample_master mapPhase 0)
      (newWorker ''w1'' 10 (Some \<lparr>par_now = 0, par_max = 0\<rparr>)) sample_fs = Inr (wk', fs') \<and> nTasks wk' = 1"
proof -
  let ?arg = "task_args sample_master mapPhase 0"
  have "case DoTask_work (sort_key Key) sample_map sample_reduce ?arg sample_fs of Inl _ \<Rightarrow> False | Inr _ \<Rightarrow> True"
    by code_simp
  then obtain fs' where "DoTask_work (sort_key Key) sample_map sample_reduce ?arg sample_fs = Inr fs'"
    by (auto split: sum.splits)
  then show ?thesis
    using DoTask_exact [of "sort_key Key" sample_map sample_reduce ?arg sample_fs fs'
      "newWorker ''w1'' 10 (Some \<lparr>par_now = 0, par_max = 0\<rparr>)"]
    by (auto simp: newWorker_def)
qed

end
