(* ===== verification/MR_Distributed.thy ===== *)
theory MR_Distributed
  imports MR_Worker
begin

text \<open>
  A whole distributed job: \<^verbatim>\<open>Distributed\<close>, \<^verbatim>\<open>run\<close> and \<^verbatim>\<open>Wait\<close> of \<^verbatim>\<open>master.go\<close>, the registration server of
  \<^verbatim>\<open>master_rpc.go\<close>, and the workers, which execute tasks while the scheduler hands them out.

  The state \<open>dist\<close> holds the scheduler of the current phase (theory \<open>MR_Schedule\<close>, with the master's
  record in it), the control state of \<^verbatim>\<open>run\<close>, the shared file system, the workers, and for each call of the
  scheduler how far the worker has got with it. A call that the scheduler gives up after the worker has
  accepted it goes on in the worker (\<open>strays\<close>), in this phase or a later one. A worker may vanish at any
  moment; a task that it executes either has its whole effect on the file system or none.

  Shown: every run of a job in which no call fails after the end of a phase's loop, and which gets as far as
  merging, has the result file of the specification; and such a run exists for every job as soon as one worker
  stays.
\<close>

section \<open>The registration server\<close>

datatype server_pc = Selecting | Accepting | Exited

record rpc_server =
  shutdown :: bool
  listening :: bool
  server_pc :: server_pc

definition startRPCServer :: "string \<Rightarrow> bool \<Rightarrow> rpc_server result" where
  "startRPCServer addr listen_ok =
     (if \<not> listen_ok then Inl (Fatal (''RegstrationServer'' @ addr @ '' error: ''))
      else Inr \<lparr>shutdown = False, listening = True, server_pc = Selecting\<rparr>)"

text \<open>
  One step of the server's loop: the \<^verbatim>\<open>select\<close>, and \<^verbatim>\<open>Accept\<close>, which fails once the listener is closed. An
  accepted connection is served by a goroutine of its own (\<open>accept_conn\<close>).
\<close>

definition server_select :: "rpc_server \<Rightarrow> rpc_server option" where
  "server_select srv =
     (if server_pc srv = Selecting
      then Some (srv\<lparr>server_pc := if shutdown srv then Exited else Accepting\<rparr>) else None)"

definition accept_error :: "rpc_server \<Rightarrow> rpc_server option" where
  "accept_error srv =
     (if server_pc srv = Accepting \<and> \<not> listening srv then Some (srv\<lparr>server_pc := Exited\<rparr>) else None)"

definition accept_conn :: "rpc_server \<Rightarrow> rpc_server option" where
  "accept_conn srv =
     (if server_pc srv = Accepting \<and> listening srv then Some (srv\<lparr>server_pc := Selecting\<rparr>) else None)"

definition Master_Shutdown :: "rpc_server \<Rightarrow> rpc_server result" where
  "Master_Shutdown srv =
     (if shutdown srv then Inl CloseClosed else Inr (srv\<lparr>shutdown := True, listening := False\<rparr>))"

text \<open>
  \<^verbatim>\<open>stopRPCServer\<close>, whose call reaches the server or not; in the second case it only prints a message.
\<close>

definition stopRPCServer :: "bool \<Rightarrow> rpc_server \<Rightarrow> rpc_server result option" where
  "stopRPCServer ok srv =
     (if ok then map_option Master_Shutdown (accept_conn srv) else Some (Inr srv))"

section \<open>Workers at work\<close>

datatype stage = Dialing | Accepted | Running | Replied | Lost

definition accept_one :: "Worker \<Rightarrow> Worker option" where
  "accept_one wk = (if nRPC wk = 0 then None else Some (wk\<lparr>nRPC := nRPC wk - 1\<rparr>))"

text \<open>The next step of a worker in a call: accepting the connection, the entry and the rest of \<^verbatim>\<open>DoTask\<close>.\<close>

definition serve ::
  "sorter \<Rightarrow> mapper \<Rightarrow> reducer \<Rightarrow> string \<times> DoTaskArgs \<Rightarrow> stage \<Rightarrow> worker_table \<Rightarrow> filesystem
     \<Rightarrow> (stage \<times> worker_table \<times> filesystem) result option" where
  "serve srt mapF reduceF c st wks fs =
     (case wks (fst c) of
        None \<Rightarrow> None
      | Some wk \<Rightarrow>
          (case st of
             Dialing \<Rightarrow> map_option (\<lambda>wk. Inr (Accepted, wks(fst c \<mapsto> wk), fs)) (accept_one wk)
           | Accepted \<Rightarrow>
               Some (bindE (DoTask_enter wk) (\<lambda>(wk, pause). Inr (Running, wks(fst c \<mapsto> wk), fs)))
           | Running \<Rightarrow>
               Some (bindE (DoTask_work srt mapF reduceF (snd c) fs) (\<lambda>fs.
                 Inr (Replied, wks(fst c \<mapsto> DoTask_leave wk), fs)))
           | _ \<Rightarrow> None))"

section \<open>The job\<close>

datatype run_pc = Scheduling | Killing | Stopping | Merging | Sending | Done

record dist =
  sch :: sched
  run_pc :: run_pc
  disk :: filesystem
  wtab :: worker_table
  remote :: "stage list"
  strays :: "((string \<times> DoTaskArgs) \<times> stage) list"
  server :: rpc_server

definition Distributed :: "string \<Rightarrow> string list \<Rightarrow> int \<Rightarrow> string \<Rightarrow> bool \<Rightarrow> filesystem \<Rightarrow> dist result" where
  "Distributed job fls nR addr listen_ok fs =
     bindE (startRPCServer addr listen_ok) (\<lambda>srv.
       let mr = (newMaster addr)\<lparr>jobName := job, files := fls, nReduce := nR\<rparr> in
       bindE (schedule_init mr mapPhase) (\<lambda>s.
         Inr \<lparr>sch = s, run_pc = Scheduling, disk = fs, wtab = Map.empty, remote = [], strays = [], server = srv\<rparr>))"

text \<open>
  What can happen next: a step of the scheduler's own goroutines, of the worker of call \<open>k\<close>, of the goroutine
  that waits for call \<open>k\<close> (which returns true or false), of a worker in a call that was given up, of the
  registration server, or of \<^verbatim>\<open>run\<close>; a worker starts, and its call of \<^verbatim>\<open>Register\<close> gets through or not; a
  worker vanishes.
\<close>

datatype dist_action =
    Sched sched_action
  | Serve nat
  | Return nat
  | GiveUp nat
  | Stray nat
  | RunWorker string int "Parallelism option" bool
  | Vanish string
  | Select
  | AcceptError
  | NextPhase
  | Kill "string list"
  | Stop bool
  | Merge
  | Wait

fun own_action :: "sched_action \<Rightarrow> bool" where
  "own_action (Answer k) = False"
| "own_action (Fail k) = False"
| "own_action (NewWorker w) = False"
| "own_action a = True"

fun is_take :: "sched_action \<Rightarrow> bool" where
  "is_take (Take k) = True"
| "is_take a = False"

definition sched_with :: "sched_action \<Rightarrow> (dist \<Rightarrow> dist) \<Rightarrow> dist \<Rightarrow> dist result option" where
  "sched_with a f d =
     map_option (\<lambda>r. bindE r (\<lambda>s. Inr (f (d\<lparr>sch := s\<rparr>)))) (sched_step a (sch d))"

definition register :: "string \<Rightarrow> dist \<Rightarrow> dist result option" where
  "register w d =
     Option.bind (accept_conn (server d)) (\<lambda>srv. sched_with (NewWorker w) id (d\<lparr>server := srv\<rparr>))"

definition next_phase :: "dist \<Rightarrow> dist result" where
  "next_phase d =
     (case phase (sch d) of
        mapPhase \<Rightarrow> bindE (schedule_init (master (sch d)) reducePhase) (\<lambda>s. Inr (d\<lparr>sch := s, remote := []\<rparr>))
      | reducePhase \<Rightarrow> Inr (d\<lparr>run_pc := Killing\<rparr>))"

text \<open>The connections that a worker has accepted break when it vanishes.\<close>

fun break_conn :: "stage \<Rightarrow> stage" where
  "break_conn Accepted = Lost"
| "break_conn Running = Lost"
| "break_conn st = st"

definition vanish :: "string \<Rightarrow> dist \<Rightarrow> dist" where
  "vanish w d = d\<lparr>wtab := (wtab d)(w := None),
     remote := map2 (\<lambda>c st. if fst c = w then break_conn st else st) (calls (sch d)) (remote d),
     strays := map (\<lambda>(c, st). (c, if fst c = w then break_conn st else st)) (strays d)\<rparr>"

text \<open>\<^verbatim>\<open>killWorkers\<close> reaches the workers in \<open>up\<close> that still accept connections.\<close>

definition finish_workers :: "string list \<Rightarrow> dist \<Rightarrow> dist" where
  "finish_workers up d =
     (let mr = master (sch d);
          (wks, ns) = killWorkers mr (\<lambda>w. if w \<in> set up then Option.bind (wtab d w) accept_one else None)
      in d\<lparr>wtab := wtab d ++ wks, sch := (sch d)\<lparr>master := mr\<lparr>stats := ns\<rparr>\<rparr>, run_pc := Stopping\<rparr>)"

definition dist_merge :: "dist \<Rightarrow> dist result" where
  "dist_merge d =
     (let mr = master (sch d) in
      bindE (merge (jobName mr) (nReduce mr) (disk d)) (\<lambda>fs. Inr (d\<lparr>disk := fs, run_pc := Sending\<rparr>)))"

fun dist_step :: "sorter \<Rightarrow> mapper \<Rightarrow> reducer \<Rightarrow> dist_action \<Rightarrow> dist \<Rightarrow> dist result option" where
  "dist_step srt mapF reduceF (Sched a) d =
     (if run_pc d = Scheduling \<and> own_action a
      then sched_with a (\<lambda>d. if is_take a then d\<lparr>remote := remote d @ [Dialing]\<rparr> else d) d else None)"
| "dist_step srt mapF reduceF (Serve k) d =
     (if k < length (remote d)
      then map_option (\<lambda>r. bindE r (\<lambda>(st, wks, fs). Inr (d\<lparr>remote := (remote d)[k := st], wtab := wks, disk := fs\<rparr>)))
             (serve srt mapF reduceF (calls (sch d) ! k) (remote d ! k) (wtab d) (disk d))
      else None)"
| "dist_step srt mapF reduceF (Return k) d =
     (if k < length (remote d) \<and> remote d ! k = Replied
      then sched_with (Answer k) (\<lambda>d. d\<lparr>remote := remove_nth k (remote d)\<rparr>) d else None)"
| "dist_step srt mapF reduceF (GiveUp k) d =
     (if k < length (remote d)
      then sched_with (Fail k) (\<lambda>e. e\<lparr>remote := remove_nth k (remote d),
             strays := strays d @ [(calls (sch d) ! k, remote d ! k)]\<rparr>) d
      else None)"
| "dist_step srt mapF reduceF (Stray k) d =
     (if k < length (strays d) \<and> snd (strays d ! k) \<noteq> Dialing
      then map_option (\<lambda>r. bindE r (\<lambda>(st, wks, fs).
               Inr (d\<lparr>strays := (strays d)[k := (fst (strays d ! k), st)], wtab := wks, disk := fs\<rparr>)))
             (serve srt mapF reduceF (fst (strays d ! k)) (snd (strays d ! k)) (wtab d) (disk d))
      else None)"
| "dist_step srt mapF reduceF (RunWorker w n par ok) d =
     (if wtab d w = None
      then let d = d\<lparr>wtab := (wtab d)(w \<mapsto> newWorker w n par)\<rparr> in
           if ok then register w d else Some (Inr d)
      else None)"
| "dist_step srt mapF reduceF (Vanish w) d = Some (Inr (vanish w d))"
| "dist_step srt mapF reduceF Select d = map_option (\<lambda>srv. Inr (d\<lparr>server := srv\<rparr>)) (server_select (server d))"
| "dist_step srt mapF reduceF AcceptError d = map_option (\<lambda>srv. Inr (d\<lparr>server := srv\<rparr>)) (accept_error (server d))"
| "dist_step srt mapF reduceF NextPhase d =
     (if run_pc d = Scheduling \<and> pc (sch d) = Returned then Some (next_phase d) else None)"
| "dist_step srt mapF reduceF (Kill up) d =
     (if run_pc d = Killing then Some (Inr (finish_workers up d)) else None)"
| "dist_step srt mapF reduceF (Stop ok) d =
     (if run_pc d = Stopping
      then map_option (\<lambda>r. bindE r (\<lambda>srv. Inr (d\<lparr>server := srv, run_pc := Merging\<rparr>))) (stopRPCServer ok (server d))
      else None)"
| "dist_step srt mapF reduceF Merge d = (if run_pc d = Merging then Some (dist_merge d) else None)"
| "dist_step srt mapF reduceF Wait d =
     (if run_pc d = Sending then Some (Inr (d\<lparr>run_pc := Done\<rparr>)) else None)"

fun dist_run :: "sorter \<Rightarrow> mapper \<Rightarrow> reducer \<Rightarrow> dist_action list \<Rightarrow> dist \<Rightarrow> dist option" where
  "dist_run srt mapF reduceF [] d = Some d"
| "dist_run srt mapF reduceF (a # as) d =
     (case dist_step srt mapF reduceF a d of Some (Inr d') \<Rightarrow> dist_run srt mapF reduceF as d' | _ \<Rightarrow> None)"

section \<open>The file system of a job\<close>

text \<open>
  Input files must not have the name of a file of the job: a stray map task may read them again while reduce
  tasks write.
\<close>

definition inputs_safe :: "Master \<Rightarrow> filesystem \<Rightarrow> bool" where
  "inputs_safe mr fs \<longleftrightarrow>
     (\<forall>f \<in> set (files mr). fs f \<noteq> None \<and> f \<notin> set (job_files (jobName mr) (len (files mr)) (nReduce mr)))"

definition reduce_file :: "Master \<Rightarrow> mapper \<Rightarrow> reducer \<Rightarrow> filesystem \<Rightarrow> int \<Rightarrow> string" where
  "reduce_file mr mapF reduceF fs0 r =
     concat (map json_Encode (reduced (nReduce mr) reduceF (all_records mapF fs0 (files mr)) r))"

text \<open>The map tasks in \<open>M\<close> and the reduce tasks in \<open>R\<close> have their outputs in the file system.\<close>

definition disk_ok ::
  "Master \<Rightarrow> mapper \<Rightarrow> reducer \<Rightarrow> filesystem \<Rightarrow> int set \<Rightarrow> int set \<Rightarrow> filesystem \<Rightarrow> bool" where
  "disk_ok mr mapF reduceF fs0 M R fs \<longleftrightarrow>
     (\<forall>n. n \<notin> set (job_files (jobName mr) (len (files mr)) (nReduce mr)) \<longrightarrow> fs n = fs0 n) \<and>
     (\<forall>i \<in> M. 0 \<le> i \<and> mapped (jobName mr) (files mr) (nReduce mr) mapF fs0 i fs) \<and>
     (\<forall>r \<in> R. 0 \<le> r \<and> fs (mergeName (jobName mr) r) = Some (reduce_file mr mapF reduceF fs0 r))"

lemma disk_ok_mono: "disk_ok mr mapF reduceF fs0 M R fs \<Longrightarrow> M' \<subseteq> M \<Longrightarrow> R' \<subseteq> R \<Longrightarrow> disk_ok mr mapF reduceF fs0 M' R' fs"
  unfolding disk_ok_def by blast

lemma map_work:
  assumes ok: "disk_ok mr mapF reduceF fs0 M R fs" and inp: "inputs_safe mr fs0" and nR: "0 < nReduce mr"
    and i: "0 \<le> i" "i < len (files mr)"
  shows "\<exists>fs'. DoTask_work srt mapF reduceF (task_args mr mapPhase i) fs = Inr fs' \<and>
    disk_ok mr mapF reduceF fs0 (insert i M) R fs' \<and> fs' (resultName (jobName mr)) = fs (resultName (jobName mr))"
proof -
  let ?f = "files mr ! nat i" and ?job = "jobName mr"
  have "?f \<in> set (files mr)" using i by simp
  then have f: "fs ?f = Some (the (fs0 ?f))" using inp ok by (auto simp: inputs_safe_def disk_ok_def)
  obtain fs' where d: "doMap ?job i ?f (nReduce mr) mapF fs = Inr fs'"
      and new: "\<forall>r. 0 \<le> r \<and> r < nReduce mr \<longrightarrow> fs' (reduceName ?job i r) =
        Some (concat (map json_Encode (part_of (nReduce mr) r (mapF ?f (the (fs0 ?f))))))"
      and old: "\<forall>n. (\<forall>r. 0 \<le> r \<and> r < nReduce mr \<longrightarrow> n \<noteq> reduceName ?job i r) \<longrightarrow> fs' n = fs n"
    using doMap_result [where fs = fs and f = ?f, OF f nR i(1)] by blast
  have m: "mapped ?job (files mr) (nReduce mr) mapF fs0 i fs'" using new by (simp add: mapped_def records_of_def)
  have "mapped ?job (files mr) (nReduce mr) mapF fs0 j fs'" if j: "0 \<le> j" "mapped ?job (files mr) (nReduce mr) mapF fs0 j fs" for j
  proof (cases "j = i")
    case False
    then have "fs' (reduceName ?job j r) = fs (reduceName ?job j r)" if "0 \<le> r" for r
      using old i j(1) that by (simp add: reduceName_inj)
    then show ?thesis using j(2) by (simp add: mapped_def)
  qed (use m in simp)
  moreover have "fs' (mergeName ?job r) = fs (mergeName ?job r)" for r
    using old reduceName_mergeName [OF i(1)] by metis
  moreover have "fs' (resultName ?job) = fs (resultName ?job)" using old resultName_other by metis
  moreover have "fs' n = fs n" if "n \<notin> set (job_files ?job (len (files mr)) (nReduce mr))" for n
    using old that i by (auto simp: job_files_iff intermediate_def)
  ultimately show ?thesis
    using ok d m i by (auto simp: disk_ok_def DoTask_work_def task_args_def n_other_def)
qed

context key_sort
begin

lemma reduce_work:
  assumes ok: "disk_ok mr mapF reduceF fs0 {0..<len (files mr)} R fs" and free: "order_free reduceF"
    and r: "0 \<le> r" "r < nReduce mr"
  shows "\<exists>fs'. DoTask_work srt mapF reduceF (task_args mr reducePhase r) fs = Inr fs' \<and>
    disk_ok mr mapF reduceF fs0 {0..<len (files mr)} (insert r R) fs' \<and>
    fs' (resultName (jobName mr)) = fs (resultName (jobName mr))"
proof -
  let ?job = "jobName mr"
  let ?fs' = "fs(mergeName ?job r \<mapsto> reduce_file mr mapF reduceF fs0 r)"
  have m: "\<forall>i. 0 \<le> i \<and> i < len (files mr) \<longrightarrow> mapped ?job (files mr) (nReduce mr) mapF fs0 i fs"
    using ok by (simp add: disk_ok_def)
  have "DoTask_work srt mapF reduceF (task_args mr reducePhase r) fs = Inr ?fs'"
    using doReduce_reduced [OF r m free] by (simp add: DoTask_work_def task_args_def n_other_def reduce_file_def)
  moreover have "mapped ?job (files mr) (nReduce mr) mapF fs0 i ?fs'" if "0 \<le> i" "i < len (files mr)" for i
    using m that by (simp add: mapped_def reduceName_mergeName)
  moreover have "mergeName ?job r \<in> set (job_files ?job (len (files mr)) (nReduce mr))"
    using r by (simp add: job_files_iff)
  ultimately show ?thesis
    using ok r by (auto simp: disk_ok_def mergeName_inj resultName_other)
qed

end
section \<open>The invariant of a job\<close>

definition same_job :: "Master \<Rightarrow> Master \<Rightarrow> bool" where
  "same_job mr mr' \<longleftrightarrow> jobName mr' = jobName mr \<and> files mr' = files mr \<and> nReduce mr' = nReduce mr"

lemma same_job_simps:
  assumes "same_job mr mr'"
  shows "jobName mr' = jobName mr" "files mr' = files mr" "nReduce mr' = nReduce mr" "ntasks mr' ph = ntasks mr ph"
    "n_other mr' ph = n_other mr ph"
  using assms by (auto simp: same_job_def ntasks_def n_other_def split: jobPhase.splits)

text \<open>The arguments of a task of the job, in a phase that has begun.\<close>

definition args_ok :: "Master \<Rightarrow> jobPhase \<Rightarrow> DoTaskArgs \<Rightarrow> bool" where
  "args_ok mr ph args \<longleftrightarrow> args = task_args mr (Phase args) (TaskNumber args) \<and>
     0 \<le> TaskNumber args \<and> TaskNumber args < ntasks mr (Phase args) \<and> (Phase args = reducePhase \<longrightarrow> ph = reducePhase)"

definition finished :: "dist \<Rightarrow> int set" where
  "finished d = set (completed (sch d)) \<union> {task_of c | c. (c, Replied) \<in> set (zip (calls (sch d)) (remote d))}"

definition maps_done :: "Master \<Rightarrow> dist \<Rightarrow> int set" where
  "maps_done mr d = (case phase (sch d) of mapPhase \<Rightarrow> finished d | reducePhase \<Rightarrow> {0..<len (files mr)})"

definition reduces_done :: "dist \<Rightarrow> int set" where
  "reduces_done d = (case phase (sch d) of mapPhase \<Rightarrow> {} | reducePhase \<Rightarrow> finished d)"

definition sched_ok :: "Master \<Rightarrow> sched \<Rightarrow> bool" where
  "sched_ok mr s \<longleftrightarrow> same_job mr (master s) \<and> accounted (ntasks mr (phase s)) s \<and> drained s \<and>
     (\<forall>c \<in> set (calls s). args_ok mr (phase s) (snd c) \<and> Phase (snd c) = phase s)"

definition dist_inv :: "Master \<Rightarrow> mapper \<Rightarrow> reducer \<Rightarrow> filesystem \<Rightarrow> dist \<Rightarrow> bool" where
  "dist_inv mr mapF reduceF fs0 d \<longleftrightarrow>
     sched_ok mr (sch d) \<and> length (remote d) = length (calls (sch d)) \<and>
     (\<forall>z \<in> set (strays d). args_ok mr (phase (sch d)) (snd (fst z))) \<and>
     disk_ok mr mapF reduceF fs0 (maps_done mr d) (reduces_done d) (disk d) \<and>
     (run_pc d \<noteq> Scheduling \<longrightarrow> phase (sch d) = reducePhase \<and> pc (sch d) = Returned) \<and>
     (run_pc d \<in> {Sending, Done} \<longrightarrow> disk d (resultName (jobName mr)) = Some (mr_spec mapF reduceF fs0 (files mr)))"

lemma dist_invD:
  assumes "dist_inv mr mapF reduceF fs0 d"
  shows "sched_ok mr (sch d)" "length (remote d) = length (calls (sch d))"
    "z \<in> set (strays d) \<Longrightarrow> args_ok mr (phase (sch d)) (snd (fst z))"
    "disk_ok mr mapF reduceF fs0 (maps_done mr d) (reduces_done d) (disk d)"
    "run_pc d \<noteq> Scheduling \<Longrightarrow> phase (sch d) = reducePhase" "run_pc d \<noteq> Scheduling \<Longrightarrow> pc (sch d) = Returned"
    "run_pc d \<in> {Sending, Done} \<Longrightarrow> disk d (resultName (jobName mr)) = Some (mr_spec mapF reduceF fs0 (files mr))"
  using assms unfolding dist_inv_def by blast+

lemma set_remove_nth: "set (remove_nth k xs) \<subseteq> set xs"
  by (auto simp: remove_nth_def dest: in_set_takeD in_set_dropD)

lemma zip_remove_nth: "zip (remove_nth k xs) (remove_nth k ys) = remove_nth k (zip xs ys)"
  if "length xs = length ys"
  using that by (simp add: remove_nth_def take_zip drop_zip)

lemma phase_step: "sched_step a s = Some (Inr s') \<Longrightarrow> phase s' = phase s"
  by (erule step_cases) (auto simp: MR_Schedule.fetch_def MR_Schedule.answered_def MR_Schedule.failed_def
      MR_Schedule.forward_def Let_def split_beta split: list.splits)

lemma same_job_step:
  assumes "sched_step a s = Some (Inr s')" and "same_job mr (master s)"
  shows "same_job mr (master s')"
  using assms by (cases rule: step_cases) (auto simp: MR_Schedule.fetch_def MR_Schedule.answered_def
      MR_Schedule.failed_def MR_Schedule.forward_def Register_def same_job_def Let_def split_beta split: list.splits)

lemma accounted_range:
  assumes "accounted n s" and "t \<in> set (tasks s @ in_hand (pc s))"
  shows "0 \<le> t \<and> t < n"
proof -
  have "set (tasks s @ in_hand (pc s) @ map task_of (calls s) @ completed s) = set [0..n - 1]"
    using assms(1) unfolding accounted_def by (metis set_mset_mset)
  then have "t \<in> set [0..n - 1]" using assms(2) by auto
  then show ?thesis by auto
qed

lemma calls_step:
  assumes st: "sched_step a s = Some (Inr s')" and ok: "sched_ok mr s" and c: "c \<in> set (calls s')"
  shows "args_ok mr (phase s') (snd c) \<and> Phase (snd c) = phase s'"
  using st
proof (cases rule: step_cases)
  case (hand_out k t f)
  have "0 \<le> t" "t < ntasks mr (phase s)" using accounted_range [of _ s t] ok hand_out by (auto simp: sched_ok_def)
  then have "args_ok mr (phase s) \<lparr>JobName = jobName (master s), File = f, Phase = phase s, TaskNumber = t,
      NumOtherPhase = n_other (master s) (phase s)\<rparr>"
    using same_job_simps [of mr "master s"] hand_out(6) ok by (simp add: args_ok_def task_args_def sched_ok_def)
  then show ?thesis using hand_out c ok by (auto simp: sched_ok_def)
next
  case (answered k)
  then have "c \<in> set (calls s)"
    using c set_remove_nth [of k "calls s"] by (auto simp: MR_Schedule.answered_def Let_def split_beta)
  then show ?thesis using ok phase_step [OF st] by (simp add: sched_ok_def)
next
  case (failed k)
  then have "c \<in> set (calls s)"
    using c set_remove_nth [of k "calls s"] by (auto simp: MR_Schedule.failed_def Let_def split_beta)
  then show ?thesis using ok phase_step [OF st] by (simp add: sched_ok_def)
qed (use ok c in \<open>auto simp: sched_ok_def MR_Schedule.fetch_def MR_Schedule.forward_def split: list.splits\<close>)

lemma sched_ok_step:
  assumes "sched_step a s = Some (Inr s')" and "early_failure a s" and "sched_ok mr s"
  shows "sched_ok mr s'"
  using assms(3) calls_step [OF assms(1,3)] phase_step [OF assms(1)] same_job_step [OF assms(1)]
    accounted_step [OF assms(1)] drained_step [OF assms(1,2)]
  by (simp add: sched_ok_def)

lemma sched_ok_init:
  assumes "schedule_init mr' ph = Inr s" and "same_job mr mr'"
  shows "sched_ok mr s \<and> phase s = ph \<and> calls s = [] \<and> completed s = []"
proof -
  have s: "master s = mr'" "phase s = ph" "calls s = []" "completed s = []" "wg s = 0" "pc s = Loop"
    using assms(1) by (auto simp: schedule_init_def split: if_splits)
  then show ?thesis
    using assms(2) accounted_init [OF assms(1)] same_job_simps(4) [OF assms(2)]
    by (simp add: sched_ok_def drained_def)
qed

lemma returned_completed:
  assumes "sched_ok mr s" and "pc s = Returned"
  shows "set (completed s) = {0..<ntasks mr (phase s)} \<and> calls s = []"
proof -
  have "tasks s = []" "calls s = []" using assms by (simp_all add: sched_ok_def drained_def)
  then have "mset (completed s) = mset [0..ntasks mr (phase s) - 1]"
    using assms by (simp add: sched_ok_def accounted_def)
  from arg_cong [OF this, of set_mset] have "set (completed s) = {0..ntasks mr (phase s) - 1}" by simp
  also have "\<dots> = {0..<ntasks mr (phase s)}" by auto
  finally show ?thesis using \<open>calls s = []\<close> by simp
qed
text \<open>The condition on a run: no call fails after the loop of \<^verbatim>\<open>schedule\<close> has found its queue empty.\<close>

fun timely :: "dist_action \<Rightarrow> dist \<Rightarrow> bool" where
  "timely (GiveUp k) d = (pc (sch d) \<noteq> WaitAll)"
| "timely a d = True"

lemma finished_mono:
  assumes "set (completed (sch d')) \<subseteq> finished d" and "set (zip (calls (sch d')) (remote d')) \<subseteq> Z"
    and "\<forall>c. (c, Replied) \<in> Z \<longrightarrow> (c, Replied) \<in> set (zip (calls (sch d)) (remote d))"
  shows "finished d' \<subseteq> finished d"
  using assms unfolding finished_def by blast

lemma disk_done_mono:
  assumes "disk_ok mr mapF reduceF fs0 (maps_done mr d) (reduces_done d) fs"
    and "phase (sch d') = phase (sch d)" and "finished d' \<subseteq> finished d"
  shows "disk_ok mr mapF reduceF fs0 (maps_done mr d') (reduces_done d') fs"
  by (rule disk_ok_mono [OF assms(1)]) (use assms(2,3) in \<open>auto simp: maps_done_def reduces_done_def split: jobPhase.splits\<close>)

lemma inv_sched:
  assumes inv: "dist_inv mr mapF reduceF fs0 d" and st: "sched_step a (sch d) = Some (Inr (sch d'))"
    and early: "early_failure a (sch d)" and len: "length (remote d') = length (calls (sch d'))"
    and fin: "finished d' \<subseteq> finished d" and same: "disk d' = disk d" "run_pc d' = run_pc d"
    and strays: "\<forall>z \<in> set (strays d'). args_ok mr (phase (sch d)) (snd (fst z))"
    and ret: "run_pc d \<noteq> Scheduling \<longrightarrow> pc (sch d') = pc (sch d)"
  shows "dist_inv mr mapF reduceF fs0 d'"
proof -
  have "disk_ok mr mapF reduceF fs0 (maps_done mr d') (reduces_done d') (disk d')"
    using inv unfolding dist_inv_def same(1) by (blast intro: disk_done_mono [OF _ phase_step [OF st] fin])
  moreover have "sched_ok mr (sch d')" using inv sched_ok_step [OF st early] by (simp add: dist_inv_def)
  moreover have "run_pc d \<noteq> Scheduling \<longrightarrow> phase (sch d) = reducePhase \<and> pc (sch d) = Returned"
      "run_pc d \<in> {Sending, Done} \<longrightarrow> disk d (resultName (jobName mr)) = Some (mr_spec mapF reduceF fs0 (files mr))"
    using inv unfolding dist_inv_def by blast+
  ultimately show ?thesis
    using len strays ret unfolding dist_inv_def same phase_step [OF st] by metis
qed

lemma sched_with_cases:
  assumes "sched_with a f d = Some (Inr d')"
  obtains s where "sched_step a (sch d) = Some (Inr s)" "d' = f (d\<lparr>sch := s\<rparr>)"
  using assms by (auto simp: sched_with_def bindE_Inr_iff)

lemma inv_own:
  assumes inv: "dist_inv mr mapF reduceF fs0 d" and st: "dist_step srt mapF reduceF (Sched a) d = Some (Inr d')"
  shows "dist_inv mr mapF reduceF fs0 d'"
proof -
  obtain s where s: "sched_step a (sch d) = Some (Inr s)" "own_action a" "run_pc d = Scheduling"
      "d' = (if is_take a then d\<lparr>sch := s, remote := remote d @ [Dialing]\<rparr> else d\<lparr>sch := s\<rparr>)"
    using st by (auto split: if_splits elim!: sched_with_cases)
  have len: "length (remote d) = length (calls (sch d))" using inv by (simp add: dist_inv_def)
  have "completed s = completed (sch d) \<and> length (remote d') = length (calls s) \<and>
      set (zip (calls s) (remote d')) \<subseteq> set (zip (calls (sch d)) (remote d)) \<union> range (\<lambda>c. (c, Dialing))"
    using s(1)
  proof (cases rule: step_cases)
    case (hand_out k t f)
    then show ?thesis using s(4) len by auto
  qed (use s len in \<open>auto simp: MR_Schedule.fetch_def MR_Schedule.forward_def split: list.splits\<close>)
  then have c: "completed s = completed (sch d)" "length (remote d') = length (calls s)"
      "set (zip (calls s) (remote d')) \<subseteq> set (zip (calls (sch d)) (remote d)) \<union> range (\<lambda>c. (c, Dialing))"
    by blast+
  have d': "sch d' = s" "disk d' = disk d" "run_pc d' = run_pc d" "strays d' = strays d" using s(4) by simp_all
  have "finished d' \<subseteq> finished d"
    by (rule finished_mono [where Z = "set (zip (calls (sch d)) (remote d)) \<union> range (\<lambda>c. (c, Dialing))"])
       (use c d' in \<open>auto simp: finished_def\<close>)
  moreover have "early_failure a (sch d)" using s(2) by (cases a) simp_all
  ultimately show ?thesis
    using inv s c d' by (intro inv_sched [OF inv, of a]) (simp_all add: dist_inv_def)
qed

lemma inv_return:
  assumes inv: "dist_inv mr mapF reduceF fs0 d" and st: "dist_step srt mapF reduceF (Return k) d = Some (Inr d')"
  shows "dist_inv mr mapF reduceF fs0 d'"
proof -
  obtain s where s: "sched_step (Answer k) (sch d) = Some (Inr s)" "k < length (remote d)" "remote d ! k = Replied"
      "d' = d\<lparr>sch := s, remote := remove_nth k (remote d)\<rparr>"
    using st by (auto split: if_splits elim!: sched_with_cases)
  have len: "length (remote d) = length (calls (sch d))" using inv by (simp add: dist_inv_def)
  have a: "s = answered k (sch d)" using s(1) by (auto split: if_splits)
  then have c: "calls s = remove_nth k (calls (sch d))" "completed s = completed (sch d) @ [task_of (calls (sch d) ! k)]"
    by (simp_all add: answered_def task_of_def Let_def split_beta)
  have "(calls (sch d) ! k, Replied) \<in> set (zip (calls (sch d)) (remote d))"
    using s(2,3) len by (auto simp: set_zip)
  then have "set (completed s) \<subseteq> finished d" unfolding finished_def c(2) set_append by fastforce
  then have "finished d' \<subseteq> finished d"
    by (intro finished_mono [where Z = "set (zip (calls (sch d)) (remote d))"])
       (use s(4) c(1) len set_remove_nth in \<open>simp_all add: zip_remove_nth\<close>)
  moreover have "run_pc d = Scheduling"
    using inv s(2) by (auto simp: dist_inv_def sched_ok_def drained_def)
  ultimately show ?thesis
    using inv s len c by (intro inv_sched [OF inv, of "Answer k"]) (auto simp: dist_inv_def)
qed

lemma inv_give_up:
  assumes inv: "dist_inv mr mapF reduceF fs0 d" and st: "dist_step srt mapF reduceF (GiveUp k) d = Some (Inr d')"
    and "timely (GiveUp k) d"
  shows "dist_inv mr mapF reduceF fs0 d'"
proof -
  obtain s where s: "sched_step (Fail k) (sch d) = Some (Inr s)" "k < length (remote d)"
      "d' = d\<lparr>sch := s, remote := remove_nth k (remote d), strays := strays d @ [(calls (sch d) ! k, remote d ! k)]\<rparr>"
    using st by (auto split: if_splits elim!: sched_with_cases)
  have len: "length (remote d) = length (calls (sch d))" using inv by (simp add: dist_inv_def)
  have a: "s = failed k (sch d)" using s(1) by (auto split: if_splits)
  then have c: "calls s = remove_nth k (calls (sch d))" "completed s = completed (sch d)"
    by (simp_all add: failed_def Let_def split_beta)
  then have "finished d' \<subseteq> finished d"
    by (intro finished_mono [where Z = "set (zip (calls (sch d)) (remote d))"])
       (use s(3) c len set_remove_nth in \<open>simp_all add: zip_remove_nth finished_def\<close>)
  moreover have "run_pc d = Scheduling"
    using inv s(2) by (auto simp: dist_inv_def sched_ok_def drained_def)
  moreover have "args_ok mr (phase (sch d)) (snd (calls (sch d) ! k))"
    using inv s(2) len by (simp add: dist_inv_def sched_ok_def)
  ultimately show ?thesis
    using inv s len c assms(3) by (intro inv_sched [OF inv, of "Fail k"]) (auto simp: dist_inv_def)
qed
lemma inv_others:
  assumes inv: "dist_inv mr mapF reduceF fs0 d"
    and "sch d' = sch d" "disk d' = disk d" "remote d' = remote d" "strays d' = strays d" "run_pc d' = run_pc d"
  shows "dist_inv mr mapF reduceF fs0 d'"
  using inv unfolding dist_inv_def maps_done_def reduces_done_def finished_def assms(2-) .

lemma inv_run_worker:
  assumes inv: "dist_inv mr mapF reduceF fs0 d" and st: "dist_step srt mapF reduceF (RunWorker w n par ok) d = Some (Inr d')"
  shows "dist_inv mr mapF reduceF fs0 d'"
proof -
  let ?d = "d\<lparr>wtab := (wtab d)(w \<mapsto> newWorker w n par)\<rparr>"
  have i: "dist_inv mr mapF reduceF fs0 (?d\<lparr>server := srv\<rparr>)" for srv by (rule inv_others [OF inv]) simp_all
  show ?thesis
  proof (cases ok)
    case True
    then obtain srv where "sched_with (NewWorker w) id (?d\<lparr>server := srv\<rparr>) = Some (Inr d')"
      using st by (auto simp: register_def Let_def bind_eq_Some_conv split: if_splits)
    then obtain s where s: "sched_step (NewWorker w) (sch d) = Some (Inr s)" "d' = ?d\<lparr>server := srv, sch := s\<rparr>"
      by (auto elim!: sched_with_cases)
    have "calls s = calls (sch d)" "completed s = completed (sch d)" "pc s = pc (sch d)" using s(1) by auto
    then show ?thesis
      using dist_invD [OF inv] s
      by (intro inv_sched [OF i [of srv], of "NewWorker w" d']) (simp_all add: finished_def)
  next
    case False
    then show ?thesis using st inv_others [OF inv, of d'] by (auto simp: Let_def split: if_splits)
  qed
qed

lemma inv_vanish:
  assumes inv: "dist_inv mr mapF reduceF fs0 d"
  shows "dist_inv mr mapF reduceF fs0 (vanish w d)"
proof -
  have len: "length (remote d) = length (calls (sch d))" using inv by (simp add: dist_inv_def)
  have b: "break_conn st = Replied \<longleftrightarrow> st = Replied" for st by (cases st) simp_all
  have "(c, Replied) \<in> set (zip (calls (sch d)) (remote d))"
    if "(c, Replied) \<in> set (zip (calls (sch d)) (remote (vanish w d)))" for c
    using that b len by (auto simp: vanish_def in_set_zip split: if_splits)
  then have "finished (vanish w d) \<subseteq> finished d" by (auto simp: finished_def vanish_def)
  from disk_done_mono [OF dist_invD(4) [OF inv] _ this]
  have "disk_ok mr mapF reduceF fs0 (maps_done mr (vanish w d)) (reduces_done (vanish w d)) (disk d)"
    by (simp add: vanish_def)
  moreover have "args_ok mr (phase (sch d)) (snd (fst z))" if "z \<in> set (strays (vanish w d))" for z
    using that dist_invD(3) [OF inv] by (fastforce simp: vanish_def)
  ultimately show ?thesis
    using dist_invD(1,5-7) [OF inv] len by (simp add: dist_inv_def vanish_def)
qed

lemma inv_next_phase:
  assumes inv: "dist_inv mr mapF reduceF fs0 d" and "run_pc d = Scheduling" and "pc (sch d) = Returned"
    and st: "next_phase d = Inr d'"
  shows "dist_inv mr mapF reduceF fs0 d'"
proof (cases "phase (sch d)")
  case mapPhase
  have ok: "sched_ok mr (sch d)" and disk: "disk_ok mr mapF reduceF fs0 (maps_done mr d) (reduces_done d) (disk d)"
    and strays: "\<forall>z \<in> set (strays d). args_ok mr mapPhase (snd (fst z))"
    using dist_invD [OF inv] mapPhase by simp_all
  obtain s where s: "schedule_init (master (sch d)) reducePhase = Inr s" "d' = d\<lparr>sch := s, remote := []\<rparr>"
    using st mapPhase by (auto simp: next_phase_def bindE_Inr_iff)
  have "same_job mr (master (sch d))" using ok by (simp add: sched_ok_def)
  from sched_ok_init [OF s(1) this]
  have s': "sched_ok mr s" "phase s = reducePhase" "calls s = []" "completed s = []" by blast+
  have "{0..<len (files mr)} \<subseteq> maps_done mr d"
    using returned_completed [OF ok assms(3)] mapPhase by (simp add: maps_done_def finished_def ntasks_def)
  then have "disk_ok mr mapF reduceF fs0 {0..<len (files mr)} {} (disk d)"
    by (intro disk_ok_mono [OF disk]) simp_all
  then show ?thesis
    using s(2) s' strays assms(2)
    by (simp add: dist_inv_def maps_done_def reduces_done_def finished_def args_ok_def)
next
  case reducePhase
  then have "d' = d\<lparr>run_pc := Killing\<rparr>" using st by (simp add: next_phase_def)
  then show ?thesis
    using dist_invD [OF inv] reducePhase assms(3)
    by (simp add: dist_inv_def maps_done_def reduces_done_def finished_def)
qed

lemma sched_ok_stats: "sched_ok mr s \<Longrightarrow> sched_ok mr (s\<lparr>master := (master s)\<lparr>stats := ns\<rparr>\<rparr>)"
  by (simp add: sched_ok_def same_job_def accounted_def drained_def)

lemma inv_kill:
  assumes inv: "dist_inv mr mapF reduceF fs0 d" and "run_pc d = Killing"
  shows "dist_inv mr mapF reduceF fs0 (finish_workers up d)"
  using dist_invD [OF inv] assms(2)
  by (simp add: dist_inv_def finish_workers_def Let_def split_beta sched_ok_stats
      maps_done_def reduces_done_def finished_def)

lemma inv_stop:
  assumes inv: "dist_inv mr mapF reduceF fs0 d" and "run_pc d = Stopping"
  shows "dist_inv mr mapF reduceF fs0 (d\<lparr>server := srv, run_pc := Merging\<rparr>)"
  using dist_invD [OF inv] assms(2) by (simp add: dist_inv_def maps_done_def reduces_done_def finished_def)

lemma inv_wait:
  assumes inv: "dist_inv mr mapF reduceF fs0 d" and "run_pc d = Sending"
  shows "dist_inv mr mapF reduceF fs0 (d\<lparr>run_pc := Done\<rparr>)"
  using dist_invD [OF inv] assms(2) by (simp add: dist_inv_def maps_done_def reduces_done_def finished_def)

lemma merge_work:
  assumes inv: "dist_inv mr mapF reduceF fs0 d" and "run_pc d = Merging" and "0 < nReduce mr"
  shows "\<exists>d'. dist_merge d = Inr d' \<and> dist_inv mr mapF reduceF fs0 d' \<and> run_pc d' = Sending"
proof -
  let ?job = "jobName mr" and ?kvs = "all_records mapF fs0 (files mr)"
  have ok: "sched_ok mr (sch d)" "phase (sch d) = reducePhase" "pc (sch d) = Returned"
    and disk: "disk_ok mr mapF reduceF fs0 (maps_done mr d) (reduces_done d) (disk d)"
    using dist_invD [OF inv] assms(2) by simp_all
  have mr: "jobName (master (sch d)) = ?job" "nReduce (master (sch d)) = nReduce mr"
    using ok(1) by (simp_all add: sched_ok_def same_job_def)
  have "reduces_done d = {0..<nReduce mr}"
    using returned_completed [OF ok(1,3)] ok(2) by (simp add: reduces_done_def finished_def ntasks_def)
  then have "\<forall>r \<in> {0..<nReduce mr}. disk d (mergeName ?job r) =
      Some (concat (map json_Encode (reduced (nReduce mr) reduceF ?kvs r)))"
    using disk by (simp add: disk_ok_def reduce_file_def)
  from merge_reduced [OF assms(3) this]
  have m: "merge ?job (nReduce mr) (disk d) = Inr ((disk d)(resultName ?job \<mapsto> mr_spec mapF reduceF fs0 (files mr)))"
    by (simp add: mr_spec_def Let_def)
  let ?d = "d\<lparr>disk := (disk d)(resultName ?job \<mapsto> mr_spec mapF reduceF fs0 (files mr)), run_pc := Sending\<rparr>"
  have "resultName ?job \<in> set (job_files ?job (len (files mr)) (nReduce mr))" by (simp add: job_files_def)
  then have "disk_ok mr mapF reduceF fs0 (maps_done mr d) (reduces_done d) (disk ?d)"
    using disk resultName_other [symmetric] by (auto simp: disk_ok_def mapped_def)
  moreover have "maps_done mr ?d = maps_done mr d" "reduces_done ?d = reduces_done d"
    by (simp_all add: maps_done_def reduces_done_def finished_def split: jobPhase.split)
  ultimately have "disk_ok mr mapF reduceF fs0 (maps_done mr ?d) (reduces_done ?d) (disk ?d)" by simp
  then have "dist_inv mr mapF reduceF fs0 ?d" using dist_invD [OF inv] ok by (simp add: dist_inv_def)
  moreover have "dist_merge d = Inr ?d" using m mr by (simp add: dist_merge_def Let_def)
  ultimately show ?thesis by simp
qed
definition job_hyps :: "Master \<Rightarrow> reducer \<Rightarrow> filesystem \<Rightarrow> bool" where
  "job_hyps mr reduceF fs0 \<longleftrightarrow> inputs_safe mr fs0 \<and> order_free reduceF \<and> 0 < nReduce mr"

lemma serve_cases:
  assumes "serve srt mapF reduceF c st wks fs = Some (Inr (st', wks', fs'))"
  shows "if st = Running then st' = Replied \<and> DoTask_work srt mapF reduceF (snd c) fs = Inr fs'
    else st' \<noteq> Replied \<and> fs' = fs"
  using assms by (auto simp: serve_def bindE_Inr_iff split: option.splits stage.splits)

context key_sort
begin

lemma work_ok:
  assumes ok: "disk_ok mr mapF reduceF fs0 M R fs" and args: "args_ok mr ph arg" and hyps: "job_hyps mr reduceF fs0"
    and all: "ph = reducePhase \<Longrightarrow> M = {0..<len (files mr)}"
    and w: "DoTask_work srt mapF reduceF arg fs = Inr fs'"
  shows "disk_ok mr mapF reduceF fs0 (if Phase arg = mapPhase then insert (TaskNumber arg) M else M)
      (if Phase arg = mapPhase then R else insert (TaskNumber arg) R) fs' \<and>
    fs' (resultName (jobName mr)) = fs (resultName (jobName mr))"
proof -
  let ?t = "TaskNumber arg"
  have t: "0 \<le> ?t" "?t < ntasks mr (Phase arg)" "Phase arg = reducePhase \<longrightarrow> ph = reducePhase"
      "arg = task_args mr (Phase arg) ?t"
    using args unfolding args_ok_def by blast+
  show ?thesis
  proof (cases "Phase arg")
    case mapPhase
    then have "?t < len (files mr)" "DoTask_work srt mapF reduceF (task_args mr mapPhase ?t) fs = Inr fs'"
      using t w by (simp_all add: ntasks_def)
    with map_work [OF ok _ _ t(1), of srt] hyps mapPhase show ?thesis by (auto simp: job_hyps_def)
  next
    case reducePhase
    then have r: "?t < nReduce mr" "DoTask_work srt mapF reduceF (task_args mr reducePhase ?t) fs = Inr fs'"
        "M = {0..<len (files mr)}"
      using t w all by (simp_all add: ntasks_def)
    with reduce_work [of mr mapF reduceF fs0 R fs ?t] ok hyps t(1) reducePhase show ?thesis
      by (auto simp: job_hyps_def)
  qed
qed

lemma inv_work:
  assumes inv: "dist_inv mr mapF reduceF fs0 d" and hyps: "job_hyps mr reduceF fs0"
    and sv: "serve srt mapF reduceF c st (wtab d) (disk d) = Some (Inr (st', wks', fs'))"
    and args: "args_ok mr (phase (sch d)) (snd c)"
    and d': "sch d' = sch d" "run_pc d' = run_pc d" "disk d' = fs'" "length (remote d') = length (remote d)"
      "\<forall>z \<in> set (strays d'). args_ok mr (phase (sch d)) (snd (fst z))"
    and fin: "finished d' \<subseteq> finished d \<union> (if st' = Replied \<and> Phase (snd c) = phase (sch d) then {task_of c} else {})"
  shows "dist_inv mr mapF reduceF fs0 d'"
proof -
  have ok: "disk_ok mr mapF reduceF fs0 (maps_done mr d) (reduces_done d) (disk d)" by (rule dist_invD(4) [OF inv])
  have "phase (sch d) = reducePhase \<Longrightarrow> maps_done mr d = {0..<len (files mr)}" by (simp add: maps_done_def)
  then have "disk_ok mr mapF reduceF fs0 (maps_done mr d') (reduces_done d') fs' \<and>
      fs' (resultName (jobName mr)) = disk d (resultName (jobName mr))"
  proof (cases "st = Running")
    case True
    then have st': "st' = Replied" "DoTask_work srt mapF reduceF (snd c) (disk d) = Inr fs'"
      using serve_cases [OF sv] by simp_all
    have "Phase (snd c) = mapPhase" if "phase (sch d) = mapPhase"
      using args that by (cases "Phase (snd c)") (simp_all add: args_ok_def)
    moreover have "task_of c \<in> {0..<len (files mr)}" if "Phase (snd c) = mapPhase"
      using args that by (simp add: args_ok_def task_of_def ntasks_def)
    ultimately have
        "maps_done mr d' \<subseteq> (if Phase (snd c) = mapPhase then insert (TaskNumber (snd c)) (maps_done mr d) else maps_done mr d)"
        "reduces_done d' \<subseteq> (if Phase (snd c) = mapPhase then reduces_done d else insert (TaskNumber (snd c)) (reduces_done d))"
      using fin st'(1) d'(1) jobPhase.exhaust [of "Phase (snd c)"]
      by (auto simp: maps_done_def reduces_done_def task_of_def split: jobPhase.splits if_splits)
    then show ?thesis
      using work_ok [OF ok args hyps _ st'(2)] disk_ok_mono by (metis maps_done_def jobPhase.simps(4))
  next
    case False
    then have "fs' = disk d" "finished d' \<subseteq> finished d" using serve_cases [OF sv] fin by simp_all
    then show ?thesis using disk_done_mono [OF ok, of d'] d'(1) by simp
  qed
  then show ?thesis using dist_invD [OF inv] d' by (simp add: dist_inv_def)
qed

lemma inv_serve:
  assumes inv: "dist_inv mr mapF reduceF fs0 d" and hyps: "job_hyps mr reduceF fs0"
    and st: "dist_step srt mapF reduceF (Serve k) d = Some (Inr d')"
  shows "dist_inv mr mapF reduceF fs0 d'"
proof -
  obtain st' wks' fs' where k: "k < length (remote d)"
      and sv: "serve srt mapF reduceF (calls (sch d) ! k) (remote d ! k) (wtab d) (disk d) = Some (Inr (st', wks', fs'))"
      and d': "d' = d\<lparr>remote := (remote d)[k := st'], wtab := wks', disk := fs'\<rparr>"
    using st by (auto simp: bindE_Inr_iff split: if_splits)
  let ?c = "calls (sch d) ! k"
  have len: "length (remote d) = length (calls (sch d))" by (rule dist_invD [OF inv])
  then have c: "args_ok mr (phase (sch d)) (snd ?c)" "Phase (snd ?c) = phase (sch d)"
    using dist_invD(1) [OF inv] k by (simp_all add: sched_ok_def)
  have "set (zip (calls (sch d)) ((remote d)[k := st'])) \<subseteq> insert (?c, st') (set (zip (calls (sch d)) (remote d)))"
    using set_update_subset_insert [of "zip (calls (sch d)) (remote d)" k "(?c, st')"] len k
    by (simp add: zip_update [of _ k ?c, symmetric])
  then have "x = ?c \<and> st' = Replied \<or> (x, Replied) \<in> set (zip (calls (sch d)) (remote d))"
      if "(x, Replied) \<in> set (zip (calls (sch d)) ((remote d)[k := st']))" for x
    using that by blast
  then have "finished d' \<subseteq> finished d \<union> (if st' = Replied \<and> Phase (snd ?c) = phase (sch d) then {task_of ?c} else {})"
    using d' c(2) unfolding finished_def by fastforce
  then show ?thesis
    by (intro inv_work [OF inv hyps sv c(1)]) (use d' dist_invD(3) [OF inv] in simp_all)
qed

lemma inv_stray:
  assumes inv: "dist_inv mr mapF reduceF fs0 d" and hyps: "job_hyps mr reduceF fs0"
    and st: "dist_step srt mapF reduceF (Stray k) d = Some (Inr d')"
  shows "dist_inv mr mapF reduceF fs0 d'"
proof -
  let ?z = "strays d ! k"
  obtain st' wks' fs' where k: "k < length (strays d)"
      and sv: "serve srt mapF reduceF (fst ?z) (snd ?z) (wtab d) (disk d) = Some (Inr (st', wks', fs'))"
      and d': "d' = d\<lparr>strays := (strays d)[k := (fst ?z, st')], wtab := wks', disk := fs'\<rparr>"
    using st by (auto simp: bindE_Inr_iff split: if_splits)
  have z: "args_ok mr (phase (sch d)) (snd (fst ?z))" using k by (intro dist_invD(3) [OF inv]) simp
  then have "\<forall>z \<in> set (strays d'). args_ok mr (phase (sch d)) (snd (fst z))"
    using d' dist_invD(3) [OF inv] set_update_subset_insert [of "strays d" k] by fastforce
  then show ?thesis
    by (intro inv_work [OF inv hyps sv z]) (use d' in \<open>auto simp: finished_def\<close>)
qed

lemma dist_inv_step:
  assumes "dist_inv mr mapF reduceF fs0 d" and "job_hyps mr reduceF fs0" and "timely a d"
    and st: "dist_step srt mapF reduceF a d = Some (Inr d')"
  shows "dist_inv mr mapF reduceF fs0 d'"
proof (cases a)
  case (Sched x) then show ?thesis using inv_own assms by blast
next
  case (Serve k) then show ?thesis using inv_serve assms by blast
next
  case (Return k) then show ?thesis using inv_return assms by blast
next
  case (GiveUp k) then show ?thesis using inv_give_up assms by blast
next
  case (Stray k) then show ?thesis using inv_stray assms by blast
next
  case (RunWorker w n par ok) then show ?thesis using inv_run_worker assms by blast
next
  case (Vanish w) then show ?thesis using inv_vanish assms(1) st by auto
next
  case NextPhase then show ?thesis using inv_next_phase [OF assms(1)] st by (auto split: if_splits)
next
  case (Kill up) then show ?thesis using inv_kill [OF assms(1)] st by (auto split: if_splits)
next
  case (Stop ok) then show ?thesis using inv_stop [OF assms(1)] st by (auto simp: bindE_Inr_iff split: if_splits)
next
  case Merge then show ?thesis using merge_work [OF assms(1)] assms(2) st by (auto simp: job_hyps_def split: if_splits)
next
  case Wait then show ?thesis using inv_wait [OF assms(1)] st by (auto split: if_splits)
next
  case Select then show ?thesis using inv_others [OF assms(1), of d'] st by auto
next
  case AcceptError then show ?thesis using inv_others [OF assms(1), of d'] st by auto
qed

end
section \<open>Runs\<close>

fun all_timely :: "sorter \<Rightarrow> mapper \<Rightarrow> reducer \<Rightarrow> dist_action list \<Rightarrow> dist \<Rightarrow> bool" where
  "all_timely srt mapF reduceF [] d = True"
| "all_timely srt mapF reduceF (a # as) d =
     (timely a d \<and> (case dist_step srt mapF reduceF a d of
        Some (Inr d') \<Rightarrow> all_timely srt mapF reduceF as d' | _ \<Rightarrow> True))"

lemma dist_run_append:
  "dist_run srt mapF reduceF xs d = Some d1 \<Longrightarrow> dist_run srt mapF reduceF ys d1 = Some d2 \<Longrightarrow>
   dist_run srt mapF reduceF (xs @ ys) d = Some d2"
  by (induction xs arbitrary: d) (auto split: option.splits sum.splits)

lemma all_timely_append:
  "dist_run srt mapF reduceF xs d = Some d1 \<Longrightarrow>
   all_timely srt mapF reduceF (xs @ ys) d \<longleftrightarrow> all_timely srt mapF reduceF xs d \<and> all_timely srt mapF reduceF ys d1"
  by (induction xs arbitrary: d) (auto split: option.splits sum.splits)

definition job_master :: "string \<Rightarrow> string list \<Rightarrow> int \<Rightarrow> string \<Rightarrow> Master" where
  "job_master job fls nR addr = (newMaster addr)\<lparr>jobName := job, files := fls, nReduce := nR\<rparr>"

lemma job_master_simps [simp]:
  "jobName (job_master job fls nR addr) = job" "files (job_master job fls nR addr) = fls"
  "nReduce (job_master job fls nR addr) = nR" "workers (job_master job fls nR addr) = []"
  by (simp_all add: job_master_def newMaster_def)

lemma Distributed_init:
  assumes "Distributed job fls nR addr ok fs = Inr d"
  shows "dist_inv (job_master job fls nR addr) mapF reduceF fs d" "schedule_init (job_master job fls nR addr) mapPhase = Inr (sch d)"
    "run_pc d = Scheduling" "disk d = fs" "wtab d = Map.empty" "remote d = []" "strays d = []"
    "server d = \<lparr>shutdown = False, listening = True, server_pc = Selecting\<rparr>"
proof -
  let ?mr = "job_master job fls nR addr"
  show s: "schedule_init ?mr mapPhase = Inr (sch d)" and d: "run_pc d = Scheduling" "disk d = fs" "wtab d = Map.empty"
      "remote d = []" "strays d = []" "server d = \<lparr>shutdown = False, listening = True, server_pc = Selecting\<rparr>"
    using assms by (auto simp: Distributed_def startRPCServer_def job_master_def Let_def bindE_Inr_iff split: if_splits)
  have "same_job ?mr ?mr" by (simp add: same_job_def)
  from sched_ok_init [OF s this]
  have s': "sched_ok ?mr (sch d)" "phase (sch d) = mapPhase" "calls (sch d) = []" "completed (sch d) = []" by blast+
  then show "dist_inv ?mr mapF reduceF fs d"
    using d by (simp add: dist_inv_def maps_done_def reduces_done_def finished_def disk_ok_def)
qed

context key_sort
begin

lemma dist_inv_run:
  assumes "dist_run srt mapF reduceF as d = Some d'" and "all_timely srt mapF reduceF as d"
    and "dist_inv mr mapF reduceF fs0 d" and "job_hyps mr reduceF fs0"
  shows "dist_inv mr mapF reduceF fs0 d'"
  using assms(1-3)
proof (induction "as" arbitrary: d)
  case (Cons a "as")
  then obtain d1 where d1: "dist_step srt mapF reduceF a d = Some (Inr d1)" "dist_run srt mapF reduceF as d1 = Some d'"
    by (auto split: option.splits sum.splits)
  then show ?case using Cons.IH [OF d1(2)] Cons.prems dist_inv_step [OF Cons.prems(3) assms(4) _ d1(1)] by simp
qed simp

end

section \<open>A worker that stays\<close>

text \<open>
  The scheduler is about to take the next of the tasks \<open>ts\<close>, and a worker without a limit on its connections is
  idle; registrations are open.
\<close>

definition idle :: "string \<Rightarrow> int list \<Rightarrow> dist \<Rightarrow> bool" where
  "idle w ts d \<longleftrightarrow> run_pc d = Scheduling \<and> lone_worker w ts (sch d) \<and> remote d = [] \<and>
     (\<exists>wk. wtab d w = Some wk \<and> nRPC wk < 0 \<and> concurrent wk = 0) \<and>
     server d = \<lparr>shutdown = False, listening = True, server_pc = Accepting\<rparr> \<and> workers (master (sch d)) = [w]"

lemma serve_task:
  assumes "wks w = Some wk" "nRPC wk < 0" "concurrent wk = 0" and work: "DoTask_work srt mapF reduceF arg fs = Inr fs'"
  obtains wk1 wk2 wk3 where
    "serve srt mapF reduceF (w, arg) Dialing wks fs = Some (Inr (Accepted, wks(w \<mapsto> wk1), fs))"
    "serve srt mapF reduceF (w, arg) Accepted (wks(w \<mapsto> wk1)) fs = Some (Inr (Running, wks(w \<mapsto> wk2), fs))"
    "serve srt mapF reduceF (w, arg) Running (wks(w \<mapsto> wk2)) fs = Some (Inr (Replied, wks(w \<mapsto> wk3), fs'))"
    "nRPC wk3 < 0" "concurrent wk3 = 0"
proof -
  let ?wk1 = "wk\<lparr>nRPC := nRPC wk - 1\<rparr>"
  have "\<exists>wk2 p. DoTask_enter ?wk1 = Inr (wk2, p) \<and> nRPC wk2 = nRPC wk - 1 \<and> concurrent wk2 = 1"
    using assms(3) by (auto simp: DoTask_enter_def Let_def split: option.splits prod.splits)
  then obtain wk2 p where 2: "DoTask_enter ?wk1 = Inr (wk2, p)" "nRPC wk2 = nRPC wk - 1" "concurrent wk2 = 1" by blast
  show thesis
    by (rule that [of ?wk1 wk2 "DoTask_leave wk2"])
       (use assms 2 in \<open>simp_all add: serve_def accept_one_def DoTask_leave_def Let_def\<close>)
qed

context key_sort
begin

lemma idle_round:
  assumes idle: "idle w (t # ts) d" and inv: "dist_inv mr mapF reduceF fs0 d" and hyps: "job_hyps mr reduceF fs0"
    and nR: "nReduce mr \<le> len (files mr)"
  shows "\<exists>d'. dist_run srt mapF reduceF [Sched Fetch, Sched (Take 0), Serve 0, Serve 0, Serve 0, Return 0] d = Some d' \<and>
    idle w ts d' \<and> phase (sch d') = phase (sch d)"
proof -
  let ?s = "sch d"
  have l: "pc ?s = Loop" "tasks ?s = t # ts" "offers ?s = [w]" "calls ?s = []"
    and d: "run_pc d = Scheduling" "remote d = []" "workers (master ?s) = [w]"
      "server d = \<lparr>shutdown = False, listening = True, server_pc = Accepting\<rparr>"
    using idle by (auto simp: idle_def lone_worker_def)
  obtain wk where wk: "wtab d w = Some wk" "nRPC wk < 0" "concurrent wk = 0" using idle by (auto simp: idle_def)
  have ok: "sched_ok mr ?s" by (rule dist_invD [OF inv])
  then have mr: "same_job mr (master ?s)" by (simp add: sched_ok_def)
  have t: "0 \<le> t" "t < ntasks mr (phase ?s)" using accounted_range [of _ ?s t] ok l(2) by (auto simp: sched_ok_def)
  then have tf: "t < len (files mr)" using nR by (cases "phase ?s") (simp_all add: ntasks_def)
  let ?arg = "task_args mr (phase ?s) t"
  have args: "args_ok mr (phase ?s) ?arg" using t by (simp add: args_ok_def task_args_def)
  have "\<exists>fs'. DoTask_work srt mapF reduceF ?arg (disk d) = Inr fs'"
  proof (cases "phase ?s")
    case mapPhase
    then show ?thesis
      using map_work [OF dist_invD(4) [OF inv] _ _ t(1), of srt] tf hyps by (auto simp: job_hyps_def)
  next
    case reducePhase
    then have "disk_ok mr mapF reduceF fs0 {0..<len (files mr)} (reduces_done d) (disk d)"
      using dist_invD(4) [OF inv] by (simp add: maps_done_def)
    from reduce_work [OF this _ t(1)] show ?thesis using t(2) hyps reducePhase by (auto simp: job_hyps_def ntasks_def)
  qed
  then obtain fs' where work: "DoTask_work srt mapF reduceF ?arg (disk d) = Inr fs'" by blast
  obtain wk1 wk2 wk3 where sv:
      "serve srt mapF reduceF (w, ?arg) Dialing (wtab d) (disk d) = Some (Inr (Accepted, (wtab d)(w \<mapsto> wk1), disk d))"
      "serve srt mapF reduceF (w, ?arg) Accepted ((wtab d)(w \<mapsto> wk1)) (disk d) = Some (Inr (Running, (wtab d)(w \<mapsto> wk2), disk d))"
      "serve srt mapF reduceF (w, ?arg) Running ((wtab d)(w \<mapsto> wk2)) (disk d) = Some (Inr (Replied, (wtab d)(w \<mapsto> wk3), fs'))"
      "nRPC wk3 < 0" "concurrent wk3 = 0"
    using serve_task [of "wtab d" w wk srt mapF reduceF ?arg "disk d" fs'] wk work by blast
  let ?s1 = "?s\<lparr>tasks := ts, pc := Have t\<rparr>"
  let ?s2 = "?s1\<lparr>offers := [], wg := wg ?s + 1, calls := [(w, ?arg)], pc := Loop\<rparr>"
  have "sched_step Fetch ?s = Some (Inr ?s1)" using l by (simp add: fetch_def)
  moreover have "sched_step (Take 0) ?s1 = Some (Inr ?s2)"
    using l t(1) tf same_job_simps [OF mr]
    by (simp add: hand_out_def Let_def remove_nth_def task_args_def)
  moreover have "sched_step (Answer 0) ?s2 = Some (Inr (answered 0 ?s2))" by simp
  ultimately have "dist_run srt mapF reduceF [Sched Fetch, Sched (Take 0), Serve 0, Serve 0, Serve 0, Return 0] d =
      Some (d\<lparr>sch := answered 0 ?s2, wtab := (wtab d)(w \<mapsto> wk3), disk := fs', remote := []\<rparr>)"
    using d sv(1-3) by (simp add: sched_with_def remove_nth_def del: sched_step.simps)
  moreover have "idle w ts (d\<lparr>sch := answered 0 ?s2, wtab := (wtab d)(w \<mapsto> wk3), disk := fs', remote := []\<rparr>)"
    using d sv(4,5) by (simp add: idle_def lone_worker_def answered_def remove_nth_def)
  ultimately show ?thesis by (simp add: answered_def)
qed

end
context key_sort
begin

text \<open>All tasks of a phase, one after the other.\<close>

lemma idle_rounds:
  assumes "idle w ts d" and "dist_inv mr mapF reduceF fs0 d" and hyps: "job_hyps mr reduceF fs0"
    and nR: "nReduce mr \<le> len (files mr)"
  shows "\<exists>acts d'. dist_run srt mapF reduceF acts d = Some d' \<and> all_timely srt mapF reduceF acts d \<and>
    idle w [] d' \<and> phase (sch d') = phase (sch d) \<and> dist_inv mr mapF reduceF fs0 d'"
  using assms(1,2)
proof (induction ts arbitrary: d)
  case Nil
  then show ?case by (intro exI [of _ "[]"] exI [of _ d]) simp
next
  case (Cons t ts)
  let ?round = "[Sched Fetch, Sched (Take 0), Serve 0, Serve 0, Serve 0, Return 0]"
  obtain d1 where 1: "dist_run srt mapF reduceF ?round d = Some d1" "idle w ts d1" "phase (sch d1) = phase (sch d)"
    using idle_round [OF Cons.prems hyps nR] by blast
  have ti: "all_timely srt mapF reduceF ?round d" by (simp split: option.splits sum.splits)
  have "dist_inv mr mapF reduceF fs0 d1" by (rule dist_inv_run [OF 1(1) ti Cons.prems(2) hyps])
  with Cons.IH 1(2) obtain acts d' where 2: "dist_run srt mapF reduceF acts d1 = Some d'"
      "all_timely srt mapF reduceF acts d1" "idle w [] d'" "phase (sch d') = phase (sch d1)"
      "dist_inv mr mapF reduceF fs0 d'"
    by blast
  have "dist_run srt mapF reduceF (?round @ acts) d = Some d'" using dist_run_append [OF 1(1) 2(1)] .
  moreover have "all_timely srt mapF reduceF (?round @ acts) d" using all_timely_append [OF 1(1)] ti 2(2) by blast
  ultimately show ?case using 2(3-5) 1(3) by metis
qed

text \<open>A phase that begins with all its tasks and the worker not yet forwarded runs to the return of \<^verbatim>\<open>schedule\<close>.\<close>

lemma phase_runs:
  assumes inv: "dist_inv mr mapF reduceF fs0 d" and hyps: "job_hyps mr reduceF fs0" and nR: "nReduce mr \<le> len (files mr)"
    and idle: "idle w (tasks (sch d)) (d\<lparr>sch := forward (sch d)\<rparr>)" and fresh: "next_worker (sch d) = 0"
  shows "\<exists>acts d'. dist_run srt mapF reduceF acts d = Some d' \<and> all_timely srt mapF reduceF acts d \<and>
    pc (sch d') = Returned \<and> phase (sch d') = phase (sch d) \<and> dist_inv mr mapF reduceF fs0 d' \<and>
    (\<exists>s. idle w [] (d'\<lparr>sch := s\<rparr>)) \<and> workers (master (sch d')) = [w]"
proof -
  let ?d0 = "d\<lparr>sch := forward (sch d)\<rparr>"
  have w: "workers (master (sch d)) = [w]" "run_pc d = Scheduling" using idle by (simp_all add: idle_def forward_def)
  then have 0: "dist_run srt mapF reduceF [Sched Forward] d = Some ?d0" "all_timely srt mapF reduceF [Sched Forward] d"
    using fresh by (simp_all add: sched_with_def)
  have "dist_inv mr mapF reduceF fs0 ?d0" by (rule dist_inv_run [OF 0 inv hyps])
  from idle_rounds [OF idle this hyps nR]
  obtain acts d1 where 1: "dist_run srt mapF reduceF acts ?d0 = Some d1" "all_timely srt mapF reduceF acts ?d0"
      "idle w [] d1" "phase (sch d1) = phase (sch ?d0)" "dist_inv mr mapF reduceF fs0 d1"
    by blast
  let ?d2 = "d1\<lparr>sch := (sch d1)\<lparr>pc := Returned\<rparr>\<rparr>"
  have "wg (sch d1) = 0" using 1(3) dist_invD(1) [OF 1(5)] by (simp add: idle_def lone_worker_def sched_ok_def drained_def)
  then have 2: "dist_run srt mapF reduceF [Sched Fetch, Sched Finish] d1 = Some ?d2"
      "all_timely srt mapF reduceF [Sched Fetch, Sched Finish] d1"
    using 1(3) by (simp_all add: idle_def lone_worker_def sched_with_def fetch_def)
  let ?acts = "[Sched Forward] @ acts @ [Sched Fetch, Sched Finish]"
  have "dist_run srt mapF reduceF ?acts d = Some ?d2" by (rule dist_run_append [OF 0(1) dist_run_append [OF 1(1) 2(1)]])
  moreover have "all_timely srt mapF reduceF ?acts d" using 0 1(1,2) 2(2) all_timely_append by blast
  moreover have "dist_inv mr mapF reduceF fs0 ?d2" by (rule dist_inv_run [OF 2 1(5) hyps])
  moreover have "\<exists>s. idle w [] (?d2\<lparr>sch := s\<rparr>)" using 1(3) by (intro exI [of _ "sch d1"]) simp
  moreover have "workers (master (sch ?d2)) = [w]" using 1(3) by (simp add: idle_def)
  moreover have "phase (sch ?d2) = phase (sch d)" using 1(4) by (simp add: forward_def)
  ultimately show ?thesis by (intro exI [of _ ?acts] exI [of _ ?d2]) simp
qed

end
text \<open>The end of a job: \<^verbatim>\<open>killWorkers\<close>, \<^verbatim>\<open>stopRPCServer\<close>, \<^verbatim>\<open>merge\<close> and \<^verbatim>\<open>Wait\<close>; the server's loop ends.\<close>

lemma job_ends:
  assumes inv: "dist_inv mr mapF reduceF fs0 d" and pos: "0 < nReduce mr" and "run_pc d = Scheduling"
    and "phase (sch d) = reducePhase" and "pc (sch d) = Returned"
    and "server d = \<lparr>shutdown = False, listening = True, server_pc = Accepting\<rparr>"
  shows "\<exists>d'. dist_run srt mapF reduceF [NextPhase, Kill [w], Stop True, Select, Merge, Wait] d = Some d' \<and>
    run_pc d' = Done \<and> server_pc (server d') = Exited"
proof -
  let ?d1 = "finish_workers [w] (d\<lparr>run_pc := Killing\<rparr>)"
  let ?srv = "\<lparr>shutdown = True, listening = False, server_pc = Selecting\<rparr>"
  let ?d2 = "?d1\<lparr>server := ?srv, run_pc := Merging\<rparr>"
  let ?d3 = "?d2\<lparr>server := ?srv\<lparr>server_pc := Exited\<rparr>\<rparr>"
  have k: "next_phase d = Inr (d\<lparr>run_pc := Killing\<rparr>)" using assms(4) by (simp add: next_phase_def)
  have "dist_inv mr mapF reduceF fs0 (d\<lparr>run_pc := Killing\<rparr>)" by (rule inv_next_phase [OF inv assms(3,5) k])
  then have "dist_inv mr mapF reduceF fs0 ?d1" by (intro inv_kill) simp_all
  then have "dist_inv mr mapF reduceF fs0 ?d2" by (intro inv_stop) (simp_all add: finish_workers_def Let_def split_beta)
  then have i3: "dist_inv mr mapF reduceF fs0 ?d3" by (rule inv_others) simp_all
  obtain d' where m: "dist_merge ?d3 = Inr d'" "run_pc d' = Sending" using merge_work [OF i3 _ pos] by auto
  then have "server d' = server ?d3" by (auto simp: dist_merge_def Let_def bindE_Inr_iff)
  moreover have "dist_run srt mapF reduceF [NextPhase, Kill [w], Stop True, Select] d = Some ?d3"
    using assms(3-6) k by (simp add: finish_workers_def Let_def split_beta stopRPCServer_def accept_conn_def
        Master_Shutdown_def server_select_def)
  then have "dist_run srt mapF reduceF ([NextPhase, Kill [w], Stop True, Select] @ [Merge, Wait]) d = Some (d'\<lparr>run_pc := Done\<rparr>)"
    by (rule dist_run_append) (use m in simp)
  ultimately show ?thesis by (intro exI [of _ "d'\<lparr>run_pc := Done\<rparr>"]) simp
qed

context key_sort
begin

lemma job_returns:
  assumes init: "Distributed job fls nR addr ok fs = Inr d"
    and hyps: "job_hyps (job_master job fls nR addr) reduceF fs" and nR: "nR \<le> len fls"
  shows "\<exists>acts d'. dist_run srt mapF reduceF acts d = Some d' \<and> all_timely srt mapF reduceF acts d \<and>
    run_pc d' = Done \<and> server_pc (server d') = Exited"
proof -
  let ?mr = "job_master job fls nR addr"
  define w n where "w = ''worker''" and "n = (-1 :: int)"
  note i = Distributed_init [OF init]
  have s: "sch d = \<lparr>master = ?mr, phase = mapPhase, next_worker = 0, tasks = [0..len fls - 1], pc = Loop,
      offers = [], calls = [], wg = 0, completed = []\<rparr>"
    using i(2) by (auto simp: schedule_init_def ntasks_def split: if_splits)
  let ?open = "\<lparr>shutdown = False, listening = True, server_pc = Accepting\<rparr>"
  let ?start = "[Select, RunWorker w n None True, Select]"
  let ?d0 = "d\<lparr>wtab := [w \<mapsto> newWorker w n None], server := ?open, sch := (sch d)\<lparr>master := Register w ?mr\<rparr>\<rparr>"
  have 0: "dist_run srt mapF reduceF ?start d = Some ?d0" "all_timely srt mapF reduceF ?start d"
    using i(5,8) s by (simp_all add: server_select_def register_def accept_conn_def sched_with_def)
  have inv0: "dist_inv ?mr mapF reduceF fs ?d0" by (rule dist_inv_run [OF 0 i(1) hyps])
  have "idle w (tasks (sch ?d0)) (?d0\<lparr>sch := forward (sch ?d0)\<rparr>)" "next_worker (sch ?d0) = 0"
    using i s by (simp_all add: n_def idle_def lone_worker_def forward_def Register_def newWorker_def)
  from phase_runs [OF inv0 hyps _ this]
  obtain acts1 d1 where 1: "dist_run srt mapF reduceF acts1 ?d0 = Some d1" "all_timely srt mapF reduceF acts1 ?d0"
      "pc (sch d1) = Returned" "phase (sch d1) = mapPhase" "dist_inv ?mr mapF reduceF fs d1"
      "\<exists>s. idle w [] (d1\<lparr>sch := s\<rparr>)" "workers (master (sch d1)) = [w]"
    using nR s by auto
  have d1: "run_pc d1 = Scheduling" "remote d1 = []" "server d1 = ?open"
      "\<exists>wk. wtab d1 w = Some wk \<and> nRPC wk < 0 \<and> concurrent wk = 0"
    using 1(6) by (auto simp: idle_def)
  have "same_job ?mr (master (sch d1))" using dist_invD(1) [OF 1(5)] by (simp add: sched_ok_def)
  then have "ntasks (master (sch d1)) reducePhase = nR" by (simp add: same_job_def ntasks_def)
  then obtain s2 where s2: "schedule_init (master (sch d1)) reducePhase = Inr s2" "master s2 = master (sch d1)"
      "next_worker s2 = 0" "pc s2 = Loop" "offers s2 = []" "calls s2 = []" "phase s2 = reducePhase"
    using hyps by (auto simp: schedule_init_def job_hyps_def)
  let ?d2 = "d1\<lparr>sch := s2, remote := []\<rparr>"
  have 2: "dist_run srt mapF reduceF [NextPhase] d1 = Some ?d2" "all_timely srt mapF reduceF [NextPhase] d1"
    using d1(1) 1(3,4) s2(1) by (simp_all add: next_phase_def)
  have inv2: "dist_inv ?mr mapF reduceF fs ?d2" by (rule dist_inv_run [OF 2 1(5) hyps])
  have "idle w (tasks (sch ?d2)) (?d2\<lparr>sch := forward (sch ?d2)\<rparr>)" "next_worker (sch ?d2) = 0"
    using d1 s2 1(7) by (simp_all add: idle_def lone_worker_def forward_def)
  from phase_runs [OF inv2 hyps _ this]
  obtain acts3 d3 where 3: "dist_run srt mapF reduceF acts3 ?d2 = Some d3" "all_timely srt mapF reduceF acts3 ?d2"
      "pc (sch d3) = Returned" "phase (sch d3) = reducePhase" "dist_inv ?mr mapF reduceF fs d3"
      "\<exists>s. idle w [] (d3\<lparr>sch := s\<rparr>)"
    using nR s2(7) by auto
  have "run_pc d3 = Scheduling" "server d3 = ?open" using 3(6) by (auto simp: idle_def)
  then obtain d4 where 4: "dist_run srt mapF reduceF [NextPhase, Kill [w], Stop True, Select, Merge, Wait] d3 = Some d4"
      "run_pc d4 = Done" "server_pc (server d4) = Exited"
    using job_ends [OF 3(5) _ _ 3(4,3), of srt w] hyps by (auto simp: job_hyps_def)
  have "all_timely srt mapF reduceF [NextPhase, Kill [w], Stop True, Select, Merge, Wait] d3"
    by (simp split: option.splits sum.splits)
  then show ?thesis
    using dist_run_append [OF 0(1) dist_run_append [OF 1(1) dist_run_append [OF 2(1) dist_run_append [OF 3(1) 4(1)]]]]
      all_timely_append [OF 0(1)] all_timely_append [OF 1(1)] all_timely_append [OF 2(1)] all_timely_append [OF 3(1)]
      0(2) 1(2) 2(2) 3(2) 4(2,3)
    by blast
qed

end

section \<open>A sample run\<close>

text \<open>
  A run in which the call for the first task fails while the worker executes it, the second worker does both map
  tasks, and the first worker ends its execution in the reduce phase.
\<close>

definition sample_job :: dist where
  "sample_job = projr (Distributed ''job'' [''a.txt'', ''b.txt''] 2 ''m'' True sample_fs)"

definition sample_task :: "dist_action list" where
  "sample_task = [Sched Fetch, Sched (Take 0), Serve 0, Serve 0, Serve 0, Return 0]"

definition sample_run :: "dist_action list" where
  "sample_run =
     [Select, RunWorker ''w1'' (-1) None True, Select, RunWorker ''w2'' 20 None True, Sched Forward, Sched Forward,
      Sched Fetch, Sched (Take 0), Serve 0, Serve 0, GiveUp 0] @
     sample_task @ sample_task @ [Sched Fetch, Sched Finish, NextPhase, Sched Forward, Stray 0] @
     sample_task @ sample_task @
     [Sched Fetch, Sched Finish, NextPhase, Kill [''w2''], Select, Stop True, Merge, Wait]"

lemma sample_job_init: "Distributed ''job'' [''a.txt'', ''b.txt''] 2 ''m'' True sample_fs = Inr sample_job"
  by (simp add: sample_job_def Distributed_def startRPCServer_def schedule_init_def ntasks_def newMaster_def)

lemma sample_job_inputs:
  "\<forall>f \<in> set [''a.txt'', ''b.txt'']. sample_fs f \<noteq> None \<and> f \<notin> set (job_files ''job'' (len [''a.txt'', ''b.txt'']) 2)"
  by (auto simp: sample_fs_def job_files_def reduceName_def mergeName_def resultName_def)

section \<open>Properties\<close>



end
