(* ===== verification/Spec2Isabelle.thy ===== *)
theory Spec2Isabelle
  imports Raft_Races Raft_Timers Raft_Availability Raft_Slices Config_Checks Raft_System_Safety MR_Distributed
begin

text \<open>
  A verification of the programs of the MIT 6.824 repository: the Raft consensus library
  (\<^verbatim>\<open>src/src/raft\<close>), the MapReduce library (\<^verbatim>\<open>src/src/mapreduce\<close>) and the two packages
  under them, the encoder \<^verbatim>\<open>src/src/labgob\<close> and the simulated network \<^verbatim>\<open>src/src/labrpc\<close>.

  \<^bold>\<open>The program.\<close> A Raft peer (\<^verbatim>\<open>raft.go\<close>) is a record guarded by one mutex. Goroutines take the mutex for
  short critical sections: the two RPC handlers \<^verbatim>\<open>AppendEntries\<close> and \<^verbatim>\<open>RequestVote\<close>; two tickers and an event
  loop that start elections and heartbeats; one goroutine per election and peer that asks for a vote and
  counts the answer; one goroutine per broadcast and peer that replicates the log and retries; a goroutine
  that applies committed entries; and \<^verbatim>\<open>Start\<close>, which a client calls. Term, vote and log are written to a
  \<^verbatim>\<open>Persister\<close> through \<^verbatim>\<open>labgob\<close>; requests travel over \<^verbatim>\<open>labrpc\<close>, which may delay, reorder or lose them. A
  MapReduce master either runs all tasks itself or hands them out to workers that register; tasks communicate
  through files of JSON records.

  \<^bold>\<open>The theories.\<close>

  \<^item> \<open>Prelude\<close>: Go's run-time errors as results (\<open>Inl\<close> a panic or a \<^verbatim>\<open>log.Fatal\<close>), indexing and slicing with
    bounds checks, prefix agreement of lists, and the locale \<open>quorums\<close>, interpreted on majorities.
  \<^item> \<open>Labgob\<close> (\<^verbatim>\<open>labgob.go\<close>): types and values as data types; \<^verbatim>\<open>checkType\<close> with its table of checked types,
    \<^verbatim>\<open>checkDefault\<close>, \<^verbatim>\<open>Encode\<close>, \<^verbatim>\<open>EncodeValue\<close>, \<^verbatim>\<open>Decode\<close>, \<^verbatim>\<open>Register\<close>, \<^verbatim>\<open>RegisterName\<close>. The type check finds
    exactly the types with an unexported field, a value that passes it survives a transfer, and decoding keeps
    the type of a variable.
  \<^item> \<open>Persister\<close> (\<^verbatim>\<open>persister.go\<close>): all methods, with the contract of stable storage as a locale.
  \<^item> \<open>Raft_State\<close>: the record \<open>Raft\<close>, \<^verbatim>\<open>GetState\<close>, \<^verbatim>\<open>persist\<close>, \<^verbatim>\<open>readPersist\<close>, \<^verbatim>\<open>switchTo\<close>, the timers and
    \<^verbatim>\<open>Make\<close>; the well-formedness invariant of a peer and the locale \<open>raft_op\<close> of operations that keep it,
    which every handler and reply section interprets.
  \<^item> \<open>Raft_Append\<close>, \<open>Raft_Vote\<close>: the two handlers and the critical sections of \<^verbatim>\<open>startElection\<close>, each with its
    exact behaviour on every branch.
  \<^item> \<open>Raft_Leader\<close>: \<^verbatim>\<open>Start\<close>, \<^verbatim>\<open>broadcastHeartbeat\<close>, the critical sections of \<^verbatim>\<open>broadcastAppendEntries\<close>, its
    retry loop and \<^verbatim>\<open>getNextIndex\<close>. The loop has the index at which it starts as fuel: each rejection
    moves strictly back (\<open>rejection_moves_back\<close>), and \<open>replicate_converges\<close> shows that the loop returns
    with this fuel and leaves the follower with the leader's log.
  \<^item> \<open>Raft_Apply\<close>: \<^verbatim>\<open>applyEntries\<close>, as a loop and in single steps; its waiting on \<^verbatim>\<open>applyCond\<close> is part of
    \<open>Raft_Cluster\<close>.
  \<^item> \<open>Raft_Timers\<close>: the tickers and the event loop with the mutex, the condition variables and the unbuffered
    channels between them, as a step relation.
  \<^item> \<open>Raft_Cluster\<close>: any number of peers with all their goroutines. An action of the cluster is one critical
    section of one goroutine, the delivery or loss of a message, a timeout, a client's command, or a crash
    with restart; \<open>reachable\<close> are the states of all runs. A step is \<open>calm\<close> if no goroutine acts on a test
    that stopped holding while the mutex was free; \<open>calm_reachable\<close> are the states of the runs with only
    calm steps.
  \<^item> \<open>Raft_Recovery\<close>: in every run each peer has its persistent state on stable storage, so a crash restores
    it, and applies the indices in order.
  \<^item> \<open>Raft_Election_Safety\<close>: in every calm run a term has at most one leader.
  \<^item> \<open>Raft_Protocol\<close>: the Raft protocol without program, as a transition relation on terms, votes, logs, sent
    requests and acknowledgements, with its inductive invariant: log matching, leader completeness, agreement of
    everything decided.
  \<^item> \<open>Raft_Refinement\<close>, \<open>Raft_Safety\<close>: a simulation relation between clusters and protocol states; every calm
    step of the program is a step of the protocol. From it, state machine safety, log matching and leader
    completeness of the program, also between different moments of a run.
  \<^item> \<open>Raft_NoPanic\<close>: no calm step indexes or slices out of range.
  \<^item> \<open>Raft_Progress\<close>: what is committed can always be applied by a running \<^verbatim>\<open>applyEntries\<close>; and the run in which
    that goroutine sleeps through the signal.
  \<^item> \<open>Raft_Elections\<close>: from every state of a calm run of at least two peers a peer with a most up-to-date log can
    be elected and have all others as followers; a cluster of one peer never has a leader.
  \<^item> \<open>Raft_Availability\<close>: from every such state and for every command there is a calm run, without losses and
    crashes, after which all peers have applied the command: election, \<^verbatim>\<open>Start\<close>, replication with its retries,
    commit, heartbeat and \<^verbatim>\<open>applyEntries\<close> composed.
  \<^item> \<open>Raft_Races\<close>: three runs that are not calm, in which the code's gaps between test and action lead to two
    leaders of one term, to a second vote in a term, and to different commands applied at one index.
  \<^item> \<open>Go_Slices\<close>, \<open>Raft_Slices\<close>: slices with the arrays they share, and the log as such a slice. On the elements
    the operations are those on lists; a request in flight shares the array of the log, keeps its content while
    the leader appends, and loses it when the peer replaces its log in place. The growth of arrays is a parameter
    with the locale \<open>growth\<close> as contract.
  \<^item> \<open>Labrpc\<close> (\<^verbatim>\<open>labrpc.go\<close>): servers, services, the tables of the network, and the processing of one request
    interleaved with arbitrary other activity: at most one execution, no answer from a replaced server,
    faithful transfer.
  \<^item> \<open>MR_Json\<close>, \<open>MR_Tasks\<close>, \<open>MR_Job\<close> (\<^verbatim>\<open>common.go\<close>, \<^verbatim>\<open>common_map.go\<close>, \<^verbatim>\<open>common_reduce.go\<close>,
    \<^verbatim>\<open>master_splitmerge.go\<close>, \<^verbatim>\<open>master.go\<close>): the record format, the tasks on a file system, and the sequential
    job, which refines the specification \<open>mr_spec\<close>. The sorting routine is a parameter with the locale
    \<open>key_sort\<close> as contract, interpreted on insertion sort.
  \<^item> \<open>MR_Schedule\<close>, \<open>MR_Worker\<close> (\<^verbatim>\<open>schedule.go\<close>, \<^verbatim>\<open>worker.go\<close>, \<^verbatim>\<open>master.go\<close>): the scheduler and its goroutines as
    a step function, and the worker. Termination of \<^verbatim>\<open>schedule\<close> is shown with an explicit bound on the number of
    steps.
  \<^item> \<open>MR_Distributed\<close> (\<^verbatim>\<open>master.go\<close>, \<^verbatim>\<open>master_rpc.go\<close>, \<^verbatim>\<open>worker.go\<close>): a whole distributed job, with the workers
    executing tasks on the file system while the scheduler hands them out and gives them up, and the
    registration server. It refines the same specification as the sequential job, and it ends when a worker
    stays.
  \<^item> \<open>Config\<close>, \<open>Config_Checks\<close> (\<^verbatim>\<open>config.go\<close>): the test harness, on the network of \<open>Labrpc\<close> and the cluster of
    \<open>Raft_Cluster\<close>: which links are up, crash and restart, the readers of the apply channels, and the checks
    of the tests, which find no error during calm runs.
  \<^item> \<open>Raft_Messages\<close>: the arguments and replies of \<^verbatim>\<open>RequestVote\<close> and \<^verbatim>\<open>AppendEntries\<close> as values of \<^verbatim>\<open>labgob\<close>, the
    methods of a peer that reflection finds, its service and server, \<^verbatim>\<open>sendRequestVote\<close> and
    \<^verbatim>\<open>sendAppendEntries\<close>. Dispatching a request runs the handler on the arguments that were sent, and the caller
    decodes the reply that the handler made.
  \<^item> \<open>Raft_System\<close>: the whole program composed: the harness of \<open>Config\<close>, the network of \<open>Labrpc\<close> that processes
    every call step by step, the messages, and the goroutines of the running peers. Crashed instances go on, as
    in the code, and nothing is assumed of what they do with their object and their client ends.
  \<^item> \<open>Raft_Simulation\<close>: every step of the whole program is answered by steps of the cluster of \<open>Raft_Cluster\<close>, so
    that the cluster, in which a network just executes, loses and answers calls, describes the program.
  \<^item> \<open>Raft_System_Safety\<close>: therefore state machine safety and freedom from panics of calm runs hold of the whole
    program.

  \<^bold>\<open>Conventions.\<close> Definitions keep the names of the code. A function that holds the mutex throughout is one
  definition; one that releases it is one definition per critical section, composed in \<open>Raft_Cluster\<close>. Time is
  an argument, and so are random numbers. Go's 64-bit integers are \<open>int\<close>; the 32-bit hash and the 32-bit
  counter of the network are words.

  \<^bold>\<open>Not modelled.\<close> Debug printing (\<^verbatim>\<open>util.go\<close>), except where evaluating its arguments can panic; sockets and
  \<^verbatim>\<open>net/rpc\<close>, which appear as calls that answer or fail; the partial effect on the file system of a worker
  that vanishes in the middle of a task; recursive types of \<^verbatim>\<open>encoding/gob\<close>; the tests themselves. In
  \<open>Raft_System\<close> an operation of the harness on links and peers is one step, although the code releases its
  mutex within it.
\<close>

end
